(* ===== verification/Prelude.thy ===== *)
theory Prelude
  imports Main "HOL-Library.Word"
begin

text \<open>
  Shared vocabulary of the development: the machine types of the C sources, byte-level
  views of C objects (little-endian integers, slices and patches of byte arrays) and the
  generic lemmas about them that the component theories use.  The collection
  \<open>mem_simps\<close> gathers the laws of slices and patches.
\<close>

named_theorems mem_simps \<open>laws of slices and patches of byte arrays\<close>

type_synonym byte = "8 word"
type_synonym u16 = "16 word"
type_synonym u32 = "32 word"
type_synonym i32 = "32 word"
type_synonym bytes = "byte list"

section \<open>Little-endian integers\<close>

text \<open>The x86 stores the least significant byte first: \<open>le_bytes k v\<close> is what the \<open>k\<close> bytes
  of an integer object hold when its value is \<open>v\<close>, \<open>le_val\<close> what a load of them yields.\<close>

primrec le_bytes :: "nat \<Rightarrow> nat \<Rightarrow> bytes" where
  "le_bytes 0 v = []"
| "le_bytes (Suc k) v = word_of_nat (v mod 256) # le_bytes k (v div 256)"

primrec le_val :: "bytes \<Rightarrow> nat" where
  "le_val [] = 0"
| "le_val (b # bs) = unat b + 256 * le_val bs"

lemma length_le_bytes [simp]: "length (le_bytes k v) = k"
  by (induction k arbitrary: v) auto

lemma le_bytes_eq_Nil [simp]: "le_bytes k v = [] \<longleftrightarrow> k = 0"
  by (cases k) auto

lemma uint_eq_uint_iff [simp]: "uint (a :: byte) = uint b \<longleftrightarrow> a = b"
  by (auto intro: unsigned_word_eqI)

lemma unat_byte_less: "unat (b :: byte) < 256"
  using unsigned_less [of b] by simp

lemma unat_byte_of_nat [simp]: "unat (word_of_nat (v mod 256) :: byte) = v mod 256"
  by (simp add: unsigned_of_nat take_bit_eq_mod)

lemma le_val_bytes [simp]: "le_val (le_bytes k v) = v mod 256 ^ k"
proof (induction k arbitrary: v)
  case (Suc k)
  have "v mod 256 + 256 * (v div 256 mod 256 ^ k) = v mod (256 * 256 ^ k)"
    by (simp add: mod_mult2_eq)
  with Suc show ?case by simp
qed simp

lemma le_val_less: "le_val bs < 256 ^ length bs"
proof (induction bs)
  case (Cons b bs)
  have "unat b + 256 * le_val bs < 256 + 256 * le_val bs"
    using unat_byte_less by simp
  also have "\<dots> = 256 * Suc (le_val bs)" by simp
  also have "\<dots> \<le> 256 * 256 ^ length bs"
    using Cons.IH by (intro mult_le_mono2) simp
  finally show ?case by simp
qed simp

lemma le_bytes_val [simp]: "length bs = k \<Longrightarrow> le_bytes k (le_val bs) = bs"
proof (induction bs arbitrary: k)
  case (Cons b bs)
  have "(unat b + 256 * le_val bs) mod 256 = unat b"
    using unat_byte_less by simp
  moreover have "(unat b + 256 * le_val bs) div 256 = le_val bs"
    using unat_byte_less by simp
  ultimately show ?case
    using Cons by auto
qed simp

text \<open>Words of 16 and 32 bits in memory.\<close>

definition put32 :: "32 word \<Rightarrow> bytes" where
  "put32 w = le_bytes 4 (unat w)"

definition get32 :: "bytes \<Rightarrow> 32 word" where
  "get32 bs = word_of_nat (le_val bs)"

definition put16 :: "16 word \<Rightarrow> bytes" where
  "put16 w = le_bytes 2 (unat w)"

definition get16 :: "bytes \<Rightarrow> 16 word" where
  "get16 bs = word_of_nat (le_val bs)"

lemma length_put32 [simp]: "length (put32 w) = 4"
  by (simp add: put32_def)

lemma length_put16 [simp]: "length (put16 w) = 2"
  by (simp add: put16_def)

lemma get32_put32 [simp]: "get32 (put32 w) = w"
proof -
  have "unat w mod 256 ^ 4 = unat w"
    using unsigned_less [of w, where ?'a = nat] by simp
  then show ?thesis by (simp add: get32_def put32_def)
qed

lemma get16_put16 [simp]: "get16 (put16 w) = w"
proof -
  have "unat w mod 256 ^ 2 = unat w"
    using unsigned_less [of w, where ?'a = nat] by simp
  then show ?thesis by (simp add: get16_def put16_def)
qed

lemma put32_get32 [simp]: "length bs = 4 \<Longrightarrow> put32 (get32 bs) = bs"
  using le_val_less [of bs]
  by (simp add: put32_def get32_def unsigned_of_nat take_bit_eq_mod)

lemma put16_get16 [simp]: "length bs = 2 \<Longrightarrow> put16 (get16 bs) = bs"
  using le_val_less [of bs]
  by (simp add: put16_def get16_def unsigned_of_nat take_bit_eq_mod)

section \<open>Slices and patches of a byte array\<close>

text \<open>\<open>slice off n bs\<close> are the \<open>n\<close> bytes at offset \<open>off\<close>; \<open>patch bs off ds\<close> is the array
  after the bytes \<open>ds\<close> were stored at offset \<open>off\<close>.\<close>

definition slice :: "nat \<Rightarrow> nat \<Rightarrow> 'a list \<Rightarrow> 'a list" where
  "slice off n bs = take n (drop off bs)"

definition patch :: "'a list \<Rightarrow> nat \<Rightarrow> 'a list \<Rightarrow> 'a list" where
  "patch bs off ds = take off bs @ ds @ drop (off + length ds) bs"

lemma length_slice [simp]: "length (slice off n bs) = min n (length bs - off)"
  by (simp add: slice_def)

lemma length_patch [simp]:
  "off + length ds \<le> length bs \<Longrightarrow> length (patch bs off ds) = length bs"
  by (simp add: patch_def)

lemma slice_patch_same [simp, mem_simps]:
  "off + length ds \<le> length bs \<Longrightarrow> n = length ds \<Longrightarrow> slice off n (patch bs off ds) = ds"
  by (simp add: slice_def patch_def)

lemma slice_patch_before [mem_simps]:
  "a + n \<le> off \<Longrightarrow> off \<le> length bs \<Longrightarrow> slice a n (patch bs off ds) = slice a n bs"
proof (rule nth_equalityI)
  assume "a + n \<le> off" "off \<le> length bs"
  then show "length (slice a n (patch bs off ds)) = length (slice a n bs)"
    by (auto simp: patch_def)
  show "slice a n (patch bs off ds) ! i = slice a n bs ! i"
    if "i < length (slice a n (patch bs off ds))" for i
    using that \<open>a + n \<le> off\<close> \<open>off \<le> length bs\<close>
    by (simp add: slice_def patch_def nth_append)
qed

lemma slice_patch_after [mem_simps]:
  "off + length ds \<le> a \<Longrightarrow> off \<le> length bs \<Longrightarrow> slice a n (patch bs off ds) = slice a n bs"
  by (simp add: slice_def patch_def)

lemma patch_slice [simp]: "patch bs off (slice off n bs) = bs"
proof (cases "off + n \<le> length bs")
  case True
  then have "take n (drop off bs) @ drop (off + n) bs = drop off bs"
    by (metis add.commute append_take_drop_id drop_drop)
  with True show ?thesis
    by (simp add: patch_def slice_def min_def)
next
  case False
  then show ?thesis by (simp add: patch_def slice_def min_def)
qed

lemma patch_Nil [simp]: "patch bs off [] = bs"
  by (simp add: patch_def)

lemma slice_zero [simp]: "slice off 0 bs = []"
  by (simp add: slice_def)

lemma slice_all [simp]: "n = length bs \<Longrightarrow> slice 0 n bs = bs"
  by (simp add: slice_def)

lemma patch_all [simp]: "length ds = length bs \<Longrightarrow> patch bs 0 ds = ds"
  by (simp add: patch_def)

lemma patch_append:
  "patch bs off (xs @ ys) = patch (patch bs off xs) (off + length xs) ys"
  if "off + length xs + length ys \<le> length bs"
  using that by (simp add: patch_def ac_simps)

lemma take_patch [simp]:
  "off \<le> length bs \<Longrightarrow> take (off + length ds) (patch bs off ds) = take off bs @ ds"
  by (simp add: patch_def)

lemma slice_append_right [simp]: "a = length xs \<Longrightarrow> slice a n (xs @ ys) = take n ys"
  by (simp add: slice_def)

lemma slice_slice: "a + m \<le> n \<Longrightarrow> slice a m (slice off n bs) = slice (off + a) m bs"
  by (simp add: slice_def drop_take min_def add.commute)

lemma slice_append_split: "slice off (m + n) bs = slice off m bs @ slice (off + m) n bs"
  by (simp add: slice_def take_add add.commute)

lemma sint_small: "0 \<le> n \<Longrightarrow> n < 2 ^ 31 \<Longrightarrow> sint (word_of_int n :: i32) = n"
  by (simp add: sint_sbintrunc' signed_take_bit_int_eq_self)

lemma sint_small_nat: "n < 2 ^ 31 \<Longrightarrow> sint (word_of_nat n :: i32) = int n"
  using sint_small [of "int n"] by simp

lemma uint_word_of_int_32: "uint (word_of_int n :: i32) = n mod 2 ^ 32"
  by (simp add: uint_word_of_int)

lemma uint_of_sint: "uint (w :: i32) = sint w mod 2 ^ 32"
  using uint_word_of_int_32 [of "sint w"] by simp

lemma uint_minus_sint: "uint (- w :: i32) = - sint w mod 2 ^ 32"
  using uint_word_of_int_32 [of "- sint w"] by simp

lemma sint32_range: "- (2 ^ 31) \<le> sint (w :: i32)" "sint (w :: i32) < 2 ^ 31"
  using sint_greater_eq [of w] sint_less [of w] by simp_all

lemma length_takeWhile_less: "x \<in> set xs \<Longrightarrow> \<not> P x \<Longrightarrow> length (takeWhile P xs) < length xs"
  by (induction xs) auto

end
