(* ===== verification/CString.thy ===== *)
theory CString
  imports Prelude
begin

text \<open>
  The kernel's string and memory routines (\<open>string.c\<close>, with the two \<open>rep stos\<close> helpers of
  \<open>x86.h\<close>).  Memory is a function from addresses to bytes; pointers are natural numbers.
  The loops of the C code are recursions on the remaining count.
\<close>

unbundle bit_operations_syntax

type_synonym mem = "nat \<Rightarrow> byte"

section \<open>Definitions\<close>

primrec stosb :: "mem \<Rightarrow> nat \<Rightarrow> byte \<Rightarrow> nat \<Rightarrow> mem" where
  "stosb m a d 0 = m"
| "stosb m a d (Suc n) = stosb (m(a := d)) (Suc a) d n"

definition store32 :: "mem \<Rightarrow> nat \<Rightarrow> u32 \<Rightarrow> mem" where
  "store32 m a d = m(a := ucast d, a + 1 := ucast (drop_bit 8 d),
     a + 2 := ucast (drop_bit 16 d), a + 3 := ucast (drop_bit 24 d))"

primrec stosl :: "mem \<Rightarrow> nat \<Rightarrow> u32 \<Rightarrow> nat \<Rightarrow> mem" where
  "stosl m a d 0 = m"
| "stosl m a d (Suc n) = stosl (store32 m a d) (a + 4) d n"

definition memset :: "mem \<Rightarrow> nat \<Rightarrow> i32 \<Rightarrow> nat \<Rightarrow> mem" where
  "memset m dst c n =
     (if dst mod 4 = 0 \<and> n mod 4 = 0
      then let c = c AND 0xFF
           in stosl m dst (push_bit 24 c OR push_bit 16 c OR push_bit 8 c OR c) (n div 4)
      else stosb m dst (ucast c) n)"

primrec memcmp :: "mem \<Rightarrow> nat \<Rightarrow> nat \<Rightarrow> nat \<Rightarrow> int" where
  "memcmp m s1 s2 0 = 0"
| "memcmp m s1 s2 (Suc n) =
     (if m s1 \<noteq> m s2 then uint (m s1) - uint (m s2) else memcmp m (Suc s1) (Suc s2) n)"

primrec copy_down :: "mem \<Rightarrow> nat \<Rightarrow> nat \<Rightarrow> nat \<Rightarrow> mem" where
  "copy_down m d s 0 = m"
| "copy_down m d s (Suc n) = copy_down (m(d - 1 := m (s - 1))) (d - 1) (s - 1) n"

primrec copy_up :: "mem \<Rightarrow> nat \<Rightarrow> nat \<Rightarrow> nat \<Rightarrow> mem" where
  "copy_up m d s 0 = m"
| "copy_up m d s (Suc n) = copy_up (m(d := m s)) (Suc d) (Suc s) n"

definition memmove :: "mem \<Rightarrow> nat \<Rightarrow> nat \<Rightarrow> nat \<Rightarrow> mem" where
  "memmove m dst src n =
     (if src < dst \<and> dst < src + n then copy_down m (dst + n) (src + n) n
      else copy_up m dst src n)"

definition memcpy :: "mem \<Rightarrow> nat \<Rightarrow> nat \<Rightarrow> nat \<Rightarrow> mem" where
  "memcpy m dst src n = memmove m dst src n"

primrec strncmp :: "mem \<Rightarrow> nat \<Rightarrow> nat \<Rightarrow> nat \<Rightarrow> int" where
  "strncmp m p q 0 = 0"
| "strncmp m p q (Suc n) =
     (if m p \<noteq> 0 \<and> m p = m q then strncmp m (Suc p) (Suc q) n
      else uint (m p) - uint (m q))"

primrec strncpy_pad :: "mem \<Rightarrow> nat \<Rightarrow> nat \<Rightarrow> mem" where
  "strncpy_pad m s 0 = m"
| "strncpy_pad m s (Suc n) = strncpy_pad (m(s := 0)) (Suc s) n"

primrec strncpy :: "mem \<Rightarrow> nat \<Rightarrow> nat \<Rightarrow> nat \<Rightarrow> mem" where
  "strncpy m s t 0 = m"
| "strncpy m s t (Suc n) =
     (let m' = m(s := m t)
      in if m t \<noteq> 0 then strncpy m' (Suc s) (Suc t) n else strncpy_pad m' (Suc s) n)"

text \<open>The loop of \<open>safestrcpy\<close> with the pointers it ends with; \<open>k\<close> counts \<open>--n > 0\<close>.\<close>

primrec safestrcpy_loop :: "mem \<Rightarrow> nat \<Rightarrow> nat \<Rightarrow> nat \<Rightarrow> mem \<times> nat" where
  "safestrcpy_loop m s t 0 = (m, s)"
| "safestrcpy_loop m s t (Suc k) =
     (let m' = m(s := m t)
      in if m t \<noteq> 0 then safestrcpy_loop m' (Suc s) (Suc t) k else (m', Suc s))"

definition safestrcpy :: "mem \<Rightarrow> nat \<Rightarrow> nat \<Rightarrow> int \<Rightarrow> mem" where
  "safestrcpy m s t n =
     (if n \<le> 0 then m
      else let (m', s') = safestrcpy_loop m s t (nat (n - 1)) in m'(s' := 0))"

partial_function (option) strlen_from :: "mem \<Rightarrow> nat \<Rightarrow> nat \<Rightarrow> nat option" where
  "strlen_from m s n = (if m (s + n) = 0 then Some n else strlen_from m s (Suc n))"

definition strlen :: "mem \<Rightarrow> nat \<Rightarrow> nat option" where
  "strlen m s = strlen_from m s 0"

section \<open>Filling and copying\<close>

text \<open>What a copy of \<open>n\<close> bytes means: every destination byte is the source byte of the memory
  before the call, and nothing else changes.\<close>

definition copied :: "mem \<Rightarrow> nat \<Rightarrow> nat \<Rightarrow> nat \<Rightarrow> mem" where
  "copied m dst src n = (\<lambda>a. if dst \<le> a \<and> a < dst + n then m (src + (a - dst)) else m a)"

definition filled :: "mem \<Rightarrow> nat \<Rightarrow> byte \<Rightarrow> nat \<Rightarrow> mem" where
  "filled m dst c n = (\<lambda>a. if dst \<le> a \<and> a < dst + n then c else m a)"

lemma copy_up_copied: "\<not> (s < d \<and> d < s + n) \<Longrightarrow> copy_up m d s n = copied m d s n"
proof (induction n arbitrary: m d s)
  case (Suc n)
  have "copy_up m d s (Suc n) = copy_up (m(d := m s)) (Suc d) (Suc s) n" by simp
  also have "\<dots> = copied (m(d := m s)) (Suc d) (Suc s) n"
    using Suc.prems by (intro Suc.IH) linarith
  also have "\<dots> = copied m d s (Suc n)"
    using Suc.prems by (auto simp: copied_def fun_eq_iff Suc_diff_Suc)
  finally show ?case .
qed (auto simp: copied_def fun_eq_iff)

lemma copy_down_copied: "s < d \<Longrightarrow> copy_down m (d + n) (s + n) n = copied m d s n"
proof (induction n arbitrary: m)
  case (Suc n)
  then have "copy_down m (d + Suc n) (s + Suc n) (Suc n)
      = copied (m(d + n := m (s + n))) d s n"
    by simp
  also have "\<dots> = copied m d s (Suc n)"
    using Suc.prems by (auto simp: copied_def fun_eq_iff less_Suc_eq)
  finally show ?case .
qed (auto simp: copied_def fun_eq_iff)

lemma memmove_copied: "memmove m dst src n = copied m dst src n"
  by (simp add: memmove_def copy_up_copied copy_down_copied)

lemma stosb_filled: "stosb m a d n = filled m a d n"
  by (induction n arbitrary: m a) (auto simp: filled_def fun_eq_iff)

lemma stosl_filled:
  assumes "\<And>m a. store32 m a d = filled m a c 4"
  shows "stosl m a d n = filled m a c (4 * n)"
  by (induction n arbitrary: m a) (auto simp: assms filled_def fun_eq_iff)

lemma store32_pattern:
  fixes c :: u32
  assumes "c = c AND 0xFF"
  shows "store32 m a (push_bit 24 c OR push_bit 16 c OR push_bit 8 c OR c) = filled m a (ucast c) 4"
proof -
  let ?d = "push_bit 24 c OR push_bit 16 c OR push_bit 8 c OR c"
  have hi: "\<not> bit c i" if "8 \<le> i" for i
  proof -
    have "bit c i \<longleftrightarrow> bit (c AND mask 8) i" using assms by (simp add: mask_eq_exp_minus_1)
    then show ?thesis using that by (simp add: bit_simps)
  qed
  have "(ucast ?d :: byte) = ucast c" "(ucast (drop_bit 8 ?d) :: byte) = ucast c"
    "(ucast (drop_bit 16 ?d) :: byte) = ucast c" "(ucast (drop_bit 24 ?d) :: byte) = ucast c"
    by (rule bit_word_eqI; auto simp: bit_simps hi)+
  moreover have "a \<le> x \<and> x < a + 4 \<longleftrightarrow> x = a \<or> x = a + 1 \<or> x = a + 2 \<or> x = a + 3" for x
    by auto
  ultimately show ?thesis
    by (auto simp: store32_def filled_def fun_eq_iff)
qed

lemma ucast_and_FF: "(ucast (c AND 0xFF :: u32) :: byte) = ucast c"
proof -
  have "c AND 0xFF = c AND mask 8" by (simp add: mask_eq_exp_minus_1)
  then show ?thesis by (auto intro!: bit_word_eqI simp: bit_simps)
qed

lemma memset_filled: "memset m dst c n = filled m dst (ucast c) n"
proof (cases "dst mod 4 = 0 \<and> n mod 4 = 0")
  case True
  let ?c = "c AND 0xFF"
  have "stosl m dst (push_bit 24 ?c OR push_bit 16 ?c OR push_bit 8 ?c OR ?c) (n div 4)
      = filled m dst (ucast ?c) (4 * (n div 4))"
    by (rule stosl_filled, rule store32_pattern) simp
  moreover have "4 * (n div 4) = n" using True by presburger
  ultimately show ?thesis
    using True by (simp add: memset_def Let_def ucast_and_FF)
next
  case False
  then have "memset m dst c n = stosb m dst (ucast c) n" by (simp only: memset_def if_False)
  then show ?thesis by (simp add: stosb_filled)
qed

section \<open>Comparing and copying strings\<close>

text \<open>\<open>cstr m p n\<close>: the bytes of the string at \<open>p\<close>, cut after \<open>n\<close> bytes or at its zero.\<close>

primrec cstr :: "mem \<Rightarrow> nat \<Rightarrow> nat \<Rightarrow> bytes" where
  "cstr m p 0 = []"
| "cstr m p (Suc n) = (if m p = 0 then [] else m p # cstr m (Suc p) n)"

lemma strncmp_eq_0: "strncmp m p q n = 0 \<longleftrightarrow> cstr m p n = cstr m q n"
  by (induction n arbitrary: p q) (auto simp: uint_0_iff)

lemma strncmp_refl [simp]: "strncmp m p p n = 0"
  by (simp add: strncmp_eq_0)

lemma strncmp_sym: "strncmp m q p n = - strncmp m p q n"
proof (induction n arbitrary: p q)
  case (Suc n)
  show ?case using Suc.IH [of "Suc q" "Suc p"] by simp
qed simp

lemma memcmp_eq_0: "memcmp m p q n = 0 \<longleftrightarrow> (\<forall>i < n. m (p + i) = m (q + i))"
proof (induction n arbitrary: p q)
  case (Suc n)
  have "(\<forall>i < Suc n. m (p + i) = m (q + i)) \<longleftrightarrow>
      m p = m q \<and> (\<forall>i < n. m (Suc p + i) = m (Suc q + i))"
    by (auto simp: less_Suc_eq_0_disj)
  with Suc show ?case by simp
qed simp

lemma strncpy_pad_filled: "strncpy_pad m s n = filled m s 0 n"
  by (induction n arbitrary: m s) (auto simp: filled_def fun_eq_iff)

lemma cstr_upd_outside [simp]: "a < p \<or> p + n \<le> a \<Longrightarrow> cstr (m(a := v)) p n = cstr m p n"
  by (induction n arbitrary: p) auto

lemma length_cstr: "length (cstr m p n) \<le> n"
  by (induction n arbitrary: p) (auto)

lemma cstr_nth: "i < length (cstr m p n) \<Longrightarrow> cstr m p n ! i = m (p + i)"
proof (induction n arbitrary: p i)
  case (Suc n)
  then show ?case by (cases i) (auto split: if_splits)
qed simp

text \<open>The destination of \<open>strncpy\<close>: the string, then zeros up to \<open>n\<close> bytes.\<close>

lemma strncpy_result:
  assumes "s + n \<le> t \<or> t + n \<le> s"
  shows "strncpy m s t n = (\<lambda>a. if s \<le> a \<and> a < s + n
    then (if a - s < length (cstr m t n) then cstr m t n ! (a - s) else 0) else m a)"
  using assms
proof (induction n arbitrary: m s t)
  case (Suc n)
  show ?case
  proof (cases "m t = 0")
    case True
    then show ?thesis
      by (auto simp: strncpy_pad_filled filled_def fun_eq_iff)
  next
    case False
    have "cstr (m(s := m t)) (Suc t) n = cstr m (Suc t) n"
      using Suc.prems by (intro cstr_upd_outside) auto
    moreover have "strncpy (m(s := m t)) (Suc s) (Suc t) n
      = (\<lambda>a. if Suc s \<le> a \<and> a < Suc s + n
          then (if a - Suc s < length (cstr (m(s := m t)) (Suc t) n)
                then cstr (m(s := m t)) (Suc t) n ! (a - Suc s) else 0)
          else (m(s := m t)) a)"
      using Suc.prems by (intro Suc.IH) auto
    ultimately show ?thesis
      using False by (auto simp: fun_eq_iff Suc_diff_Suc nth_Cons' Suc_le_eq)
  qed
qed (auto simp: fun_eq_iff)

lemma safestrcpy_loop_inv:
  assumes "safestrcpy_loop m s t k = (m', s')"
  shows "s \<le> s' \<and> s' \<le> s + k \<and> (\<forall>a. a < s \<or> s + k \<le> a \<longrightarrow> m' a = m a)"
  using assms
proof (induction k arbitrary: m s t)
  case (Suc k)
  show ?case
  proof (cases "m t = 0")
    case True
    with Suc.prems show ?thesis by (auto simp: Let_def)
  next
    case False
    with Suc.prems have "safestrcpy_loop (m(s := m t)) (Suc s) (Suc t) k = (m', s')"
      by (simp add: Let_def)
    from Suc.IH [OF this] show ?thesis by auto
  qed
qed auto

lemma strlen_from_Some:
  assumes "m (s + k) = 0" "\<And>i. n \<le> i \<Longrightarrow> i < k \<Longrightarrow> m (s + i) \<noteq> 0" "n \<le> k"
  shows "strlen_from m s n = Some k"
  using assms
proof (induction "k - n" arbitrary: n)
  case 0
  then show ?case by (subst strlen_from.simps) simp
next
  case (Suc d)
  then have "n < k" by simp
  with Suc have "strlen_from m s (Suc n) = Some k" by (intro Suc.hyps) auto
  with Suc.prems(2) [of n] \<open>n < k\<close> show ?case by (subst strlen_from.simps) simp
qed

lemma strlen_Some:
  "m (s + k) = 0 \<Longrightarrow> (\<And>i. i < k \<Longrightarrow> m (s + i) \<noteq> 0) \<Longrightarrow> strlen m s = Some k"
  by (simp add: strlen_def strlen_from_Some)

text \<open>The loop of \<open>safestrcpy\<close> copies the string, cut after \<open>k\<close> bytes, and stops after its zero if it
  copied one.\<close>

lemma safestrcpy_loop_copies:
  assumes "safestrcpy_loop m s t k = (m', s')" "s + k < t \<or> t + k \<le> s"
  shows "cstr (m'(s' := 0)) s (Suc k) = cstr m t k \<and> s \<le> s' \<and> s' \<le> s + k"
  using assms
proof (induction k arbitrary: m s t)
  case (Suc k)
  show ?case
  proof (cases "m t = 0")
    case True
    then show ?thesis using Suc.prems by (auto simp: Let_def)
  next
    case False
    have l: "safestrcpy_loop (m(s := m t)) (Suc s) (Suc t) k = (m', s')"
      using Suc.prems(1) False by (simp add: Let_def)
    have sep: "Suc s + k < Suc t \<or> Suc t + k \<le> Suc s" using Suc.prems(2) by auto
    have IH: "cstr (m'(s' := 0)) (Suc s) (Suc k) = cstr (m(s := m t)) (Suc t) k" "Suc s \<le> s'" "s' \<le> Suc s + k"
      using Suc.IH [OF l sep] by (simp_all del: cstr.simps fun_upd_apply)
    have "m' s = m t" using safestrcpy_loop_inv [OF l] by simp
    moreover have "cstr (m(s := m t)) (Suc t) k = cstr m (Suc t) k"
      using Suc.prems(2) by (intro cstr_upd_outside) auto
    moreover have "cstr (m'(s' := 0)) s (Suc (Suc k)) = m' s # cstr (m'(s' := 0)) (Suc s) (Suc k)"
      using IH(2) calculation(1) False by (subst cstr.simps) simp
    ultimately have "cstr (m'(s' := 0)) s (Suc (Suc k)) = cstr m t (Suc k)"
      using False by (simp only: IH(1) cstr.simps(2) [of m t] if_False)
    moreover have "s \<le> s'" "s' \<le> s + Suc k" using IH(2,3) by simp_all
    ultimately show ?thesis by blast
  qed
qed auto

section \<open>Properties\<close>

text \<open>C29: The kernel's block routines do what their callers take them to do.  \<open>memset\<close> stores the low byte of
  its argument in exactly the \<open>n\<close> bytes, also when it takes the path with four bytes at a time;
  \<open>memmove\<close> and \<open>memcpy\<close> give every destination byte the old value of its source byte and change nothing
  else, for every overlap of the two areas; \<open>memcmp\<close> is zero exactly on equal areas.\<close>

theorem memory_routines:
  "memset m dst c n = filled m dst (ucast c) n \<and>
   memmove m dst src n = copied m dst src n \<and> memcpy m dst src n = copied m dst src n \<and>
   (memcmp m src dst n = 0 \<longleftrightarrow> (\<forall>i. i < n \<longrightarrow> m (src + i) = m (dst + i)))"
  by (simp add: memset_filled memmove_copied memcpy_def memcmp_eq_0)

theorem memory_routines_witness:
  "let m = (\<lambda>a. if a < 6 then of_nat a else 9) in
   map (memmove m 2 0 4) [0..<7] = [0, 1, 0, 1, 2, 3, 9] \<and> map (memset m 4 0x1FF 4) [3..<9] = [3, 255, 255, 255, 255, 9]"
proof -
  let ?m = "\<lambda>a. if a < 6 then of_nat a else 9 :: byte"
  have "memmove ?m 2 0 4 = copied ?m 2 0 4" "memset ?m 4 0x1FF 4 = filled ?m 4 (ucast (0x1FF :: u32)) 4"
    using memory_routines [of ?m 4 "0x1FF" 4 0] memory_routines [of ?m 2 0 4 0] by simp_all
  then show ?thesis by (simp add: copied_def filled_def upt_rec)
qed

text \<open>C30: The kernel's string routines.  \<open>strncmp\<close> is zero exactly when the strings, cut after \<open>n\<close> bytes, are
  equal, and exchanging its arguments negates it.  \<open>safestrcpy\<close> into a separate area of \<open>n > 0\<close> bytes
  always leaves a terminated string there, namely the source cut after \<open>n - 1\<close> bytes, and writes nothing
  outside the area.\<close>

theorem string_routines:
  assumes "0 < n" "s + n \<le> t \<or> t + n \<le> s"
  shows "(strncmp m p q n = 0 \<longleftrightarrow> cstr m p n = cstr m q n) \<and> strncmp m q p n = - strncmp m p q n \<and>
    cstr (safestrcpy m s t (int n)) s n = cstr m t (n - 1) \<and>
    (\<forall>a. a < s \<or> s + n \<le> a \<longrightarrow> safestrcpy m s t (int n) a = m a)"
proof -
  obtain k where k: "n = Suc k" using assms(1) by (cases n) auto
  obtain m' s' where l: "safestrcpy_loop m s t k = (m', s')" by (cases "safestrcpy_loop m s t k")
  have eq: "safestrcpy m s t (int n) = m'(s' := 0)" using k l by (simp add: safestrcpy_def)
  have "s + k < t \<or> t + k \<le> s" using assms(2) k by auto
  from safestrcpy_loop_copies [OF l this] have "cstr (safestrcpy m s t (int n)) s n = cstr m t (n - 1)"
    unfolding eq by (simp only: k diff_Suc_1)
  moreover have "\<forall>a. a < s \<or> s + n \<le> a \<longrightarrow> safestrcpy m s t (int n) a = m a"
    unfolding eq using safestrcpy_loop_inv [OF l] k by auto
  ultimately show ?thesis using strncmp_eq_0 strncmp_sym by blast
qed

theorem string_routines_witness:
  "let m = (\<lambda>a. if 10 \<le> a \<and> a < 15 then of_nat a else 0) in
   cstr (safestrcpy m 0 10 3) 0 3 = [10, 11] \<and> strncmp m 10 10 3 = 0"
proof -
  let ?m = "\<lambda>a. if 10 \<le> a \<and> a < 15 then of_nat a else 0 :: byte"
  have "cstr ?m 10 2 = [10, 11]" by code_simp
  with string_routines [of 3 0 10 ?m 10 10] show ?thesis by simp
qed

end
