(* ===== verification/Kernel_Monad.thy ===== *)
theory Kernel_Monad
  imports Prelude
begin

text \<open>
  Kernel code is modelled as functions from a state to a result: a value with the new
  state, or the reason why control does not come back to the caller.  \<open>Panic\<close> is a call of
  the kernel's \<open>panic\<close> (with its message), \<open>UB\<close> an access outside its object or through an
  uninitialised pointer, \<open>Sleep\<close> the process blocking on a channel with nobody running in
  the sequential model to wake it, \<open>Spin\<close> an \<open>acquire\<close> of a lock that stays taken.
\<close>

datatype fault = Panic string | UB string | Sleep string | Spin string

type_synonym ('s, 'a) kfun = "'s \<Rightarrow> fault + 'a \<times> 's"

definition ret :: "'a \<Rightarrow> ('s, 'a) kfun" where
  "ret x = (\<lambda>s. Inr (x, s))"

definition bnd :: "('s, 'a) kfun \<Rightarrow> ('a \<Rightarrow> ('s, 'b) kfun) \<Rightarrow> ('s, 'b) kfun" where
  "bnd m f = (\<lambda>s. case m s of Inl e \<Rightarrow> Inl e | Inr (x, s') \<Rightarrow> f x s')"

abbreviation thn :: "('s, 'a) kfun \<Rightarrow> ('s, 'b) kfun \<Rightarrow> ('s, 'b) kfun" where
  "thn m n \<equiv> bnd m (\<lambda>_. n)"

definition stop :: "fault \<Rightarrow> ('s, 'a) kfun" where
  "stop e = (\<lambda>s. Inl e)"

definition rd :: "('s \<Rightarrow> 'a) \<Rightarrow> ('s, 'a) kfun" where
  "rd f = (\<lambda>s. Inr (f s, s))"

definition md :: "('s \<Rightarrow> 's) \<Rightarrow> ('s, unit) kfun" where
  "md f = (\<lambda>s. Inr ((), f s))"

text \<open>\<open>chk b e\<close> stops with \<open>e\<close> unless \<open>b\<close> holds; \<open>whn b m\<close> is an \<open>if\<close> without \<open>else\<close>.\<close>

definition chk :: "bool \<Rightarrow> fault \<Rightarrow> ('s, unit) kfun" where
  "chk b e = (if b then ret () else stop e)"

definition whn :: "bool \<Rightarrow> ('s, unit) kfun \<Rightarrow> ('s, unit) kfun" where
  "whn b m = (if b then m else ret ())"

primrec times :: "nat \<Rightarrow> ('s, 'a) kfun \<Rightarrow> ('s, 'a list) kfun" where
  "times 0 m = ret []"
| "times (Suc n) m = bnd m (\<lambda>x. bnd (times n m) (\<lambda>xs. ret (x # xs)))"

section \<open>Symbolic execution\<close>

lemma ret_apply [simp]: "ret x s = Inr (x, s)"
  by (simp add: ret_def)

lemma stop_apply [simp]: "stop e s = Inl e"
  by (simp add: stop_def)

lemma rd_apply [simp]: "rd f s = Inr (f s, s)"
  by (simp add: rd_def)

lemma md_apply [simp]: "md f s = Inr ((), f s)"
  by (simp add: md_def)

lemma chk_apply [simp]: "chk b e s = (if b then Inr ((), s) else Inl e)"
  by (simp add: chk_def)

lemma whn_True [simp]: "whn True m = m"
  by (simp add: whn_def)

lemma whn_False [simp]: "whn False m = ret ()"
  by (simp add: whn_def)

lemma bnd_Inr [simp]: "m s = Inr (x, s') \<Longrightarrow> bnd m f s = f x s'"
  by (simp add: bnd_def)

lemma bnd_Inl [simp]: "m s = Inl e \<Longrightarrow> bnd m f s = Inl e"
  by (simp add: bnd_def)

lemma bnd_ret [simp]: "bnd (ret x) f = f x"
  by (rule ext) simp

lemma bnd_ret_right [simp]: "bnd m ret = m"
  by (rule ext) (simp add: bnd_def ret_def split: sum.split)

lemma bnd_assoc: "bnd (bnd m f) g = bnd m (\<lambda>x. bnd (f x) g)"
  by (rule ext) (simp add: bnd_def split: sum.split)

lemma bnd_stop [simp]: "bnd (stop e) f = stop e"
  by (rule ext) simp

lemma bnd_eq_InrE:
  assumes "bnd m f s = Inr (y, t)"
  obtains x s' where "m s = Inr (x, s')" and "f x s' = Inr (y, t)"
  using assms by (auto simp: bnd_def split: sum.splits)

lemma bnd_eq_Inr_iff:
  "bnd m f s = Inr r \<longleftrightarrow> (\<exists>x s'. m s = Inr (x, s') \<and> f x s' = Inr r)"
  by (auto simp: bnd_def split: sum.splits)

section \<open>Correctness triples\<close>

text \<open>\<open>runs P m Q\<close>: from a state with \<open>P\<close>, \<open>m\<close> comes back (no panic, no undefined access, no
  blocking) with a value and state satisfying \<open>Q\<close>.  \<open>keeps I m\<close>: whenever \<open>m\<close> comes back, \<open>I\<close>
  still holds.\<close>

definition runs :: "('s \<Rightarrow> bool) \<Rightarrow> ('s, 'a) kfun \<Rightarrow> ('a \<Rightarrow> 's \<Rightarrow> bool) \<Rightarrow> bool" where
  "runs P m Q \<longleftrightarrow> (\<forall>s. P s \<longrightarrow> (\<exists>x s'. m s = Inr (x, s') \<and> Q x s'))"

definition keeps :: "('s \<Rightarrow> bool) \<Rightarrow> ('s, 'a) kfun \<Rightarrow> bool" where
  "keeps I m \<longleftrightarrow> (\<forall>s x s'. I s \<longrightarrow> m s = Inr (x, s') \<longrightarrow> I s')"

named_theorems keep_intros \<open>rules for proving that an operation keeps an invariant\<close>

lemma keeps_ret [keep_intros]: "keeps I (ret x)"
  by (simp add: keeps_def)

lemma keeps_stop [keep_intros]: "keeps I (stop e)"
  by (simp add: keeps_def)

lemma keeps_rd [keep_intros]: "keeps I (rd f)"
  by (simp add: keeps_def)

lemma keeps_chk [keep_intros]: "keeps I (chk b e)"
  by (simp add: keeps_def)

lemma keeps_bnd [keep_intros]:
  "keeps I m \<Longrightarrow> (\<And>x. keeps I (f x)) \<Longrightarrow> keeps I (bnd m f)"
  unfolding keeps_def by (blast elim: bnd_eq_InrE)

lemma keeps_md: "(\<And>s. I s \<Longrightarrow> I (f s)) \<Longrightarrow> keeps I (md f)"
  by (simp add: keeps_def)

lemma keeps_whn [keep_intros]: "(b \<Longrightarrow> keeps I m) \<Longrightarrow> keeps I (whn b m)"
  by (simp add: keeps_def whn_def)

lemma keeps_if [keep_intros]:
  "(b \<Longrightarrow> keeps I m) \<Longrightarrow> (\<not> b \<Longrightarrow> keeps I n) \<Longrightarrow> keeps I (if b then m else n)"
  by simp

lemma runs_bnd:
  "runs P m R \<Longrightarrow> (\<And>x. runs (R x) (f x) Q) \<Longrightarrow> runs P (bnd m f) Q"
  unfolding runs_def by (metis bnd_Inr)

lemma runs_conseq:
  "runs P m Q \<Longrightarrow> (\<And>s. P' s \<Longrightarrow> P s) \<Longrightarrow> (\<And>x s. Q x s \<Longrightarrow> Q' x s) \<Longrightarrow> runs P' m Q'"
  unfolding runs_def by blast

section \<open>Invariants and results\<close>

text \<open>\<open>gives I m Q\<close>: whenever \<open>m\<close> comes back from a state with \<open>I\<close>, the state still has \<open>I\<close> and the
  result satisfies \<open>Q\<close>.\<close>

definition gives :: "('s \<Rightarrow> bool) \<Rightarrow> ('s, 'a) kfun \<Rightarrow> ('a \<Rightarrow> bool) \<Rightarrow> bool" where
  "gives I m Q \<longleftrightarrow> (\<forall>s x s'. I s \<longrightarrow> m s = Inr (x, s') \<longrightarrow> I s' \<and> Q x)"

lemma gives_keeps: "gives I m (\<lambda>_. True) \<longleftrightarrow> keeps I m"
  by (simp add: gives_def keeps_def)

lemma gives_ret: "Q x \<Longrightarrow> gives I (ret x) Q"
  by (simp add: gives_def)

lemma gives_stop: "gives I (stop e) Q"
  by (simp add: gives_def)

lemma gives_rd: "(\<And>s. I s \<Longrightarrow> Q (f s)) \<Longrightarrow> gives I (rd f) Q"
  by (simp add: gives_def)

lemma gives_md: "(\<And>s. I s \<Longrightarrow> I (f s)) \<Longrightarrow> Q () \<Longrightarrow> gives I (md f) Q"
  by (simp add: gives_def)

lemma gives_chk: "(b \<Longrightarrow> Q ()) \<Longrightarrow> gives I (chk b e) Q"
  by (simp add: gives_def)

lemma gives_bnd: "gives I m R \<Longrightarrow> (\<And>x. R x \<Longrightarrow> gives I (f x) Q) \<Longrightarrow> gives I (bnd m f) Q"
  unfolding gives_def by (blast elim: bnd_eq_InrE)

lemma gives_whn: "(b \<Longrightarrow> gives I m Q) \<Longrightarrow> (\<not> b \<Longrightarrow> Q ()) \<Longrightarrow> gives I (whn b m) Q"
  by (simp add: gives_def whn_def)

lemma gives_if: "(b \<Longrightarrow> gives I m Q) \<Longrightarrow> (\<not> b \<Longrightarrow> gives I n Q) \<Longrightarrow> gives I (if b then m else n) Q"
  by simp

lemma gives_conseq: "gives I m R \<Longrightarrow> (\<And>x. R x \<Longrightarrow> Q x) \<Longrightarrow> gives I m Q"
  by (simp add: gives_def)

lemma givesD: "gives I m Q \<Longrightarrow> m s = Inr (x, s') \<Longrightarrow> I s \<Longrightarrow> I s' \<and> Q x"
  by (simp add: gives_def)

section \<open>Partial correctness\<close>

text \<open>\<open>leads P m Q\<close>: whenever \<open>m\<close> comes back from a state with \<open>P\<close>, its result and state satisfy \<open>Q\<close>.\<close>

definition leads :: "('s \<Rightarrow> bool) \<Rightarrow> ('s, 'a) kfun \<Rightarrow> ('a \<Rightarrow> 's \<Rightarrow> bool) \<Rightarrow> bool" where
  "leads P m Q \<longleftrightarrow> (\<forall>s x s'. P s \<longrightarrow> m s = Inr (x, s') \<longrightarrow> Q x s')"

lemma leads_keeps: "keeps I m \<longleftrightarrow> leads I m (\<lambda>_. I)"
  by (simp add: leads_def keeps_def)

lemma leads_ret: "(\<And>s. P s \<Longrightarrow> Q x s) \<Longrightarrow> leads P (ret x) Q"
  by (simp add: leads_def)

lemma leads_stop: "leads P (stop e) Q"
  by (simp add: leads_def)

lemma leads_rd: "(\<And>s. P s \<Longrightarrow> Q (f s) s) \<Longrightarrow> leads P (rd f) Q"
  by (simp add: leads_def)

lemma leads_md: "(\<And>s. P s \<Longrightarrow> Q () (f s)) \<Longrightarrow> leads P (md f) Q"
  by (simp add: leads_def)

lemma leads_bnd: "leads P m R \<Longrightarrow> (\<And>x. leads (R x) (f x) Q) \<Longrightarrow> leads P (bnd m f) Q"
  unfolding leads_def by (blast elim: bnd_eq_InrE)

lemma leads_keep_then: "keeps P m \<Longrightarrow> (\<And>x. leads P (f x) Q) \<Longrightarrow> leads P (bnd m f) Q"
  unfolding leads_keeps by (rule leads_bnd)

lemma leads_rd_then: "(\<And>x. leads (\<lambda>s. P s \<and> x = f s) (g x) Q) \<Longrightarrow> leads P (bnd (rd f) g) Q"
  by (simp add: leads_def)

lemma leads_if: "(b \<Longrightarrow> leads P m Q) \<Longrightarrow> (\<not> b \<Longrightarrow> leads P n Q) \<Longrightarrow> leads P (if b then m else n) Q"
  by simp

lemma leads_conseq: "leads P m Q \<Longrightarrow> (\<And>s. P' s \<Longrightarrow> P s) \<Longrightarrow> (\<And>x s. Q x s \<Longrightarrow> Q' x s) \<Longrightarrow> leads P' m Q'"
  unfolding leads_def by blast

lemma leads_pre: "leads P m Q \<Longrightarrow> (\<And>s. P' s \<Longrightarrow> P s) \<Longrightarrow> leads P' m Q"
  by (rule leads_conseq)

lemma keeps_conj: "keeps P m \<Longrightarrow> keeps (\<lambda>s. b \<and> P s) m"
  unfolding keeps_def by blast

lemma leads_option:
  "(v = None \<Longrightarrow> leads P n Q) \<Longrightarrow> (\<And>x. v = Some x \<Longrightarrow> leads P (f x) Q) \<Longrightarrow> leads P (case_option n f v) Q"
  by (cases v) auto

lemma leads_const: "(b \<Longrightarrow> leads P m Q) \<Longrightarrow> leads (\<lambda>s. b \<and> P s) m Q"
  unfolding leads_def by blast

lemma leads_then_keeps: "leads P m (\<lambda>_. I) \<Longrightarrow> (\<And>x. keeps I (f x)) \<Longrightarrow> leads P (bnd m f) (\<lambda>_. I)"
  unfolding leads_keeps by (rule leads_bnd)

end
