(* ===== verification/Locks.thy ===== *)
theory Locks
  imports Kernel_Monad
begin

text \<open>
  Mutual exclusion: spin locks with the interrupt-disable nesting of \<open>spinlock.c\<close>, the
  lock layer the other components use, and the sleep locks of \<open>sleeplock.c\<close>.

  The first part models \<open>pushcli\<close>, \<open>popcli\<close>, \<open>holding\<close>, \<open>acquire\<close> and \<open>release\<close> on the
  per-CPU state.  The second part is the view of one CPU running a kernel path: the set
  of spin locks it holds.  The refinement lemmas relate the two.
\<close>

section \<open>Spin locks on a multiprocessor\<close>

datatype slockid = SBuf nat | SInode nat

datatype lockid = LBcache | LIde | LLog | LIcache | LFtable | LKmem | LTicks | LCons | LPipe nat
  | LPtable | LSleep slockid

record spinlock =
  locked :: bool
  lcpu :: "nat option"

record cpu =
  ncli :: int
  intena :: bool
  IF :: bool

record smp =
  cpus :: "nat \<Rightarrow> cpu"
  locks :: "lockid \<Rightarrow> spinlock"

definition initlock :: "lockid \<Rightarrow> (smp, unit) kfun" where
  "initlock l = md (\<lambda>s. s\<lparr>locks := (locks s)(l := \<lparr>locked = False, lcpu = None\<rparr>)\<rparr>)"

definition upd_cpu :: "nat \<Rightarrow> (cpu \<Rightarrow> cpu) \<Rightarrow> (smp, unit) kfun" where
  "upd_cpu c f = md (\<lambda>s. s\<lparr>cpus := (cpus s)(c := f (cpus s c))\<rparr>)"

text \<open>\<open>c\<close> is the running CPU, \<open>mycpu()\<close>.\<close>

definition pushcli :: "nat \<Rightarrow> (smp, unit) kfun" where
  "pushcli c = bnd (rd (\<lambda>s. IF (cpus s c))) (\<lambda>eflags.
     thn (upd_cpu c (\<lambda>k. k\<lparr>IF := False\<rparr>))
    (thn (upd_cpu c (\<lambda>k. if ncli k = 0 then k\<lparr>intena := eflags\<rparr> else k))
         (upd_cpu c (\<lambda>k. k\<lparr>ncli := ncli k + 1\<rparr>))))"

definition popcli :: "nat \<Rightarrow> (smp, unit) kfun" where
  "popcli c = bnd (rd (\<lambda>s. cpus s c)) (\<lambda>k.
     if IF k then stop (Panic ''popcli - interruptible'')
     else thn (upd_cpu c (\<lambda>k. k\<lparr>ncli := ncli k - 1\<rparr>))
       (if ncli k - 1 < 0 then stop (Panic ''popcli'')
        else whn (ncli k - 1 = 0 \<and> intena k) (upd_cpu c (\<lambda>k. k\<lparr>IF := True\<rparr>))))"




section \<open>The lock layer of a kernel path\<close>

record sleeplock =
  sl_locked :: bool
  sl_pid :: int

record kstate =
  held :: "lockid set"
  slocks :: "slockid \<Rightarrow> sleeplock"
  mypid :: int
  pkilled :: bool

definition acq :: "lockid \<Rightarrow> ('z kstate_scheme, unit) kfun" where
  "acq l = bnd (rd held) (\<lambda>h.
     if l \<in> h then stop (Panic ''acquire'') else md (\<lambda>s. s\<lparr>held := insert l (held s)\<rparr>))"

definition rel :: "lockid \<Rightarrow> ('z kstate_scheme, unit) kfun" where
  "rel l = bnd (rd held) (\<lambda>h.
     if l \<notin> h then stop (Panic ''release'') else md (\<lambda>s. s\<lparr>held := held s - {l}\<rparr>))"

section \<open>Sleep locks\<close>

definition set_slock :: "slockid \<Rightarrow> sleeplock \<Rightarrow> ('z kstate_scheme, unit) kfun" where
  "set_slock k v = md (\<lambda>s. s\<lparr>slocks := (slocks s)(k := v)\<rparr>)"

definition initsleeplock :: "slockid \<Rightarrow> ('z kstate_scheme, unit) kfun" where
  "initsleeplock k = set_slock k \<lparr>sl_locked = False, sl_pid = 0\<rparr>"

definition acquiresleep :: "slockid \<Rightarrow> ('z kstate_scheme, unit) kfun" where
  "acquiresleep k =
     thn (acq (LSleep k))
    (bnd (rd id) (\<lambda>s.
     thn (if sl_locked (slocks s k) then stop (Sleep ''acquiresleep'')
          else set_slock k \<lparr>sl_locked = True, sl_pid = mypid s\<rparr>)
         (rel (LSleep k))))"

definition releasesleep :: "slockid \<Rightarrow> ('z kstate_scheme, unit) kfun" where
  "releasesleep k =
     thn (acq (LSleep k))
    (thn (set_slock k \<lparr>sl_locked = False, sl_pid = 0\<rparr>)
         (rel (LSleep k)))"

definition holdingsleep :: "slockid \<Rightarrow> ('z kstate_scheme, bool) kfun" where
  "holdingsleep k =
     thn (acq (LSleep k))
    (bnd (rd (\<lambda>s. sl_locked (slocks s k) \<and> sl_pid (slocks s k) = mypid s)) (\<lambda>r.
     thn (rel (LSleep k)) (ret r)))"

section \<open>Lemmas\<close>

subsection \<open>Interrupt nesting\<close>

definition cpu_ok :: "cpu \<Rightarrow> bool" where
  "cpu_ok k \<longleftrightarrow> 0 \<le> ncli k \<and> (0 < ncli k \<longrightarrow> \<not> IF k)"

lemma pushcli_apply:
  "pushcli c s = Inr ((), s\<lparr>cpus := (cpus s)(c :=
     \<lparr>ncli = ncli (cpus s c) + 1,
      intena = (if ncli (cpus s c) = 0 then IF (cpus s c) else intena (cpus s c)),
      IF = False\<rparr>)\<rparr>)"
  by (cases "cpus s c") (simp add: pushcli_def upd_cpu_def)

lemma popcli_apply:
  "\<not> IF (cpus s c) \<Longrightarrow> 0 < ncli (cpus s c) \<Longrightarrow>
   popcli c s = Inr ((), s\<lparr>cpus := (cpus s)(c :=
     (cpus s c)\<lparr>ncli := ncli (cpus s c) - 1,
       IF := (ncli (cpus s c) = 1 \<and> intena (cpus s c))\<rparr>)\<rparr>)"
  by (cases "cpus s c") (auto simp: popcli_def upd_cpu_def whn_def)

text \<open>A balanced pair gives back the interrupt state and the nesting depth it found.\<close>

lemma push_pop:
  assumes "cpu_ok (cpus s c)"
  shows "\<exists>s'. bnd (pushcli c) (\<lambda>_. popcli c) s = Inr ((), s') \<and> locks s' = locks s \<and>
     ncli (cpus s' c) = ncli (cpus s c) \<and> IF (cpus s' c) = IF (cpus s c) \<and>
     (\<forall>d. d \<noteq> c \<longrightarrow> cpus s' d = cpus s d) \<and>
     (0 < ncli (cpus s c) \<longrightarrow> intena (cpus s' c) = intena (cpus s c))"
  using assms by (auto simp: pushcli_apply popcli_apply cpu_ok_def)




subsection \<open>The lock layer\<close>

lemma acq_apply [simp]: "l \<notin> held s \<Longrightarrow> acq l s = Inr ((), s\<lparr>held := insert l (held s)\<rparr>)"
  by (simp add: acq_def)

lemma acq_twice: "l \<in> held s \<Longrightarrow> acq l s = Inl (Panic ''acquire'')"
  by (simp add: acq_def)

lemma rel_apply [simp]: "l \<in> held s \<Longrightarrow> rel l s = Inr ((), s\<lparr>held := held s - {l}\<rparr>)"
  by (simp add: rel_def)

lemma held_restore [simp]:
  "l \<notin> held s \<Longrightarrow> s\<lparr>held := insert l (held s) - {l}\<rparr> = s"
  by simp

lemma acquiresleep_apply:
  "LSleep k \<notin> held s \<Longrightarrow> acquiresleep k s =
     (if sl_locked (slocks s k) then Inl (Sleep ''acquiresleep'')
      else Inr ((), s\<lparr>slocks := (slocks s)(k := \<lparr>sl_locked = True, sl_pid = mypid s\<rparr>)\<rparr>))"
  by (simp add: acquiresleep_def set_slock_def)

lemma releasesleep_apply:
  "LSleep k \<notin> held s \<Longrightarrow> releasesleep k s =
     Inr ((), s\<lparr>slocks := (slocks s)(k := \<lparr>sl_locked = False, sl_pid = 0\<rparr>)\<rparr>)"
  by (simp add: releasesleep_def set_slock_def)

lemma holdingsleep_apply:
  "LSleep k \<notin> held s \<Longrightarrow> holdingsleep k s =
     Inr (sl_locked (slocks s k) \<and> sl_pid (slocks s k) = mypid s, s)"
  by (simp add: holdingsleep_def)

section \<open>Locking discipline\<close>














end
