(* ===== verification/Kalloc.thy ===== *)
theory Kalloc
  imports Locks
begin

text \<open>
  The physical page allocator (\<open>kalloc.c\<close>).  The free list is threaded through the free
  pages themselves: the first word of a free page is the address of the next one.
  \<open>kend\<close> is the address the linker gives to \<open>end\<close>.
\<close>

abbreviation PGSIZE :: nat where "PGSIZE \<equiv> 4096"
abbreviation KERNBASE :: nat where "KERNBASE \<equiv> 0x80000000"
abbreviation PHYSTOP :: nat where "PHYSTOP \<equiv> 0xE000000"

record kmst = kstate +
  kend :: nat
  kuse_lock :: bool
  kfreelist :: nat
  pages :: "nat \<Rightarrow> bytes"

section \<open>Definitions\<close>

text \<open>Kernel virtual and physical addresses.\<close>

definition V2P :: "nat \<Rightarrow> ('s, nat) kfun" where
  "V2P a = (if a < KERNBASE then stop (Panic (''V2P on address < KERNBASE '' @
       ''(not a kernel virtual address; consider walking page '' @
       ''table to determine physical address of a user virtual address)''))
     else ret (a - KERNBASE))"

definition P2V :: "nat \<Rightarrow> ('s, nat) kfun" where
  "P2V a = (if KERNBASE < a then stop (Panic ''P2V on address > KERNBASE'')
     else ret ((a + KERNBASE) mod 2 ^ 32))"

definition PGROUNDUP :: "nat \<Rightarrow> nat" where
  "PGROUNDUP a = ((a + PGSIZE - 1) mod 2 ^ 32) div PGSIZE * PGSIZE"

definition kfree :: "nat \<Rightarrow> ('z kmst_scheme, unit) kfun" where
  "kfree v = bnd (rd id) (\<lambda>s.
     if v mod PGSIZE \<noteq> 0 \<or> v < kend s then stop (Panic ''kfree'')
     else bnd (V2P v) (\<lambda>pa. if PHYSTOP \<le> pa then stop (Panic ''kfree'')
     else
       thn (md (\<lambda>s. s\<lparr>pages := (pages s)(v := replicate PGSIZE 1)\<rparr>))
      (thn (whn (kuse_lock s) (acq LKmem))
      (thn (md (\<lambda>s. s\<lparr>pages := (pages s)(v := patch (pages s v) 0 (put32 (word_of_nat (kfreelist s)))),
             kfreelist := v\<rparr>))
           (whn (kuse_lock s) (rel LKmem))))))"

definition kalloc :: "('z kmst_scheme, nat) kfun" where
  "kalloc = bnd (rd kuse_lock) (\<lambda>u.
     thn (whn u (acq LKmem))
    (bnd (rd kfreelist) (\<lambda>r.
     thn (whn (r \<noteq> 0) (md (\<lambda>s. s\<lparr>kfreelist := unat (get32 (slice 0 4 (pages s r)))\<rparr>)))
    (thn (whn u (rel LKmem))
         (ret r)))))"

function freerange_loop :: "nat \<Rightarrow> nat \<Rightarrow> ('z kmst_scheme, unit) kfun" where
  "freerange_loop p vend =
     (if p + PGSIZE \<le> vend then thn (kfree p) (freerange_loop (p + PGSIZE) vend) else ret ())"
  by auto
termination by (relation "measure (\<lambda>(p, vend). vend - p)") auto

declare freerange_loop.simps [simp del]

definition freerange :: "nat \<Rightarrow> nat \<Rightarrow> ('z kmst_scheme, unit) kfun" where
  "freerange vstart vend =
     (if vend < vstart then stop (Panic ''freerange'')
      else freerange_loop (PGROUNDUP vstart) vend)"

definition kinit1 :: "nat \<Rightarrow> nat \<Rightarrow> ('z kmst_scheme, unit) kfun" where
  "kinit1 vstart vend = thn (md (\<lambda>s. s\<lparr>kuse_lock := False\<rparr>)) (freerange vstart vend)"

definition kinit2 :: "nat \<Rightarrow> nat \<Rightarrow> ('z kmst_scheme, unit) kfun" where
  "kinit2 vstart vend = thn (freerange vstart vend) (md (\<lambda>s. s\<lparr>kuse_lock := True\<rparr>))"

section \<open>The free list\<close>

text \<open>\<open>chain pg a ps\<close>: following the first words of pages from \<open>a\<close> visits exactly \<open>ps\<close>.\<close>

fun chain :: "(nat \<Rightarrow> bytes) \<Rightarrow> nat \<Rightarrow> nat list \<Rightarrow> bool" where
  "chain pg a [] \<longleftrightarrow> a = 0"
| "chain pg a (p # ps) \<longleftrightarrow> a = p \<and> p \<noteq> 0 \<and> chain pg (unat (get32 (slice 0 4 (pg p)))) ps"

definition page_ok :: "'z kmst_scheme \<Rightarrow> nat \<Rightarrow> bool" where
  "page_ok s v \<longleftrightarrow> v mod PGSIZE = 0 \<and> kend s \<le> v \<and> KERNBASE \<le> v \<and> v < KERNBASE + PHYSTOP"

text \<open>The allocator may be called with the lock of the process table held, as \<open>wait\<close> does.\<close>

definition free_pages :: "'z kmst_scheme \<Rightarrow> nat list \<Rightarrow> bool" where
  "free_pages s ps \<longleftrightarrow> chain (pages s) (kfreelist s) ps \<and> distinct ps \<and> (\<forall>p \<in> set ps. page_ok s p) \<and>
     kfreelist s < 2 ^ 32 \<and> held s \<subseteq> {LPtable}"

lemma chain_upd: "v \<notin> set ps \<Longrightarrow> chain (pg(v := x)) a ps = chain pg a ps"
  by (induction pg a ps rule: chain.induct) auto

lemma chain_unique: "chain pg a ps \<Longrightarrow> chain pg a qs \<Longrightarrow> ps = qs"
proof (induction pg a ps arbitrary: qs rule: chain.induct)
  case (1 pg a)
  then show ?case by (cases qs) auto
next
  case (2 pg a p ps)
  then show ?case by (cases qs) auto
qed

lemma kfree_spec:
  assumes "free_pages s ps" "page_ok s v" "v \<notin> set ps"
  shows "\<exists>s'. kfree v s = Inr ((), s') \<and> free_pages s' (v # ps) \<and> kend s' = kend s \<and>
     (\<forall>q. q \<noteq> v \<longrightarrow> pages s' q = pages s q) \<and> length (pages s' v) = PGSIZE"
proof -
  let ?w = "word_of_nat (kfreelist s) :: u32"
  let ?s' = "s\<lparr>pages := (pages s)(v := patch (replicate PGSIZE 1) 0 (put32 ?w)), kfreelist := v\<rparr>"
  have h: "LKmem \<notin> held s" "held s - {LKmem} = held s" and fl: "kfreelist s < 2 ^ 32"
    using assms(1) by (auto simp: free_pages_def)
  have "\<not> PHYSTOP \<le> v - KERNBASE" using assms(2) by (auto simp: page_ok_def)
  then have "kfree v s = Inr ((), ?s')"
    using assms(2) h by (cases s; cases "kuse_lock s") (simp_all add: kfree_def page_ok_def V2P_def)
  moreover have "free_pages ?s' (v # ps)"
    using assms fl by (simp add: free_pages_def chain_upd page_ok_def unat_of_nat)
  ultimately show ?thesis by auto
qed

lemma kalloc_spec:
  assumes "free_pages s ps"
  shows "\<exists>s'. kalloc s = Inr (case ps of [] \<Rightarrow> 0 | p # _ \<Rightarrow> p, s') \<and> free_pages s' (tl ps) \<and>
     pages s' = pages s \<and> kend s' = kend s"
proof -
  have h: "LKmem \<notin> held s" "held s - {LKmem} = held s" using assms by (auto simp: free_pages_def)
  show ?thesis
  proof (cases ps)
    case Nil
    then have "kfreelist s = 0" using assms by (simp add: free_pages_def)
    then have "kalloc s = Inr (0, s)"
      using h by (cases s; cases "kuse_lock s") (simp_all add: kalloc_def)
    then show ?thesis using assms Nil by auto
  next
    case (Cons p qs)
    then have p: "kfreelist s = p" "p \<noteq> 0" using assms by (simp_all add: free_pages_def)
    let ?n = "unat (get32 (slice 0 4 (pages s p)))"
    have "kalloc s = Inr (p, s\<lparr>kfreelist := ?n\<rparr>)"
      using h p by (cases s; cases "kuse_lock s") (simp_all add: kalloc_def)
    moreover have "?n < 2 ^ 32" using unsigned_less [where ?'a = nat, of "get32 (slice 0 4 (pages s p))"] by simp
    then have "free_pages (s\<lparr>kfreelist := ?n\<rparr>) qs"
      using assms Cons by (auto simp: free_pages_def page_ok_def)
    ultimately show ?thesis using Cons by auto
  qed
qed

section \<open>The allocator as an interface\<close>

text \<open>What the clients of the allocator rely on: \<open>avail\<close> are the free pages, \<open>ok\<close> the pages that
  may be given back.\<close>

locale page_alloc =
  fixes avail :: "'s \<Rightarrow> nat list \<Rightarrow> bool" and ok :: "'s \<Rightarrow> nat \<Rightarrow> bool"
    and alloc :: "('s, nat) kfun" and free :: "nat \<Rightarrow> ('s, unit) kfun"
  assumes alloc: "avail s ps \<Longrightarrow> \<exists>s'. alloc s = Inr (case ps of [] \<Rightarrow> 0 | p # _ \<Rightarrow> p, s') \<and>
      avail s' (tl ps) \<and> ok s' = ok s"
    and free: "avail s ps \<Longrightarrow> ok s v \<Longrightarrow> v \<notin> set ps \<Longrightarrow>
      \<exists>s'. free v s = Inr ((), s') \<and> avail s' (v # ps) \<and> ok s' = ok s"
    and avail: "avail s ps \<Longrightarrow> distinct ps \<and> 0 \<notin> set ps \<and> (\<forall>p \<in> set ps. ok s p)"
begin

lemma alloc_times:
  "avail s ps \<Longrightarrow> \<exists>s'. times n alloc s = Inr (take n ps @ replicate (n - length ps) 0, s') \<and>
     avail s' (drop n ps) \<and> ok s' = ok s"
proof (induction n arbitrary: s ps)
  case (Suc n)
  obtain s1 where s1: "alloc s = Inr (case ps of [] \<Rightarrow> 0 | p # _ \<Rightarrow> p, s1)" "avail s1 (tl ps)" "ok s1 = ok s"
    using alloc [OF Suc.prems] by blast
  from Suc.IH [OF s1(2)] s1 show ?case by (cases ps) auto
qed simp

lemma alloc_free:
  assumes "avail s (p # ps)"
  shows "\<exists>s'. bnd alloc free s = Inr ((), s') \<and> avail s' (p # ps)"
proof -
  obtain s1 where s1: "alloc s = Inr (p, s1)" "avail s1 ps" "ok s1 = ok s"
    using alloc [OF assms] by auto
  moreover have "ok s1 p" "p \<notin> set ps" using avail [OF assms] s1 by auto
  ultimately show ?thesis using free [OF s1(2)] by fastforce
qed

lemma free_alloc:
  assumes "avail s ps" "ok s v" "v \<notin> set ps"
  shows "\<exists>s'. thn (free v) alloc s = Inr (v, s') \<and> avail s' ps"
proof -
  obtain s1 where s1: "free v s = Inr ((), s1)" "avail s1 (v # ps)" using free [OF assms] by blast
  then show ?thesis using alloc [OF s1(2)] by auto
qed

end

interpretation ka: page_alloc free_pages page_ok kalloc kfree
proof unfold_locales
  fix s :: "'a kmst_scheme" and ps :: "nat list" and v :: nat
  have ok: "page_ok s' = page_ok s" if "kend s' = kend s" for s' :: "'a kmst_scheme"
    using that by (simp add: page_ok_def fun_eq_iff)
  show "\<exists>s'. kalloc s = Inr (case ps of [] \<Rightarrow> 0 | p # _ \<Rightarrow> p, s') \<and> free_pages s' (tl ps) \<and>
      page_ok s' = page_ok s" if "free_pages s ps"
    using kalloc_spec [OF that] ok by blast
  show "\<exists>s'. kfree v s = Inr ((), s') \<and> free_pages s' (v # ps) \<and> page_ok s' = page_ok s"
    if "free_pages s ps" "page_ok s v" "v \<notin> set ps"
    using kfree_spec [OF that] ok by blast
  show "distinct ps \<and> 0 \<notin> set ps \<and> (\<forall>p \<in> set ps. page_ok s p)" if "free_pages s ps"
    using that by (auto simp: free_pages_def page_ok_def)
qed

section \<open>Filling the free list\<close>

text \<open>The pages between two addresses, lowest first.\<close>

definition pages_between :: "nat \<Rightarrow> nat \<Rightarrow> nat list" where
  "pages_between p vend = map (\<lambda>i. p + i * PGSIZE) [0..<(vend - p) div PGSIZE]"

lemma pages_between_simps:
  "pages_between p vend = (if p + PGSIZE \<le> vend then p # pages_between (p + PGSIZE) vend else [])"
proof (cases "p + PGSIZE \<le> vend")
  case True
  define k where "k = (vend - (p + PGSIZE)) div PGSIZE"
  have k: "(vend - p) div PGSIZE = Suc k"
    using True le_div_geq [of PGSIZE "vend - p"] by (simp add: k_def)
  have "map (\<lambda>i. p + i * PGSIZE) [0..<Suc k] = p # map (\<lambda>i. p + PGSIZE + i * PGSIZE) [0..<k]"
    by (simp add: upt_conv_Cons map_Suc_upt [symmetric] del: upt_Suc map_Suc_upt)
  then show ?thesis using True k by (simp add: pages_between_def k_def)
qed (simp add: pages_between_def)

lemma pages_between_ge: "q \<in> set (pages_between p vend) \<Longrightarrow> p \<le> q"
  by (auto simp: pages_between_def)

lemma freerange_loop_spec:
  assumes "free_pages s ps" "\<forall>q \<in> set (pages_between p vend). page_ok s q \<and> q \<notin> set ps"
  shows "\<exists>s'. freerange_loop p vend s = Inr ((), s') \<and>
     free_pages s' (rev (pages_between p vend) @ ps) \<and> page_ok s' = page_ok s"
  using assms
proof (induction p vend arbitrary: s ps rule: freerange_loop.induct)
  case (1 p vend)
  show ?case
  proof (cases "p + PGSIZE \<le> vend")
    case True
    then have eq: "pages_between p vend = p # pages_between (p + PGSIZE) vend"
      using pages_between_simps by simp
    obtain s1 where s1: "kfree p s = Inr ((), s1)" "free_pages s1 (p # ps)" "page_ok s1 = page_ok s"
      using ka.free [OF "1.prems"(1), of p] "1.prems"(2) eq by auto
    have "p \<notin> set (pages_between (p + PGSIZE) vend)" using pages_between_ge by fastforce
    then obtain s2 where "freerange_loop (p + PGSIZE) vend s1 = Inr ((), s2)"
      "free_pages s2 (rev (pages_between (p + PGSIZE) vend) @ p # ps)" "page_ok s2 = page_ok s1"
      using "1.IH" [OF True s1(2)] "1.prems"(2) eq s1(3) by (metis list.set_intros(2) set_ConsD)
    with s1 True eq show ?thesis by (subst freerange_loop.simps) auto
  next
    case False
    then show ?thesis using "1.prems"(1) pages_between_simps [of p vend]
      by (subst freerange_loop.simps) auto
  qed
qed

section \<open>Properties\<close>

text \<open>C14: The allocator hands out every page exactly once.  After \<open>freerange\<close> on an empty free
  list, \<open>kalloc\<close> returns each whole page between \<open>PGROUNDUP(vstart)\<close> and \<open>vend\<close>, no page
  twice, and then null.\<close>

theorem freerange_kalloc:
  assumes "free_pages s []" "vstart \<le> vend"
    and "\<forall>q \<in> set (pages_between (PGROUNDUP vstart) vend). page_ok s q"
  shows "\<exists>s' s''. freerange vstart vend s = Inr ((), s') \<and>
     times (Suc (length (pages_between (PGROUNDUP vstart) vend))) kalloc s'
       = Inr (rev (pages_between (PGROUNDUP vstart) vend) @ [0], s'') \<and>
     distinct (pages_between (PGROUNDUP vstart) vend) \<and> free_pages s'' []"
proof -
  let ?P = "pages_between (PGROUNDUP vstart) vend"
  obtain s' where s': "freerange vstart vend s = Inr ((), s')" "free_pages s' (rev ?P)"
    using freerange_loop_spec [OF assms(1)] assms(2,3) by (force simp: freerange_def)
  moreover have "distinct ?P" by (simp add: pages_between_def distinct_map inj_on_def)
  ultimately show ?thesis
    using ka.alloc_times [OF s'(2), of "Suc (length ?P)"] by (fastforce simp: less_Suc_eq_le)
qed

definition sample_kmem :: kmst where
  "sample_kmem = \<lparr>held = {}, slocks = (\<lambda>_. \<lparr>sl_locked = False, sl_pid = 0\<rparr>), mypid = 0, pkilled = False,
     kend = 0x80100000, kuse_lock = False, kfreelist = 0, pages = (\<lambda>_. [])\<rparr>"

theorem freerange_kalloc_witness:
  "\<exists>s' s''. freerange 0x80100010 0x80103800 sample_kmem = Inr ((), s') \<and>
     times 3 kalloc s' = Inr ([0x80102000, 0x80101000, 0], s'')"
proof -
  have P: "pages_between (PGROUNDUP 0x80100010) 0x80103800 = [0x80101000, 0x80102000]"
    by (simp add: pages_between_def PGROUNDUP_def upt_rec)
  have "free_pages sample_kmem []" by (simp add: free_pages_def sample_kmem_def)
  moreover have "\<forall>q \<in> set (pages_between (PGROUNDUP 0x80100010) 0x80103800). page_ok sample_kmem q"
    unfolding P by (simp add: page_ok_def sample_kmem_def)
  ultimately show ?thesis
    using freerange_kalloc [of sample_kmem "0x80100010" "0x80103800"]
    unfolding P by (simp add: numeral_3_eq_3 del: times.simps) blast
qed

end
