(* ===== verification/Ring.thy ===== *)
theory Ring
  imports Prelude
begin

text \<open>
  Ring buffers indexed by free-running 32-bit counters, as pipes and the console input use
  them: the cell of counter value \<open>a\<close> is \<open>a\<close> modulo the ring size, which divides \<open>2 ^ 32\<close>.
\<close>

lemma mod_add_inj:
  assumes "i < n" "j < n"
  shows "(a + i) mod n = (a + j) mod n \<longleftrightarrow> i = (j :: nat)"
proof -
  have le: "i = j" if "i \<le> j" "j < n" "(a + i) mod n = (a + j) mod n" for i j
  proof -
    have "n dvd j - i" using that mod_eq_dvd_iff_nat [of "a + i" "a + j" n] by simp
    then show ?thesis using that nat_dvd_not_less [of "j - i" n] by (cases "i = j") auto
  qed
  show ?thesis using le [of i j] le [of j i] assms by (cases "i \<le> j") auto
qed

lemma ring_pos:
  assumes "n dvd 2 ^ 32"
  shows "unat (a + of_nat i :: u32) mod n = (unat a + i) mod n"
proof -
  have "unat (a + of_nat i :: u32) = (unat a + i mod 2 ^ 32) mod 2 ^ 32"
    by (simp only: unat_word_ariths unat_of_nat) simp
  also have "\<dots> = (unat a + i) mod 2 ^ 32" by (rule mod_add_right_eq)
  finally have "unat (a + of_nat i :: u32) mod n = (unat a + i) mod 2 ^ 32 mod n" by simp
  also have "\<dots> = (unat a + i) mod n" by (rule mod_mod_cancel [OF assms])
  finally show ?thesis .
qed

text \<open>The \<open>k\<close> cells from counter value \<open>a\<close> on.\<close>

definition seg :: "'a list \<Rightarrow> u32 \<Rightarrow> nat \<Rightarrow> 'a list" where
  "seg buf a k = map (\<lambda>i. buf ! (unat (a + of_nat i) mod length buf)) [0..<k]"

lemma length_seg [simp]: "length (seg buf a k) = k"
  by (simp add: seg_def)

lemma seg_0 [simp]: "seg buf a 0 = []"
  by (simp add: seg_def)

lemma seg_Suc: "seg buf a (Suc k) = seg buf a k @ [buf ! (unat (a + of_nat k) mod length buf)]"
  by (simp add: seg_def)

lemma seg_Cons: "seg buf a (Suc k) = buf ! (unat a mod length buf) # seg buf (a + 1) k"
proof -
  have "map (\<lambda>i. buf ! (unat (a + of_nat i) mod length buf)) [0..<Suc k]
      = buf ! (unat a mod length buf) # map (\<lambda>i. buf ! (unat (a + of_nat (Suc i)) mod length buf)) [0..<k]"
    by (simp add: upt_conv_Cons map_Suc_upt [symmetric] del: upt_Suc map_Suc_upt of_nat_Suc)
  moreover have "a + of_nat (Suc i) = a + 1 + of_nat i" for i by simp
  ultimately show ?thesis by (simp only: seg_def)
qed

lemma seg_add: "seg buf a (j + k) = seg buf a j @ seg buf (a + of_nat j) k"
  by (induction k) (simp_all add: seg_Suc add.assoc)

lemma seg_update:
  assumes "length buf dvd 2 ^ 32" "k < length buf"
  shows "seg (buf[unat (a + of_nat k) mod length buf := x]) a k = seg buf a k"
proof -
  have "buf[unat (a + of_nat k) mod length buf := x] ! (unat (a + of_nat i) mod length buf)
      = buf ! (unat (a + of_nat i) mod length buf)" if "i < k" for i
    using that assms mod_add_inj [of i "length buf" k "unat a"] by (simp add: ring_pos)
  then show ?thesis by (simp add: seg_def)
qed

text \<open>Storing at the end of a segment that does not fill the ring.\<close>

lemma seg_store:
  assumes "length buf dvd 2 ^ 32" "k < length buf"
  shows "seg (buf[unat (a + of_nat k) mod length buf := x]) a (Suc k) = seg buf a k @ [x]"
proof -
  have "unat (a + of_nat k) mod length buf < length buf" using assms(2) by (intro mod_less_divisor) linarith
  then show ?thesis using seg_update [OF assms, of a x] by (simp add: seg_Suc)
qed

text \<open>Distances between counters.\<close>

lemma unat_Suc_dist: "unat (e - a :: u32) < 2 ^ 31 \<Longrightarrow> unat (e + 1 - a) = Suc (unat (e - a))"
proof -
  assume "unat (e - a) < 2 ^ 31"
  then have "unat ((e - a) + 1) = Suc (unat (e - a))" by (simp add: unat_word_ariths)
  moreover have "e + 1 - a = (e - a) + 1" by simp
  ultimately show ?thesis by metis
qed

lemma unat_pred_dist: "e \<noteq> (a :: u32) \<Longrightarrow> unat (e - 1 - a) = unat (e - a) - 1 \<and> 0 < unat (e - a)"
proof -
  assume "e \<noteq> a"
  then have "e - a \<noteq> 0" by simp
  moreover have "e - 1 - a = (e - a) - 1" by simp
  ultimately show ?thesis by (metis unat_minus_one unat_gt_0)
qed

lemma unat_pred_less: "e \<noteq> (a :: u32) \<Longrightarrow> unat (e - 1 - a) < unat (e - a)"
  using unat_pred_dist [of e a] by linarith

lemma counter_dist: "e = a + of_nat (unat (e - a :: u32))"
  by simp

end
