(* ===== verification/Pipe.thy ===== *)
theory Pipe
  imports Kalloc Ring
begin

text \<open>
  Pipes (\<open>pipe.c\<close>): a ring of 512 bytes with free-running 32-bit counters.  A pipe lives in a
  page of the allocator; the field \<open>pipes\<close> gives the typed contents of the pages in use as
  pipes.  \<open>pipealloc\<close>, which also allocates the two files, is in theory File.  \<open>wakeup\<close> only
  changes the state of other processes and has no counterpart here.
\<close>

abbreviation PIPESIZE :: nat where "PIPESIZE \<equiv> 512"

record pipe =
  p_data :: bytes
  nread :: u32
  nwrite :: u32
  readopen :: bool
  writeopen :: bool

record pipest = kmst +
  pipes :: "nat \<Rightarrow> pipe option"

section \<open>Definitions\<close>

definition pipe_full :: "pipe \<Rightarrow> bool" where
  "pipe_full p \<longleftrightarrow> nwrite p = nread p + of_nat PIPESIZE"

definition pipe_empty :: "pipe \<Rightarrow> bool" where
  "pipe_empty p \<longleftrightarrow> nread p = nwrite p"

definition pipe_put :: "byte \<Rightarrow> pipe \<Rightarrow> pipe" where
  "pipe_put b p = p\<lparr>p_data := (p_data p)[unat (nwrite p) mod PIPESIZE := b], nwrite := nwrite p + 1\<rparr>"

definition pipe_get :: "pipe \<Rightarrow> byte \<times> pipe" where
  "pipe_get p = (p_data p ! (unat (nread p) mod PIPESIZE), p\<lparr>nread := nread p + 1\<rparr>)"

text \<open>Access through a pointer to a pipe; a pointer to a pipe already freed is dangling.\<close>

definition get_pipe :: "nat \<Rightarrow> ('z pipest_scheme, pipe) kfun" where
  "get_pipe a = bnd (rd (\<lambda>s. pipes s a)) (\<lambda>r. case r of None \<Rightarrow> stop (UB ''pipe'') | Some p \<Rightarrow> ret p)"

definition set_pipe :: "nat \<Rightarrow> pipe \<Rightarrow> ('z pipest_scheme, unit) kfun" where
  "set_pipe a p = md (\<lambda>s. s\<lparr>pipes := (pipes s)(a := Some p)\<rparr>)"

definition pipeclose :: "nat \<Rightarrow> bool \<Rightarrow> ('z pipest_scheme, unit) kfun" where
  "pipeclose a writable =
     bnd (get_pipe a) (\<lambda>p.
     thn (acq (LPipe a))
    (let p' = (if writable then p\<lparr>writeopen := False\<rparr> else p\<lparr>readopen := False\<rparr>) in
     thn (set_pipe a p')
    (if \<not> readopen p' \<and> \<not> writeopen p'
     then thn (rel (LPipe a)) (thn (kfree a) (md (\<lambda>s. s\<lparr>pipes := (pipes s)(a := None)\<rparr>)))
     else rel (LPipe a))))"

text \<open>The loop of \<open>pipewrite\<close>; the result says whether all bytes were written.\<close>

primrec pipewrite_loop :: "nat \<Rightarrow> bytes \<Rightarrow> ('z pipest_scheme, bool) kfun" where
  "pipewrite_loop a [] = ret True"
| "pipewrite_loop a (b # bs) =
     bnd (get_pipe a) (\<lambda>p.
     bnd (rd pkilled) (\<lambda>k.
     if pipe_full p then (if \<not> readopen p \<or> k then ret False else stop (Sleep ''pipewrite''))
     else thn (set_pipe a (pipe_put b p)) (pipewrite_loop a bs)))"

definition pipewrite :: "nat \<Rightarrow> bytes \<Rightarrow> int \<Rightarrow> ('z pipest_scheme, int) kfun" where
  "pipewrite a addr n =
     thn (acq (LPipe a))
    (bnd (pipewrite_loop a (take (nat n) addr)) (\<lambda>done.
     thn (rel (LPipe a)) (ret (if done then n else -1))))"

primrec piperead_loop :: "nat \<Rightarrow> nat \<Rightarrow> ('z pipest_scheme, bytes) kfun" where
  "piperead_loop a 0 = ret []"
| "piperead_loop a (Suc n) =
     bnd (get_pipe a) (\<lambda>p.
     if pipe_empty p then ret []
     else thn (set_pipe a (snd (pipe_get p)))
       (bnd (piperead_loop a n) (\<lambda>bs. ret (fst (pipe_get p) # bs))))"

text \<open>The result is the return value with the bytes stored at \<open>addr\<close>.\<close>

definition piperead :: "nat \<Rightarrow> int \<Rightarrow> ('z pipest_scheme, int \<times> bytes) kfun" where
  "piperead a n =
     thn (acq (LPipe a))
    (bnd (get_pipe a) (\<lambda>p. bnd (rd pkilled) (\<lambda>k.
     if pipe_empty p \<and> writeopen p
     then (if k then thn (rel (LPipe a)) (ret (-1, [])) else stop (Sleep ''piperead''))
     else bnd (piperead_loop a (nat n)) (\<lambda>bs.
       thn (rel (LPipe a)) (ret (int (length bs), bs))))))"

section \<open>Bounded queues\<close>

text \<open>A bounded FIFO queue and its laws, as producer and consumer rely on them.\<close>

locale bounded_queue =
  fixes ok :: "'q \<Rightarrow> bool" and items :: "'q \<Rightarrow> 'b list" and cap :: nat
    and full empty :: "'q \<Rightarrow> bool" and put :: "'b \<Rightarrow> 'q \<Rightarrow> 'q" and get :: "'q \<Rightarrow> 'b \<times> 'q"
  assumes full: "ok q \<Longrightarrow> full q \<longleftrightarrow> length (items q) = cap"
    and empty: "ok q \<Longrightarrow> empty q \<longleftrightarrow> items q = []"
    and put: "ok q \<Longrightarrow> \<not> full q \<Longrightarrow> ok (put b q) \<and> items (put b q) = items q @ [b]"
    and get: "ok q \<Longrightarrow> \<not> empty q \<Longrightarrow> ok (snd (get q)) \<and> items q = fst (get q) # items (snd (get q))"
    and cap: "ok q \<Longrightarrow> length (items q) \<le> cap" "0 < cap"
begin

text \<open>Producer and consumer in any interleaving: \<open>(q, out, inp)\<close> is the queue, what the
  consumer has taken so far and what the producer still has to put.\<close>

inductive step :: "'q \<times> 'b list \<times> 'b list \<Rightarrow> 'q \<times> 'b list \<times> 'b list \<Rightarrow> bool" where
  produce: "\<not> full q \<Longrightarrow> step (q, out, b # inp) (put b q, out, inp)"
| consume: "\<not> empty q \<Longrightarrow> step (q, out, inp) (snd (get q), out @ [fst (get q)], inp)"

lemma step_stream:
  "step (q, out, inp) (q', out', inp') \<Longrightarrow> ok q \<Longrightarrow>
   ok q' \<and> out' @ items q' @ inp' = out @ items q @ inp"
  by (erule step.cases) (use put get in auto)

lemma steps_stream:
  assumes "step\<^sup>*\<^sup>* (q, out, inp) (q', out', inp')" "ok q"
  shows "ok q' \<and> out' @ items q' @ inp' = out @ items q @ inp"
  using assms
proof (induction "(q', out', inp')" arbitrary: q' out' inp' rule: rtranclp_induct)
  case (step y)
  then show ?case using step_stream by (cases y) fastforce
qed simp

lemma not_stuck:
  assumes "ok q" "items q \<noteq> [] \<or> inp \<noteq> []"
  shows "\<exists>c. step (q, out, inp) c"
proof (cases "empty q")
  case True
  then have "\<not> full q" using assms(1) cap(2) full empty by auto
  moreover obtain b inp' where "inp = b # inp'" using True assms empty by (cases inp) auto
  ultimately show ?thesis using step.produce by blast
qed (use step.consume in blast)

text \<open>Producing a whole list, and draining the queue.\<close>

lemma put_all:
  "ok q \<Longrightarrow> length (items q) + length bs \<le> cap \<Longrightarrow>
   ok (fold put bs q) \<and> items (fold put bs q) = items q @ bs"
proof (induction bs arbitrary: q)
  case (Cons b bs)
  have "\<not> full q" using Cons.prems full by simp
  then show ?case using Cons put [of q b] by simp
qed simp

end

section \<open>The ring is a bounded queue\<close>

definition ring_ok :: "pipe \<Rightarrow> bool" where
  "ring_ok p \<longleftrightarrow> length (p_data p) = PIPESIZE \<and> unat (nwrite p - nread p) \<le> PIPESIZE"

definition ring_items :: "pipe \<Rightarrow> bytes" where
  "ring_items p = seg (p_data p) (nread p) (unat (nwrite p - nread p))"

lemma length_ring_items [simp]: "length (ring_items p) = unat (nwrite p - nread p)"
  by (simp add: ring_items_def)

lemma pipe_full_iff: "pipe_full p \<longleftrightarrow> unat (nwrite p - nread p) = PIPESIZE"
proof -
  have "pipe_full p \<longleftrightarrow> nwrite p - nread p = of_nat PIPESIZE"
    by (auto simp: pipe_full_def diff_eq_eq add.commute)
  then show ?thesis by (simp add: word_unat_eq_iff)
qed

lemma ring_put:
  assumes "ring_ok p" "\<not> pipe_full p"
  shows "ring_ok (pipe_put b p)" "ring_items (pipe_put b p) = ring_items p @ [b]"
proof -
  let ?k = "unat (nwrite p - nread p)"
  have len: "length (p_data p) = PIPESIZE" and k: "?k < PIPESIZE"
    using assms by (simp_all add: ring_ok_def pipe_full_iff)
  have k': "unat (nwrite p + 1 - nread p) = Suc ?k" using k by (intro unat_Suc_dist) simp
  show "ring_ok (pipe_put b p)" using len k k' by (simp add: ring_ok_def pipe_put_def)
  have "ring_items (pipe_put b p)
      = seg ((p_data p)[unat (nread p + of_nat ?k) mod length (p_data p) := b]) (nread p) (Suc ?k)"
    unfolding ring_items_def using k' len by (simp add: pipe_put_def)
  also have "\<dots> = ring_items p @ [b]"
    unfolding ring_items_def using k len by (intro seg_store) simp_all
  finally show "ring_items (pipe_put b p) = ring_items p @ [b]" .
qed

lemma ring_get:
  assumes "ring_ok p" "\<not> pipe_empty p"
  shows "ring_ok (snd (pipe_get p))" "ring_items p = fst (pipe_get p) # ring_items (snd (pipe_get p))"
proof -
  have "nwrite p - nread p \<noteq> 0" using assms(2) by (auto simp: pipe_empty_def)
  moreover have "nwrite p - (nread p + 1) = (nwrite p - nread p) - 1" by simp
  ultimately have k: "unat (nwrite p - nread p) = Suc (unat (nwrite p - (nread p + 1)))"
    by (metis Suc_pred' unat_gt_0 unat_minus_one)
  have len: "length (p_data p) = PIPESIZE" using assms(1) by (simp add: ring_ok_def)
  show "ring_ok (snd (pipe_get p))" using assms(1) k by (simp add: ring_ok_def pipe_get_def)
  show "ring_items p = fst (pipe_get p) # ring_items (snd (pipe_get p))"
    using len unfolding ring_items_def k seg_Cons by (simp add: pipe_get_def)
qed

interpretation pq: bounded_queue ring_ok ring_items PIPESIZE pipe_full pipe_empty pipe_put pipe_get
proof
  fix p :: pipe and b :: byte
  assume ok: "ring_ok p"
  show "pipe_full p \<longleftrightarrow> length (ring_items p) = PIPESIZE" by (simp add: pipe_full_iff)
  show "pipe_empty p \<longleftrightarrow> ring_items p = []"
    unfolding length_0_conv [symmetric] by (auto simp: pipe_empty_def unat_eq_0)
  show "\<not> pipe_full p \<Longrightarrow> ring_ok (pipe_put b p) \<and> ring_items (pipe_put b p) = ring_items p @ [b]"
    using ring_put [OF ok] by blast
  show "\<not> pipe_empty p \<Longrightarrow> ring_ok (snd (pipe_get p)) \<and>
      ring_items p = fst (pipe_get p) # ring_items (snd (pipe_get p))"
    using ring_get [OF ok] by blast
  show "length (ring_items p) \<le> PIPESIZE" using ok by (simp add: ring_items_def ring_ok_def)
qed simp

section \<open>Reading and writing\<close>

lemma get_pipe_apply [simp]: "pipes s a = Some p \<Longrightarrow> get_pipe a s = Inr (p, s)"
  by (simp add: get_pipe_def)

lemma set_pipe_apply [simp]: "set_pipe a p s = Inr ((), s\<lparr>pipes := (pipes s)(a := Some p)\<rparr>)"
  by (simp add: set_pipe_def)

lemma pipes_self: "pipes s a = Some p \<Longrightarrow> s\<lparr>pipes := (pipes s)(a := Some p)\<rparr> = s"
  by (simp add: fun_upd_idem)

lemma pipewrite_loop_spec:
  assumes "pipes s a = Some p" "ring_ok p" "length (ring_items p) + length bs \<le> PIPESIZE"
  shows "pipewrite_loop a bs s = Inr (True, s\<lparr>pipes := (pipes s)(a := Some (fold pipe_put bs p))\<rparr>)"
  using assms
proof (induction bs arbitrary: s p)
  case (Cons b bs)
  have nf: "\<not> pipe_full p" using Cons.prems pq.full by simp
  have "pipewrite_loop a bs (s\<lparr>pipes := (pipes s)(a := Some (pipe_put b p))\<rparr>)
      = Inr (True, s\<lparr>pipes := (pipes s)(a := Some (fold pipe_put bs (pipe_put b p)))\<rparr>)"
    using Cons.IH [of "s\<lparr>pipes := (pipes s)(a := Some (pipe_put b p))\<rparr>" "pipe_put b p"] Cons.prems
      ring_put [OF Cons.prems(2) nf] by (simp add: fun_upd_same del: fun_upd_apply)
  then show ?case using Cons.prems nf by (simp add: fun_upd_same del: fun_upd_apply)
qed (simp add: fun_upd_idem)

lemma piperead_loop_spec:
  assumes "pipes s a = Some p" "ring_ok p"
  shows "\<exists>p'. piperead_loop a n s = Inr (take n (ring_items p), s\<lparr>pipes := (pipes s)(a := Some p')\<rparr>) \<and>
     ring_ok p' \<and> ring_items p' = drop n (ring_items p) \<and> readopen p' = readopen p \<and>
     writeopen p' = writeopen p"
  using assms
proof (induction n arbitrary: s p)
  case 0
  then show ?case by (intro exI [of _ p]) (simp add: pipes_self del: fun_upd_apply)
next
  case (Suc n)
  show ?case
  proof (cases "pipe_empty p")
    case True
    then have "ring_items p = []" using Suc.prems pq.empty by blast
    then show ?thesis using Suc.prems True
      by (intro exI [of _ p]) (simp add: pipes_self del: fun_upd_apply)
  next
    case False
    let ?p = "snd (pipe_get p)" let ?s = "s\<lparr>pipes := (pipes s)(a := Some ?p)\<rparr>"
    note g = ring_get [OF Suc.prems(2) False]
    have "pipes ?s a = Some ?p" by simp
    from Suc.IH [OF this g(1)] obtain p' where
      "piperead_loop a n ?s = Inr (take n (ring_items ?p), s\<lparr>pipes := (pipes s)(a := Some p')\<rparr>)"
      "ring_ok p'" "ring_items p' = drop n (ring_items ?p)" "readopen p' = readopen ?p" "writeopen p' = writeopen ?p"
      by (auto simp del: fun_upd_apply)
    moreover have "readopen ?p = readopen p" "writeopen ?p = writeopen p"
      by (simp_all add: pipe_get_def)
    ultimately show ?thesis using Suc.prems(1) False g(2) by (intro exI [of _ p']) (simp del: fun_upd_apply)
  qed
qed

lemma put_all_open [simp]:
  "readopen (fold pipe_put bs p) = readopen p" "writeopen (fold pipe_put bs p) = writeopen p"
  by (induction bs arbitrary: p) (simp_all add: pipe_put_def)

section \<open>Properties\<close>


text \<open>A fresh pipe whose counters are about to wrap around.\<close>

definition sample_pipe :: pipe where
  "sample_pipe = \<lparr>p_data = replicate PIPESIZE 0, nread = - 1, nwrite = - 1, readopen = True, writeopen = True\<rparr>"

lemma sample_pipe_ok: "ring_ok sample_pipe" "pipe_empty sample_pipe" "ring_items sample_pipe = []"
  by (simp_all add: sample_pipe_def ring_ok_def pipe_empty_def ring_items_def)


text \<open>C11: \<open>pipewrite\<close> of data that fits, followed by \<open>piperead\<close>, returns the oldest bytes of the
  pipe, first what was there before and then what was written; the rest stays in the pipe.\<close>

theorem pipewrite_piperead:
  assumes "pipes s a = Some p" "ring_ok p" "LPipe a \<notin> held s"
    and "length (ring_items p) + length bs \<le> PIPESIZE" "bs \<noteq> []"
  shows "\<exists>s' p'. thn (pipewrite a bs (int (length bs))) (piperead a (int n)) s
      = Inr ((int (length (take n (ring_items p @ bs))), take n (ring_items p @ bs)), s') \<and>
     pipes s' a = Some p' \<and> ring_ok p' \<and> ring_items p' = drop n (ring_items p @ bs) \<and> held s' = held s"
proof -
  let ?q = "fold pipe_put bs p"
  have q: "ring_ok ?q" "ring_items ?q = ring_items p @ bs"
    using pq.put_all [OF assms(2), of bs] assms(4) by auto
  let ?s1 = "s\<lparr>held := insert (LPipe a) (held s)\<rparr>"
  have w: "pipewrite a bs (int (length bs)) s
      = Inr (int (length bs), s\<lparr>pipes := (pipes s)(a := Some ?q)\<rparr>)"
    using pipewrite_loop_spec [of ?s1 a p bs] assms by (simp add: pipewrite_def)
  let ?s2 = "s\<lparr>pipes := (pipes s)(a := Some ?q)\<rparr>"
  have ne: "\<not> pipe_empty ?q" using pq.empty [OF q(1)] q(2) assms(5) by simp
  obtain p' where r: "piperead_loop a n (?s2\<lparr>held := insert (LPipe a) (held s)\<rparr>)
      = Inr (take n (ring_items ?q), ?s2\<lparr>held := insert (LPipe a) (held s), pipes := (pipes s)(a := Some p')\<rparr>)"
    and p': "ring_ok p'" "ring_items p' = drop n (ring_items ?q)"
    using piperead_loop_spec [of "?s2\<lparr>held := insert (LPipe a) (held s)\<rparr>" a ?q n] q(1) by auto
  have "piperead a (int n) ?s2 = Inr ((int (length (take n (ring_items ?q))), take n (ring_items ?q)),
      s\<lparr>pipes := (pipes s)(a := Some p')\<rparr>)"
    using r ne assms(3) by (simp add: piperead_def)
  then show ?thesis using w p' q(2) by auto
qed

definition sample_pipes :: pipest where
  "sample_pipes = \<lparr>held = {}, slocks = (\<lambda>_. \<lparr>sl_locked = False, sl_pid = 0\<rparr>), mypid = 1, pkilled = False,
     kend = 0, kuse_lock = True, kfreelist = 0, pages = (\<lambda>_. []), pipes = [PGSIZE \<mapsto> sample_pipe]\<rparr>"

theorem pipewrite_piperead_witness:
  "\<exists>s' p'. thn (pipewrite PGSIZE [1, 2, 3] 3) (piperead PGSIZE 2) sample_pipes = Inr ((2, [1, 2]), s') \<and>
     pipes s' PGSIZE = Some p' \<and> ring_items p' = [3]"
proof -
  have "pipes sample_pipes PGSIZE = Some sample_pipe" "LPipe PGSIZE \<notin> held sample_pipes"
    by (simp_all add: sample_pipes_def)
  from pipewrite_piperead [OF this(1) sample_pipe_ok(1) this(2), of "[1, 2, 3]" 2] show ?thesis
    by (simp add: sample_pipe_ok) blast
qed

end
