(* ===== verification/Console.thy ===== *)
theory Console
  imports Pipe
begin

text \<open>
  The console (\<open>console.c\<close>): number formatting, \<open>cprintf\<close>, the line editor that keyboard
  interrupts drive, and the loop of \<open>consoleread\<close>.  The device functions \<open>consoleread\<close> and
  \<open>consolewrite\<close> themselves, which release and retake the lock of an inode, are in theory
  Inode.  What is sent to the screen is kept as a list of character codes.
\<close>

abbreviation INPUT_BUF :: nat where "INPUT_BUF \<equiv> 128"
abbreviation BACKSPACE :: int where "BACKSPACE \<equiv> 0x100"

record input_buf =
  in_buf :: bytes
  in_r :: u32
  in_w :: u32
  in_e :: u32

record consst = pipest +
  input :: input_buf
  cons_out :: "int list"

section \<open>Formatted output\<close>

text \<open>The digit loop of \<open>printint\<close>, least significant digit first.\<close>

definition digit :: "nat \<Rightarrow> int" where
  "digit d = (if d < 10 then int d + 48 else int d + 87)"

function digits_loop :: "nat \<Rightarrow> nat \<Rightarrow> int list" where
  "digits_loop base x = digit (x mod base) # (if x div base = 0 \<or> base < 2 then [] else digits_loop base (x div base))"
  by auto
termination by (relation "measure snd") (auto simp: div_eq_0_iff)

declare digits_loop.simps [simp del]

definition printint :: "i32 \<Rightarrow> nat \<Rightarrow> bool \<Rightarrow> int list" where
  "printint xx base sign =
     (let neg = sign \<and> sint xx < 0;
          x = (if neg then unat (- xx) else unat xx);
          buf = digits_loop base x @ (if neg then [45] else [])
      in rev buf)"

text \<open>An argument of \<open>cprintf\<close> is a word or the string a pointer points to (\<open>None\<close> for a null
  pointer); a missing argument is an access outside the argument list.\<close>

datatype carg = CWord i32 | CStr "bytes option"

fun cprintf :: "int list \<Rightarrow> carg list \<Rightarrow> fault + int list" where
  "cprintf [] args = Inr []"
| "cprintf (c # fmt) args =
     (if c \<noteq> 37 then (case cprintf fmt args of Inl e \<Rightarrow> Inl e | Inr out \<Rightarrow> Inr (c # out))
      else (case fmt of
        [] \<Rightarrow> Inr []
      | d # fmt' \<Rightarrow>
          (let emit_rest = (\<lambda>out args. case cprintf fmt' args of Inl e \<Rightarrow> Inl e | Inr r \<Rightarrow> Inr (out @ r)) in
           if d = 100 then (case args of CWord w # as \<Rightarrow> emit_rest (printint w 10 True) as | _ \<Rightarrow> Inl (UB ''cprintf''))
           else if d = 120 \<or> d = 112
           then (case args of CWord w # as \<Rightarrow> emit_rest (printint w 16 False) as | _ \<Rightarrow> Inl (UB ''cprintf''))
           else if d = 115
           then (case args of
                   CStr (Some s) # as \<Rightarrow> emit_rest (map uint s) as
                 | CStr None # as \<Rightarrow> emit_rest [40, 110, 117, 108, 108, 41] as
                 | _ \<Rightarrow> Inl (UB ''cprintf''))
           else if d = 37 then emit_rest [37] args
           else emit_rest [37, d] args)))"

section \<open>The line editor\<close>

definition consputc :: "int \<Rightarrow> ('z consst_scheme, unit) kfun" where
  "consputc c = md (\<lambda>s. s\<lparr>cons_out := cons_out s @ [c]\<rparr>)"

text \<open>The lock around \<open>cprintf\<close>; \<open>codes\<close> are the characters of a format string.\<close>

definition codes :: "string \<Rightarrow> int list" where
  "codes = map of_char"

definition cprint :: "string \<Rightarrow> carg list \<Rightarrow> ('z consst_scheme, unit) kfun" where
  "cprint fmt args = thn (acq LCons) (case cprintf (codes fmt) args of
     Inl e \<Rightarrow> stop e
   | Inr out \<Rightarrow> thn (md (\<lambda>s. s\<lparr>cons_out := cons_out s @ out\<rparr>)) (rel LCons))"

abbreviation in_at :: "input_buf \<Rightarrow> u32 \<Rightarrow> byte" where
  "in_at i a \<equiv> in_buf i ! (unat a mod INPUT_BUF)"

text \<open>\<open>^U\<close>: the loop erases up to \<open>w\<close> or up to a newline.  The result has the number of erased
  characters, each of which is echoed as \<open>BACKSPACE\<close>.\<close>

function kill_line :: "input_buf \<Rightarrow> input_buf \<times> nat" where
  "kill_line i =
     (if in_e i \<noteq> in_w i \<and> in_at i (in_e i - 1) \<noteq> 10
      then (let (j, n) = kill_line (i\<lparr>in_e := in_e i - 1\<rparr>) in (j, Suc n))
      else (i, 0))"
  by auto
termination
  by (relation "measure (\<lambda>i. unat (in_e i - in_w i))")
    (auto intro: unat_pred_less)

declare kill_line.simps [simp del]

text \<open>One character: the new input buffer and what is echoed.\<close>

definition intr_char :: "input_buf \<Rightarrow> int \<Rightarrow> input_buf \<times> int list" where
  "intr_char i c =
     (if c = 16 then (i, [])
      else if c = 21 then (let (j, n) = kill_line i in (j, replicate n BACKSPACE))
      else if c = 8 \<or> c = 127 then
        (if in_e i \<noteq> in_w i then (i\<lparr>in_e := in_e i - 1\<rparr>, [BACKSPACE]) else (i, []))
      else if c \<noteq> 0 \<and> unat (in_e i - in_r i) < INPUT_BUF then
        (let c' = (if c = 13 then 10 else c);
             j = i\<lparr>in_buf := (in_buf i)[unat (in_e i) mod INPUT_BUF := word_of_int c'],
                   in_e := in_e i + 1\<rparr>
         in (if c' = 10 \<or> c' = 4 \<or> in_e j = in_r j + of_nat INPUT_BUF then j\<lparr>in_w := in_e j\<rparr> else j,
             [c']))
      else (i, []))"

text \<open>\<open>cs\<close> are the characters \<open>getc\<close> returns before its first negative result.\<close>

primrec intr_chars :: "int list \<Rightarrow> ('z consst_scheme, unit) kfun" where
  "intr_chars [] = ret ()"
| "intr_chars (c # cs) =
     bnd (rd input) (\<lambda>i. let (j, out) = intr_char i c in
     thn (md (\<lambda>s. s\<lparr>input := j, cons_out := cons_out s @ out\<rparr>)) (intr_chars cs))"

definition consoleintr :: "int list \<Rightarrow> ('z consst_scheme, unit) kfun" where
  "consoleintr cs = thn (acq LCons) (thn (intr_chars cs) (rel LCons))"

text \<open>The loop of \<open>consoleread\<close>, \<open>n\<close> of \<open>target\<close> bytes still to read.  The first component of
  the result says that the process was killed while it waited.\<close>

primrec consread_loop :: "nat \<Rightarrow> nat \<Rightarrow> ('z consst_scheme, bool \<times> bytes) kfun" where
  "consread_loop target 0 = ret (False, [])"
| "consread_loop target (Suc n) =
     bnd (rd input) (\<lambda>i. bnd (rd pkilled) (\<lambda>k.
     if in_r i = in_w i then (if k then ret (True, []) else stop (Sleep ''consoleread''))
     else let c = in_at i (in_r i) in
       if c = 4 then thn (whn (target \<le> Suc n) (md (\<lambda>s. s\<lparr>input := i\<lparr>in_r := in_r i + 1\<rparr>\<rparr>))) (ret (False, []))
       else thn (md (\<lambda>s. s\<lparr>input := i\<lparr>in_r := in_r i + 1\<rparr>\<rparr>))
         (if c = 10 then ret (False, [c])
          else bnd (consread_loop target n) (\<lambda>(kl, bs). ret (kl, c # bs)))))"

section \<open>Numbers print as they are\<close>

definition undigit :: "int \<Rightarrow> int" where
  "undigit c = (if c < 58 then c - 48 else c - 87)"

definition numval :: "nat \<Rightarrow> int list \<Rightarrow> int" where
  "numval base ds = foldl (\<lambda>v c. v * int base + undigit c) 0 ds"

lemma undigit_digit: "d < 16 \<Longrightarrow> undigit (digit d) = int d"
  by (simp add: undigit_def digit_def)

lemma numval_snoc: "numval base (ds @ [c]) = numval base ds * int base + undigit c"
  by (simp add: numval_def)

lemma digits_loop_val: "2 \<le> base \<Longrightarrow> base \<le> 16 \<Longrightarrow> numval base (rev (digits_loop base x)) = int x"
proof (induction base x rule: digits_loop.induct)
  case (1 base x)
  have d: "undigit (digit (x mod base)) = int (x mod base)"
    using "1.prems" mod_less_divisor [of base x] by (intro undigit_digit) linarith
  show ?case
  proof (cases "x div base = 0")
    case True
    then have "x < base" using "1.prems" by (simp add: div_eq_0_iff)
    then show ?thesis using True d by (subst digits_loop.simps) (simp add: numval_def)
  next
    case False
    then have "numval base (rev (digits_loop base (x div base))) = int (x div base)"
      using "1.IH" "1.prems" by simp
    then show ?thesis using False "1.prems" d
      by (subst digits_loop.simps)
        (simp add: numval_snoc flip: of_nat_mult of_nat_add)
  qed
qed

section \<open>The line editor, abstractly\<close>

text \<open>Bytes a reader can have, and the line being edited.\<close>

definition in_pend :: "input_buf \<Rightarrow> bytes" where
  "in_pend i = seg (in_buf i) (in_r i) (unat (in_e i - in_r i))"

definition committed :: "input_buf \<Rightarrow> bytes" where
  "committed i = take (unat (in_w i - in_r i)) (in_pend i)"

definition editing :: "input_buf \<Rightarrow> bytes" where
  "editing i = drop (unat (in_w i - in_r i)) (in_pend i)"

definition in_ok :: "input_buf \<Rightarrow> bool" where
  "in_ok i \<longleftrightarrow> length (in_buf i) = INPUT_BUF \<and> unat (in_w i - in_r i) \<le> unat (in_e i - in_r i) \<and>
     unat (in_e i - in_r i) \<le> INPUT_BUF \<and> 10 \<notin> set (editing i)"

definition edit :: "bytes \<times> bytes \<Rightarrow> int \<Rightarrow> bytes \<times> bytes" where
  "edit = (\<lambda>(com, ed) c.
     if c = 16 then (com, ed)
     else if c = 21 then (com, [])
     else if c = 8 \<or> c = 127 then (com, butlast ed)
     else if c \<noteq> 0 \<and> length com + length ed < INPUT_BUF then
       (let c' = (if c = 13 then 10 else c); ed' = ed @ [word_of_int c'] in
        if c' = 10 \<or> c' = 4 \<or> length com + length ed' = INPUT_BUF then (com @ ed', []) else (com, ed'))
     else (com, ed))"

lemma length_in_pend [simp]: "length (in_pend i) = unat (in_e i - in_r i)"
  by (simp add: in_pend_def)

lemma length_committed: "in_ok i \<Longrightarrow> length (committed i) = unat (in_w i - in_r i)"
  by (simp add: committed_def in_ok_def)

lemma pend_split: "committed i @ editing i = in_pend i"
  by (simp add: committed_def editing_def)

lemma e_eq_w: "in_e i = in_w i \<longleftrightarrow> unat (in_e i - in_r i) = unat (in_w i - in_r i)"
  by (auto simp flip: word_unat_eq_iff)

lemma editing_Nil: "in_ok i \<Longrightarrow> editing i = [] \<longleftrightarrow> in_e i = in_w i"
  by (auto simp: editing_def in_ok_def e_eq_w)

text \<open>Erasing the last character of the line.\<close>

lemma erase:
  assumes "in_ok i" "in_e i \<noteq> in_w i"
  shows "in_ok (i\<lparr>in_e := in_e i - 1\<rparr>)" "committed (i\<lparr>in_e := in_e i - 1\<rparr>) = committed i"
    "editing i = editing (i\<lparr>in_e := in_e i - 1\<rparr>) @ [in_at i (in_e i - 1)]"
proof -
  let ?j = "i\<lparr>in_e := in_e i - 1\<rparr>" let ?k = "unat (in_e i - 1 - in_r i)"
  have lt: "unat (in_w i - in_r i) < unat (in_e i - in_r i)"
    using assms e_eq_w [of i] by (simp add: in_ok_def)
  then have "in_e i \<noteq> in_r i" by auto
  from unat_pred_dist [OF this] have k: "unat (in_e i - in_r i) = Suc ?k" by simp
  have len: "length (in_buf i) = INPUT_BUF" using assms by (simp add: in_ok_def)
  have "in_r i + of_nat ?k = in_e i - 1" by simp
  then have p: "in_pend i = in_pend ?j @ [in_at i (in_e i - 1)]"
    unfolding in_pend_def k seg_Suc using len by simp
  then show c: "committed ?j = committed i" and e: "editing i = editing ?j @ [in_at i (in_e i - 1)]"
    using lt k by (simp_all add: committed_def editing_def)
  show "in_ok ?j" using assms(1) lt k e by (auto simp: in_ok_def)
qed

lemma kill_line_spec:
  "in_ok i \<Longrightarrow> in_ok (fst (kill_line i)) \<and> committed (fst (kill_line i)) = committed i \<and>
     editing (fst (kill_line i)) = []"
proof (induction i rule: kill_line.induct)
  case (1 i)
  show ?case
  proof (cases "in_e i = in_w i")
    case True
    then show ?thesis using "1.prems" editing_Nil by (subst (1 2 3) kill_line.simps) simp
  next
    case False
    note e = erase [OF "1.prems" False]
    have "in_at i (in_e i - 1) \<noteq> 10" using "1.prems" e(3) by (auto simp: in_ok_def)
    then show ?thesis using False "1.IH" [OF _ e(1)] e(2)
      by (subst (1 2 3) kill_line.simps) (simp add: case_prod_beta)
  qed
qed

text \<open>Typing a character when there is room.\<close>

lemma type_char:
  assumes "in_ok i" "unat (in_e i - in_r i) < INPUT_BUF"
    and "j = i\<lparr>in_buf := (in_buf i)[unat (in_e i) mod INPUT_BUF := b], in_e := in_e i + 1\<rparr>"
  shows "committed j = committed i" "editing j = editing i @ [b]" "length (in_buf j) = INPUT_BUF"
    "unat (in_e j - in_r j) = Suc (unat (in_e i - in_r i))" "in_w j = in_w i" "in_r j = in_r i"
proof -
  let ?k = "unat (in_e i - in_r i)"
  have len: "length (in_buf i) = INPUT_BUF" and le: "unat (in_w i - in_r i) \<le> ?k"
    using assms(1) by (simp_all add: in_ok_def)
  show k': "unat (in_e j - in_r j) = Suc ?k"
    using assms(2) unat_Suc_dist [of "in_e i" "in_r i"] unfolding assms(3) by simp
  have "in_pend j = seg ((in_buf i)[unat (in_r i + of_nat ?k) mod length (in_buf i) := b]) (in_r i) (Suc ?k)"
    unfolding in_pend_def k' using len assms(3) by simp
  also have "\<dots> = in_pend i @ [b]"
    unfolding in_pend_def using len assms(2) by (intro seg_store) simp_all
  finally have p: "in_pend j = in_pend i @ [b]" .
  show "committed j = committed i" "editing j = editing i @ [b]"
    using p le assms(3) by (simp_all add: committed_def editing_def)
  show "length (in_buf j) = INPUT_BUF" "in_w j = in_w i" "in_r j = in_r i"
    using len assms(3) by simp_all
qed

lemma commit_line:
  assumes "length (in_buf j) = INPUT_BUF" "unat (in_e j - in_r j) \<le> INPUT_BUF"
  shows "in_ok (j\<lparr>in_w := in_e j\<rparr>)" "committed (j\<lparr>in_w := in_e j\<rparr>) = in_pend j"
    "editing (j\<lparr>in_w := in_e j\<rparr>) = []"
proof -
  have p: "in_pend (j\<lparr>in_w := in_e j\<rparr>) = in_pend j" by (simp add: in_pend_def)
  then show c: "committed (j\<lparr>in_w := in_e j\<rparr>) = in_pend j" and e: "editing (j\<lparr>in_w := in_e j\<rparr>) = []"
    by (simp_all add: committed_def editing_def)
  show "in_ok (j\<lparr>in_w := in_e j\<rparr>)" using assms e by (simp add: in_ok_def)
qed

lemma ring_full_iff: "in_e j = in_r j + of_nat INPUT_BUF \<longleftrightarrow> unat (in_e j - in_r j) = INPUT_BUF"
proof -
  have "in_e j = in_r j + of_nat INPUT_BUF \<longleftrightarrow> in_e j - in_r j = of_nat INPUT_BUF"
    by (auto simp: diff_eq_eq add.commute)
  then show ?thesis by (simp add: word_unat_eq_iff)
qed

lemma char_neq_newline:
  assumes "0 \<le> c" "c < 256" "c \<noteq> 10"
  shows "(word_of_int c :: byte) \<noteq> 10"
proof
  assume "(word_of_int c :: byte) = 10"
  then have "uint (word_of_int c :: byte) = uint (10 :: byte)" by simp
  then show False using assms by (simp add: uint_word_of_int)
qed

lemma intr_char_edit:
  assumes ok: "in_ok i" and c: "0 \<le> c" "c < 256" and j: "j = fst (intr_char i c)"
  shows "in_ok j \<and> (committed j, editing j) = edit (committed i, editing i) c"
proof -
  have len: "length (committed i) + length (editing i) = unat (in_e i - in_r i)"
    using arg_cong [OF pend_split, of length i] by simp
  consider "c = 16" | "c = 21" | "c = 8 \<or> c = 127" | "c \<notin> {16, 21, 8, 127}" "c = 0 \<or> INPUT_BUF \<le> unat (in_e i - in_r i)"
    | "c \<notin> {16, 21, 8, 127}" "c \<noteq> 0" "unat (in_e i - in_r i) < INPUT_BUF" by fastforce
  then show ?thesis
  proof cases
    case 1
    then show ?thesis using ok j by (simp add: intr_char_def edit_def)
  next
    case 2
    then show ?thesis using kill_line_spec [OF ok] j
      by (simp add: intr_char_def edit_def case_prod_beta Let_def)
  next
    case 3
    then show ?thesis
      using ok j erase [OF ok] editing_Nil [OF ok] by (cases "in_e i = in_w i") (auto simp: intr_char_def edit_def)
  next
    case 4
    then show ?thesis using ok j len by (auto simp: intr_char_def edit_def)
  next
    case 5
    let ?c = "if c = 13 then 10 else c"
    let ?k = "i\<lparr>in_buf := (in_buf i)[unat (in_e i) mod INPUT_BUF := word_of_int ?c], in_e := in_e i + 1\<rparr>"
    note t = type_char [OF ok 5(3), of ?k "word_of_int ?c", OF refl]
    have le: "unat (in_e ?k - in_r ?k) \<le> INPUT_BUF" using t(4) 5(3) by simp
    note cl = commit_line [OF t(3) le]
    have full: "in_e ?k = in_r ?k + of_nat INPUT_BUF \<longleftrightarrow> Suc (unat (in_e i - in_r i)) = INPUT_BUF"
      using ring_full_iff [of ?k] t(4) by metis
    have jk: "j = (if ?c = 10 \<or> ?c = 4 \<or> in_e ?k = in_r ?k + of_nat INPUT_BUF then ?k\<lparr>in_w := in_e ?k\<rparr> else ?k)"
      unfolding j using 5 by (simp add: intr_char_def Let_def)
    have pend: "in_pend ?k = committed i @ editing i @ [word_of_int ?c]"
      using pend_split [of ?k] t(1,2) by simp
    show ?thesis
    proof (cases "?c = 10 \<or> ?c = 4 \<or> Suc (unat (in_e i - in_r i)) = INPUT_BUF")
      case True
      then have "j = ?k\<lparr>in_w := in_e ?k\<rparr>" using jk full by presburger
      then show ?thesis using cl pend True 5 len by (auto simp: edit_def Let_def)
    next
      case False
      then have jk: "j = ?k" using jk full by presburger
      have "in_ok ?k"
        using ok t le False c char_neq_newline [of c] by (auto simp: in_ok_def split: if_splits)
      then show ?thesis using jk t False 5 len by (auto simp: edit_def Let_def)
    qed
  qed
qed

lemma intr_chars_edit:
  "in_ok (input s) \<Longrightarrow> \<forall>c \<in> set cs. 0 \<le> c \<and> c < 256 \<Longrightarrow>
   \<exists>j out. intr_chars cs s = Inr ((), s\<lparr>input := j, cons_out := out\<rparr>) \<and> in_ok j \<and>
     (committed j, editing j) = foldl edit (committed (input s), editing (input s)) cs"
proof (induction cs arbitrary: s)
  case (Cons c cs)
  let ?p = "intr_char (input s) c"
  have e: "in_ok (fst ?p)" "(committed (fst ?p), editing (fst ?p)) = edit (committed (input s), editing (input s)) c"
    using intr_char_edit [OF Cons.prems(1), of c "fst ?p"] Cons.prems(2) by auto
  then show ?case
    using Cons.IH [of "s\<lparr>input := fst ?p, cons_out := cons_out s @ snd ?p\<rparr>"] Cons.prems(2)
    by (auto simp: case_prod_beta Let_def)
next
  case Nil
  then show ?case by (intro exI [of _ "input s"] exI [of _ "cons_out s"]) simp
qed

section \<open>Properties\<close>

text \<open>C12: The console input is a line editor.  Whatever characters a keyboard interrupt
  delivers, the pair of the bytes ready for readers and the line being edited changes as
  the abstract editor \<open>edit\<close> says: characters are appended while the 128 byte buffer has
  room, backspace drops the last one, \<open>^U\<close> the whole line, and newline, \<open>^D\<close> or a full buffer
  hand the line to the readers.\<close>

theorem consoleintr_edits:
  assumes "in_ok (input s)" "LCons \<notin> held s" "\<forall>c \<in> set cs. 0 \<le> c \<and> c < 256"
  shows "\<exists>s'. consoleintr cs s = Inr ((), s') \<and> in_ok (input s') \<and> held s' = held s \<and>
    (committed (input s'), editing (input s')) = foldl edit (committed (input s), editing (input s)) cs"
proof -
  let ?s = "s\<lparr>held := insert LCons (held s)\<rparr>"
  obtain j out where "intr_chars cs ?s = Inr ((), ?s\<lparr>input := j, cons_out := out\<rparr>)" "in_ok j"
    "(committed j, editing j) = foldl edit (committed (input s), editing (input s)) cs"
    using intr_chars_edit [of ?s cs] assms by auto
  then show ?thesis using assms(2) by (auto simp: consoleintr_def)
qed

definition sample_console :: consst where
  "sample_console = \<lparr>held = {}, slocks = (\<lambda>_. \<lparr>sl_locked = False, sl_pid = 0\<rparr>), mypid = 1, pkilled = False,
     kend = 0, kuse_lock = True, kfreelist = 0, pages = (\<lambda>_. []), pipes = (\<lambda>_. None),
     input = \<lparr>in_buf = replicate INPUT_BUF 0, in_r = - 1, in_w = - 1, in_e = - 1\<rparr>, cons_out = []\<rparr>"

theorem consoleintr_edits_witness:
  "\<exists>s'. consoleintr [104, 105, 8, 13] sample_console = Inr ((), s') \<and>
     committed (input s') = [104, 10] \<and> editing (input s') = []"
proof -
  have i: "in_ok (input sample_console)" "committed (input sample_console) = []"
    "editing (input sample_console) = []" "LCons \<notin> held sample_console"
    by (simp_all add: sample_console_def in_ok_def committed_def editing_def in_pend_def)
  obtain s' where "consoleintr [104, 105, 8, 13] sample_console = Inr ((), s')"
    "(committed (input s'), editing (input s')) = foldl edit ([], []) [104, 105, 8, 13]"
    using consoleintr_edits [OF i(1,4), of "[104, 105, 8, 13]"] i(2,3) by auto
  moreover have "foldl edit ([], []) [104, 105, 8, 13] = ([104, 10], [])"
    by (simp add: edit_def)
  ultimately show ?thesis by auto
qed

text \<open>C13: \<open>printint\<close> prints the number it is given: the digits of a hexadecimal number have its
  unsigned value, those of a decimal number its signed value, with a leading minus sign
  exactly for negative numbers, the smallest one included.\<close>

theorem printint_value:
  "numval 16 (printint w 16 False) = uint w \<and>
   (if sint w < 0 then hd (printint w 10 True) = 45 \<and> - numval 10 (tl (printint w 10 True)) = sint w
    else numval 10 (printint w 10 True) = sint w)"
proof -
  have "int (unat (- w)) = - sint w" if "sint w < 0"
    using that sint32_range [of w] by (simp add: uint_minus_sint)
  moreover have "int (unat w) = sint w" if "\<not> sint w < 0"
    using that sint32_range [of w] by (simp add: uint_of_sint)
  ultimately show ?thesis
    by (simp add: printint_def digits_loop_val Let_def)
qed

end
