(* ===== verification/Bio.thy ===== *)
theory Bio
  imports Console
begin

text \<open>
  The buffer cache (\<open>bio.c\<close>) over the IDE driver (\<open>ide.c\<close>).  A buffer is named by its index
  in \<open>bcache.buf\<close>; the list through \<open>prev\<close> and \<open>next\<close> is the list of indices from
  \<open>bcache.head.next\<close> on, most recently used first.  The disk is a function of device and
  block number.  \<open>dwrites\<close> is the history of the writes the device has performed, which
  the crash-safety results of the log are about.
\<close>

abbreviation BSIZE :: nat where "BSIZE \<equiv> 512"
definition NBUF :: nat where "NBUF = 30"
abbreviation FSSIZE :: nat where "FSSIZE \<equiv> 2000"

record buf =
  b_valid :: bool
  b_dirty :: bool
  b_dev :: nat
  b_blockno :: nat
  b_refcnt :: nat
  b_data :: bytes

record biost = consst +
  bufs :: "buf list"
  blru :: "nat list"
  idequeue :: "nat list"
  havedisk1 :: bool
  disk :: "nat \<Rightarrow> nat \<Rightarrow> bytes"
  dwrites :: "(nat \<times> nat \<times> bytes) list"

definition upd_buf :: "nat \<Rightarrow> (buf \<Rightarrow> buf) \<Rightarrow> ('z biost_scheme, unit) kfun" where
  "upd_buf i f = md (\<lambda>s. s\<lparr>bufs := (bufs s)[i := f (bufs s ! i)]\<rparr>)"

abbreviation buf_at :: "'z biost_scheme \<Rightarrow> nat \<Rightarrow> buf" where
  "buf_at s i \<equiv> bufs s ! i"

section \<open>The disk driver\<close>

text \<open>The drive a device number selects is its lowest bit.\<close>

definition disk_write :: "nat \<Rightarrow> nat \<Rightarrow> bytes \<Rightarrow> ('z biost_scheme, unit) kfun" where
  "disk_write d b data = md (\<lambda>s. s\<lparr>
     disk := (disk s)(d mod 2 := (disk s (d mod 2))(b := data)),
     dwrites := dwrites s @ [(d mod 2, b, data)]\<rparr>)"

definition idestart :: "nat \<Rightarrow> ('z biost_scheme, unit) kfun" where
  "idestart i = bnd (rd (\<lambda>s. buf_at s i)) (\<lambda>b.
     if FSSIZE \<le> b_blockno b then stop (Panic ''incorrect blockno'')
     else whn (b_dirty b) (disk_write (b_dev b) (b_blockno b) (b_data b)))"

definition ideintr :: "('z biost_scheme, unit) kfun" where
  "ideintr =
     thn (acq LIde)
    (bnd (rd idequeue) (\<lambda>q.
     case q of [] \<Rightarrow> rel LIde
     | i # q' \<Rightarrow>
       thn (md (\<lambda>s. s\<lparr>idequeue := q'\<rparr>))
      (bnd (rd (\<lambda>s. buf_at s i)) (\<lambda>b.
       thn (whn (\<not> b_dirty b) (bnd (rd (\<lambda>s. disk s (b_dev b mod 2) (b_blockno b))) (\<lambda>d.
              upd_buf i (\<lambda>b. b\<lparr>b_data := d\<rparr>))))
      (thn (upd_buf i (\<lambda>b. b\<lparr>b_valid := True, b_dirty := False\<rparr>))
      (thn (case q' of [] \<Rightarrow> ret () | j # _ \<Rightarrow> idestart j)
           (rel LIde)))))))"

text \<open>The wait loop of \<open>iderw\<close>: while the buffer is not synchronised the process sleeps with
  \<open>idelock\<close> released, and the disk interrupt for the request at the head of the queue
  arrives.  Every interrupt shortens the queue, so the queue length bounds the rounds; an
  empty queue would leave the process asleep.\<close>

primrec ide_wait :: "nat \<Rightarrow> nat \<Rightarrow> ('z biost_scheme, unit) kfun" where
  "ide_wait 0 i = bnd (rd (\<lambda>s. buf_at s i)) (\<lambda>b.
     if b_valid b \<and> \<not> b_dirty b then ret () else stop (Sleep ''iderw''))"
| "ide_wait (Suc n) i = bnd (rd (\<lambda>s. buf_at s i)) (\<lambda>b.
     if b_valid b \<and> \<not> b_dirty b then ret ()
     else thn (rel LIde) (thn ideintr (thn (acq LIde) (ide_wait n i))))"

definition iderw :: "nat \<Rightarrow> ('z biost_scheme, unit) kfun" where
  "iderw i =
     bnd (holdingsleep (SBuf i)) (\<lambda>h.
     bnd (rd id) (\<lambda>s.
     if \<not> h then stop (Panic ''iderw: buf not locked'')
     else if b_valid (buf_at s i) \<and> \<not> b_dirty (buf_at s i) then stop (Panic ''iderw: nothing to do'')
     else if b_dev (buf_at s i) \<noteq> 0 \<and> \<not> havedisk1 s
     then stop (Panic ''iderw: ide disk 1 not present'')
     else
       thn (acq LIde)
      (thn (md (\<lambda>s. s\<lparr>idequeue := idequeue s @ [i]\<rparr>))
      (bnd (rd idequeue) (\<lambda>q.
       thn (whn (hd q = i) (idestart i))
      (thn (ide_wait (length q) i)
           (rel LIde)))))))"

section \<open>The buffer cache\<close>

definition binit :: "('z biost_scheme, unit) kfun" where
  "binit = md (\<lambda>s. s\<lparr>blru := rev [0..<NBUF],
     slocks := (\<lambda>k. case k of SBuf i \<Rightarrow> if i < NBUF then \<lparr>sl_locked = False, sl_pid = 0\<rparr>
                                     else slocks s k
                    | _ \<Rightarrow> slocks s k)\<rparr>)"

definition bget :: "nat \<Rightarrow> nat \<Rightarrow> ('z biost_scheme, nat) kfun" where
  "bget dev blockno =
     thn (acq LBcache)
    (bnd (rd id) (\<lambda>s.
     case find (\<lambda>i. b_dev (buf_at s i) = dev \<and> b_blockno (buf_at s i) = blockno) (blru s) of
       Some i \<Rightarrow>
         thn (upd_buf i (\<lambda>b. b\<lparr>b_refcnt := b_refcnt b + 1\<rparr>))
        (thn (rel LBcache) (thn (acquiresleep (SBuf i)) (ret i)))
     | None \<Rightarrow>
        (case find (\<lambda>i. b_refcnt (buf_at s i) = 0 \<and> \<not> b_dirty (buf_at s i)) (rev (blru s)) of
           Some i \<Rightarrow>
             thn (upd_buf i (\<lambda>b. b\<lparr>b_dev := dev, b_blockno := blockno, b_valid := False,
                    b_dirty := False, b_refcnt := 1\<rparr>))
            (thn (rel LBcache) (thn (acquiresleep (SBuf i)) (ret i)))
         | None \<Rightarrow> stop (Panic ''bget: no buffers''))))"

definition bread :: "nat \<Rightarrow> nat \<Rightarrow> ('z biost_scheme, nat) kfun" where
  "bread dev blockno =
     bnd (bget dev blockno) (\<lambda>i.
     bnd (rd (\<lambda>s. buf_at s i)) (\<lambda>b.
     thn (whn (\<not> b_valid b) (iderw i)) (ret i)))"

definition bwrite :: "nat \<Rightarrow> ('z biost_scheme, unit) kfun" where
  "bwrite i = bnd (holdingsleep (SBuf i)) (\<lambda>h.
     if \<not> h then stop (Panic ''bwrite'')
     else thn (upd_buf i (\<lambda>b. b\<lparr>b_dirty := True\<rparr>)) (iderw i))"

text \<open>\<open>refcnt\<close> is unsigned: a decrement below zero wraps around.\<close>

definition dec32 :: "nat \<Rightarrow> nat" where
  "dec32 n = (if n = 0 then 2 ^ 32 - 1 else n - 1)"

definition brelse :: "nat \<Rightarrow> ('z biost_scheme, unit) kfun" where
  "brelse i = bnd (holdingsleep (SBuf i)) (\<lambda>h.
     if \<not> h then stop (Panic ''brelse'')
     else
       thn (releasesleep (SBuf i))
      (thn (acq LBcache)
      (thn (upd_buf i (\<lambda>b. b\<lparr>b_refcnt := dec32 (b_refcnt b)\<rparr>))
      (bnd (rd (\<lambda>s. buf_at s i)) (\<lambda>b.
       thn (whn (b_refcnt b = 0) (md (\<lambda>s. s\<lparr>blru := i # remove1 i (blru s)\<rparr>)))
           (rel LBcache))))))"

text \<open>Access to the contents of a buffer the caller holds.\<close>

definition bdata :: "nat \<Rightarrow> ('z biost_scheme, bytes) kfun" where
  "bdata i = rd (\<lambda>s. b_data (buf_at s i))"

definition set_bdata :: "nat \<Rightarrow> bytes \<Rightarrow> ('z biost_scheme, unit) kfun" where
  "set_bdata i d = upd_buf i (\<lambda>b. b\<lparr>b_data := d\<rparr>)"

section \<open>Invariant and logical contents\<close>

text \<open>All file system traffic is on device 1 (\<open>ROOTDEV\<close>).  A buffer is unused (device 0) or
  names a block of device 1, and no block has two buffers.  A buffer nobody holds agrees
  with the disk unless it is dirty.  On the path of one process a buffer has at most one
  user, who also holds its sleep lock.\<close>

definition buf_ok :: "'z biost_scheme \<Rightarrow> nat \<Rightarrow> bool" where
  "buf_ok s i \<longleftrightarrow> (let b = buf_at s i in
     (b_dev b = 0 \<longrightarrow> \<not> b_valid b \<and> \<not> b_dirty b \<and> b_refcnt b = 0) \<and>
     (b_dev b \<noteq> 0 \<longrightarrow> b_dev b = 1 \<and> b_blockno b < FSSIZE) \<and>
     (b_dirty b \<longrightarrow> b_valid b) \<and>
     (b_valid b \<longrightarrow> length (b_data b) = BSIZE) \<and>
     (b_valid b \<and> \<not> b_dirty b \<and> b_refcnt b = 0 \<longrightarrow> b_data b = disk s 1 (b_blockno b)) \<and>
     b_refcnt b \<le> 1 \<and> (0 < b_refcnt b \<longrightarrow> b_valid b) \<and>
     slocks s (SBuf i) = (if b_refcnt b = 0 then \<lparr>sl_locked = False, sl_pid = 0\<rparr>
                          else \<lparr>sl_locked = True, sl_pid = mypid s\<rparr>))"

definition bio_ok :: "'z biost_scheme \<Rightarrow> bool" where
  "bio_ok s \<longleftrightarrow> length (bufs s) = NBUF \<and> distinct (blru s) \<and> set (blru s) = {..<NBUF} \<and>
     (\<forall>i < NBUF. buf_ok s i) \<and>
     (\<forall>i < NBUF. \<forall>j < NBUF. i \<noteq> j \<longrightarrow> b_dev (buf_at s i) \<noteq> 0 \<longrightarrow>
        b_dev (buf_at s j) \<noteq> 0 \<longrightarrow> b_blockno (buf_at s i) \<noteq> b_blockno (buf_at s j)) \<and>
     (\<forall>b. length (disk s 1 b) = BSIZE) \<and>
     idequeue s = [] \<and> havedisk1 s \<and> held s = {}"

text \<open>The buffer of a block, the contents a reader of the block sees, the blocks pinned in
  the cache, and the blocks whose buffer is in use.\<close>

definition slot :: "'z biost_scheme \<Rightarrow> nat \<Rightarrow> nat option" where
  "slot s b = find (\<lambda>i. b_dev (buf_at s i) = 1 \<and> b_blockno (buf_at s i) = b) (blru s)"

definition blk :: "'z biost_scheme \<Rightarrow> nat \<Rightarrow> bytes" where
  "blk s b = (case slot s b of None \<Rightarrow> disk s 1 b
     | Some i \<Rightarrow> if b_valid (buf_at s i) then b_data (buf_at s i) else disk s 1 b)"

definition is_dirty :: "'z biost_scheme \<Rightarrow> nat \<Rightarrow> bool" where
  "is_dirty s b \<longleftrightarrow> (case slot s b of None \<Rightarrow> False | Some i \<Rightarrow> b_dirty (buf_at s i))"

definition busy :: "'z biost_scheme \<Rightarrow> nat \<Rightarrow> nat option" where
  "busy s b = (case slot s b of None \<Rightarrow> None
     | Some i \<Rightarrow> if 0 < b_refcnt (buf_at s i) then Some i else None)"

definition can_recycle :: "'z biost_scheme \<Rightarrow> bool" where
  "can_recycle s \<longleftrightarrow> (\<exists>i < NBUF. b_refcnt (buf_at s i) = 0 \<and> \<not> b_dirty (buf_at s i))"

text \<open>These views read only the fields of the cache.\<close>

lemma views_cong:
  assumes "bufs s' = bufs s" "blru s' = blru s"
  shows slot_cong: "slot s' = slot s" and is_dirty_cong: "is_dirty s' = is_dirty s"
    and busy_cong: "busy s' = busy s"
    and blk_cong: "disk s' = disk s \<Longrightarrow> blk s' = blk s"
  unfolding fun_eq_iff slot_def is_dirty_def busy_def blk_def assms by (simp_all split: option.split)

lemma bio_ok_cong:
  assumes "bufs s' = bufs s" "blru s' = blru s" "disk s' = disk s" "slocks s' = slocks s"
    "mypid s' = mypid s" "idequeue s' = idequeue s" "havedisk1 s' = havedisk1 s" "held s' = held s"
  shows "bio_ok s' = bio_ok s"
  unfolding bio_ok_def buf_ok_def assms ..

lemma find_SomeD: "find P xs = Some i \<Longrightarrow> i \<in> set xs \<and> P i"
  by (auto simp: find_Some_iff)

lemma find_unique:
  assumes "i \<in> set xs" "P i" and uniq: "\<And>j. j \<in> set xs \<Longrightarrow> P j \<Longrightarrow> j = i"
  shows "find P xs = Some i"
proof -
  from assms(1,2) obtain j where "find P xs = Some j"
    by (cases "find P xs") (auto simp: find_None_iff)
  moreover from this have "j \<in> set xs" "P j" by (auto simp: find_Some_iff)
  ultimately show ?thesis using uniq by metis
qed

lemma bio_ok_lru: "bio_ok s \<Longrightarrow> i \<in> set (blru s) \<longleftrightarrow> i < NBUF"
  by (simp add: bio_ok_def)

lemma slot_Some_iff:
  assumes "bio_ok s"
  shows "slot s b = Some i \<longleftrightarrow> i < NBUF \<and> b_dev (buf_at s i) = 1 \<and> b_blockno (buf_at s i) = b"
proof
  assume "slot s b = Some i"
  then show "i < NBUF \<and> b_dev (buf_at s i) = 1 \<and> b_blockno (buf_at s i) = b"
    using assms by (auto simp: slot_def find_Some_iff bio_ok_lru [OF assms, symmetric])
next
  assume i: "i < NBUF \<and> b_dev (buf_at s i) = 1 \<and> b_blockno (buf_at s i) = b"
  show "slot s b = Some i"
    unfolding slot_def
  proof (rule find_unique)
    fix j assume "j \<in> set (blru s)" "b_dev (buf_at s j) = 1 \<and> b_blockno (buf_at s j) = b"
    with i assms show "j = i"
      using bio_ok_lru [OF assms] by (metis bio_ok_def one_neq_zero)
  qed (use i bio_ok_lru [OF assms] in auto)
qed

lemma slot_None_iff:
  "bio_ok s \<Longrightarrow> slot s b = None \<longleftrightarrow>
     (\<forall>i < NBUF. \<not> (b_dev (buf_at s i) = 1 \<and> b_blockno (buf_at s i) = b))"
  by (auto simp: slot_def find_None_iff bio_ok_lru)

lemma bio_ok_buf: "bio_ok s \<Longrightarrow> i < NBUF \<Longrightarrow> buf_ok s i"
  by (simp add: bio_ok_def)

section \<open>Synchronising a buffer with the disk\<close>

lemma iderw_read:
  assumes "held s = {}" "slocks s (SBuf i) = \<lparr>sl_locked = True, sl_pid = mypid s\<rparr>"
    and "\<not> b_valid (buf_at s i)" "\<not> b_dirty (buf_at s i)" "havedisk1 s" "idequeue s = []"
    and "b_blockno (buf_at s i) < FSSIZE" "i < length (bufs s)"
  shows "iderw i s = Inr ((), s\<lparr>bufs := (bufs s)[i := (buf_at s i)\<lparr>
    b_data := disk s (b_dev (buf_at s i) mod 2) (b_blockno (buf_at s i)),
    b_valid := True, b_dirty := False\<rparr>]\<rparr>)"
  using assms
  by (cases s) (simp add: iderw_def holdingsleep_apply idestart_def ideintr_def upd_buf_def)

lemma iderw_write:
  assumes "held s = {}" "slocks s (SBuf i) = \<lparr>sl_locked = True, sl_pid = mypid s\<rparr>"
    and "b_dirty (buf_at s i)" "havedisk1 s" "idequeue s = []"
    and "b_blockno (buf_at s i) < FSSIZE" "i < length (bufs s)"
  shows "iderw i s = (let b = buf_at s i; d = b_dev b mod 2 in Inr ((), s\<lparr>
    bufs := (bufs s)[i := b\<lparr>b_valid := True, b_dirty := False\<rparr>],
    disk := (disk s)(d := (disk s d)(b_blockno b := b_data b)),
    dwrites := dwrites s @ [(d, b_blockno b, b_data b)]\<rparr>))"
  using assms
  by (simp add: iderw_def holdingsleep_apply idestart_def ideintr_def upd_buf_def disk_write_def
      Let_def)

section \<open>Getting a buffer\<close>

text \<open>The state after buffer \<open>i\<close> became \<open>b\<close> and its sleep lock was taken.\<close>

definition take_buf :: "nat \<Rightarrow> buf \<Rightarrow> 'z biost_scheme \<Rightarrow> 'z biost_scheme" where
  "take_buf i b s = s\<lparr>bufs := (bufs s)[i := b],
     slocks := (slocks s)(SBuf i := \<lparr>sl_locked = True, sl_pid = mypid s\<rparr>)\<rparr>"

definition read_buf :: "'z biost_scheme \<Rightarrow> nat \<Rightarrow> buf" where
  "read_buf s b = \<lparr>b_valid = True, b_dirty = is_dirty s b, b_dev = 1, b_blockno = b,
     b_refcnt = 1, b_data = blk s b\<rparr>"

lemma read_buf_simps [simp]:
  "b_valid (read_buf s b)" "b_dirty (read_buf s b) = is_dirty s b" "b_dev (read_buf s b) = 1"
  "b_blockno (read_buf s b) = b" "b_refcnt (read_buf s b) = 1" "b_data (read_buf s b) = blk s b"
  by (simp_all add: read_buf_def)

lemma bget_cached:
  assumes ok: "bio_ok s" and i: "slot s b = Some i" and free: "b_refcnt (buf_at s i) = 0"
  shows "bget 1 b s = Inr (i, take_buf i ((buf_at s i)\<lparr>b_refcnt := 1\<rparr>) s)"
proof -
  have "i < NBUF" using ok i by (simp add: slot_Some_iff)
  then have "slocks s (SBuf i) = \<lparr>sl_locked = False, sl_pid = 0\<rparr>"
    using bio_ok_buf [OF ok] free by (simp add: buf_ok_def Let_def)
  moreover have "held s = {}" using ok by (simp add: bio_ok_def)
  ultimately show ?thesis
    using i free
    by (simp add: bget_def slot_def upd_buf_def acquiresleep_apply take_buf_def)
qed

lemma bget_recycle:
  assumes ok: "bio_ok s" and none: "slot s b = None" and "can_recycle s"
  shows "\<exists>i < NBUF. b_refcnt (buf_at s i) = 0 \<and> \<not> b_dirty (buf_at s i) \<and>
    bget 1 b s = Inr (i, take_buf i ((buf_at s i)\<lparr>b_dev := 1, b_blockno := b, b_valid := False,
      b_dirty := False, b_refcnt := 1\<rparr>) s)"
proof -
  let ?P = "\<lambda>i. b_refcnt (buf_at s i) = 0 \<and> \<not> b_dirty (buf_at s i)"
  obtain i where i: "find ?P (rev (blru s)) = Some i"
    using assms(3) bio_ok_lru [OF ok] by (cases "find ?P (rev (blru s))")
      (auto simp: find_None_iff can_recycle_def)
  then have "i \<in> set (rev (blru s))" "?P i" by (auto dest: find_SomeD)
  then have lt: "i < NBUF" and P: "?P i" using bio_ok_lru [OF ok] by auto
  then have "slocks s (SBuf i) = \<lparr>sl_locked = False, sl_pid = 0\<rparr>"
    using bio_ok_buf [OF ok] by (simp add: buf_ok_def Let_def)
  moreover have "held s = {}" using ok by (simp add: bio_ok_def)
  ultimately have "bget 1 b s = Inr (i, take_buf i ((buf_at s i)\<lparr>b_dev := 1, b_blockno := b,
      b_valid := False, b_dirty := False, b_refcnt := 1\<rparr>) s)"
    using i none
    by (simp add: bget_def slot_def upd_buf_def acquiresleep_apply take_buf_def)
  with lt P show ?thesis by blast
qed

lemma iderw_take_buf:
  assumes ok: "bio_ok s" and lt: "i < NBUF" and b: "b_dev b = 1" "b_blockno b < FSSIZE"
    "\<not> b_valid b" "\<not> b_dirty b"
  shows "iderw i (take_buf i b s) = Inr ((), take_buf i
    (b\<lparr>b_data := disk s 1 (b_blockno b), b_valid := True, b_dirty := False\<rparr>) s)"
proof -
  have "held s = {}" "idequeue s = []" "havedisk1 s" "i < length (bufs s)"
    using ok lt by (simp_all add: bio_ok_def)
  then show ?thesis
    using b by (subst iderw_read) (simp_all add: take_buf_def)
qed

lemma bread_ok:
  assumes ok: "bio_ok s" and b: "b < FSSIZE" and "busy s b = None"
    and "slot s b \<noteq> None \<or> can_recycle s"
  shows "\<exists>i < NBUF. bread 1 b s = Inr (i, take_buf i (read_buf s b) s) \<and>
    b_refcnt (buf_at s i) = 0 \<and> (slot s b = Some i \<or> slot s b = None \<and> \<not> b_dirty (buf_at s i))"
proof (cases "slot s b")
  case (Some i)
  then have lt: "i < NBUF" and i: "b_dev (buf_at s i) = 1" "b_blockno (buf_at s i) = b"
    using ok by (simp_all add: slot_Some_iff)
  have free: "b_refcnt (buf_at s i) = 0"
    using assms(3) Some by (simp add: busy_def split: if_splits)
  let ?b = "(buf_at s i)\<lparr>b_refcnt := 1\<rparr>"
  have at: "buf_at (take_buf i ?b s) i = ?b"
    using ok lt by (simp add: take_buf_def bio_ok_def)
  show ?thesis
  proof (cases "b_valid (buf_at s i)")
    case True
    then have "?b = read_buf s b"
      using Some i by (cases "buf_at s i") (simp add: read_buf_def blk_def is_dirty_def)
    with True bget_cached [OF ok Some free] at lt free Some show ?thesis
      by (auto simp: bread_def)
  next
    case False
    then have nd: "\<not> b_dirty (buf_at s i)"
      using bio_ok_buf [OF ok lt] by (auto simp: buf_ok_def Let_def)
    have "?b\<lparr>b_data := disk s 1 (b_blockno ?b), b_valid := True, b_dirty := False\<rparr> = read_buf s b"
      using False Some i nd by (cases "buf_at s i") (simp add: read_buf_def blk_def is_dirty_def)
    with False nd bget_cached [OF ok Some free] at lt free Some i b
      iderw_take_buf [OF ok lt, of ?b] show ?thesis
      by (auto simp: bread_def)
  qed
next
  case None
  then obtain i where lt: "i < NBUF" and i: "b_refcnt (buf_at s i) = 0" "\<not> b_dirty (buf_at s i)"
    and g: "bget 1 b s = Inr (i, take_buf i ((buf_at s i)\<lparr>b_dev := 1, b_blockno := b,
      b_valid := False, b_dirty := False, b_refcnt := 1\<rparr>) s)"
    using bget_recycle [OF ok None] assms(4) by auto
  let ?b = "(buf_at s i)\<lparr>b_dev := 1, b_blockno := b, b_valid := False, b_dirty := False, b_refcnt := 1\<rparr>"
  have at: "buf_at (take_buf i ?b s) i = ?b"
    using ok lt by (simp add: take_buf_def bio_ok_def)
  have "?b\<lparr>b_data := disk s 1 (b_blockno ?b), b_valid := True, b_dirty := False\<rparr> = read_buf s b"
    using None by (cases "buf_at s i") (simp add: read_buf_def blk_def is_dirty_def)
  with g at lt i None b iderw_take_buf [OF ok lt, of ?b] show ?thesis
    by (auto simp: bread_def)
qed

section \<open>Effect of a change to one buffer\<close>

text \<open>\<open>bio_frame s s'\<close>: only the fields of the cache and the disk differ, and no sleep lock of
  another kind.\<close>

definition bio_frame :: "'z biost_scheme \<Rightarrow> 'z biost_scheme \<Rightarrow> bool" where
  "bio_frame s s' \<longleftrightarrow> (\<exists>bs sl lr dk dw. s' = s\<lparr>bufs := bs, slocks := sl, blru := lr, disk := dk,
     dwrites := dw\<rparr>) \<and> (\<forall>k. slocks s' (SInode k) = slocks s (SInode k))"

lemma bio_frameI:
  "s' = s\<lparr>bufs := bs, slocks := sl, blru := lr, disk := dk, dwrites := dw\<rparr> \<Longrightarrow>
   (\<And>k. sl (SInode k) = slocks s (SInode k)) \<Longrightarrow> bio_frame s s'"
  unfolding bio_frame_def by fastforce

lemma bio_frame_refl [simp]: "bio_frame s s"
  by (rule bio_frameI [where bs = "bufs s" and sl = "slocks s" and lr = "blru s" and dk = "disk s" and dw = "dwrites s"]) simp_all

lemma bio_frame_trans [trans]: "bio_frame s t \<Longrightarrow> bio_frame t u \<Longrightarrow> bio_frame s u"
  unfolding bio_frame_def by fastforce

lemma bio_frame_kstate:
  "bio_frame s s' \<Longrightarrow> mypid s' = mypid s \<and> held s' = held s \<and> idequeue s' = idequeue s \<and>
     havedisk1 s' = havedisk1 s \<and> slocks s' (SInode k) = slocks s (SInode k)"
  by (auto simp: bio_frame_def)

lemma bio_change:
  assumes ok: "bio_ok s" and i: "i < NBUF" and bufs': "bufs s' = (bufs s)[i := b]"
    and lru: "distinct (blru s')" "set (blru s') = {..<NBUF}"
    and frame: "mypid s' = mypid s" "idequeue s' = []" "havedisk1 s'" "held s' = {}"
    and sl: "\<And>j. j \<noteq> i \<Longrightarrow> slocks s' (SBuf j) = slocks s (SBuf j)"
    and dk: "\<And>c. c \<noteq> b_blockno b \<Longrightarrow> disk s' 1 c = disk s 1 c" "length (disk s' 1 (b_blockno b)) = BSIZE"
    and bi: "buf_ok s' i" "b_dev b = 1"
    and uniq: "\<And>j. j < NBUF \<Longrightarrow> j \<noteq> i \<Longrightarrow> b_dev (buf_at s j) \<noteq> 0 \<Longrightarrow>
      b_blockno (buf_at s j) \<noteq> b_blockno b"
  shows bio_change_ok: "bio_ok s'"
    and bio_change_slot: "slot s' c = (if c = b_blockno b then Some i
           else if slot s c = Some i then None else slot s c)"
proof -
  have len: "length (bufs s) = NBUF" using ok by (simp add: bio_ok_def)
  have at: "buf_at s' j = (if j = i then b else buf_at s j)" for j
    using i len by (simp add: bufs')
  have "buf_ok s' j" if "j < NBUF" for j
  proof (cases "j = i")
    case False
    from bio_ok_buf [OF ok that] have "buf_ok s j" .
    moreover have "b_dev (buf_at s j) \<noteq> 0 \<Longrightarrow> disk s' 1 (b_blockno (buf_at s j)) = disk s 1 (b_blockno (buf_at s j))"
      using uniq [OF that False] dk(1) by blast
    ultimately show ?thesis
      using False sl [OF False] frame by (auto simp: buf_ok_def at Let_def)
  qed (use bi in simp)
  moreover have "length (disk s' 1 c) = BSIZE" for c
    using ok dk by (cases "c = b_blockno b") (auto simp: bio_ok_def)
  moreover have "b_blockno (buf_at s' j) \<noteq> b_blockno (buf_at s' k)"
    if "j < NBUF" "k < NBUF" "j \<noteq> k" "b_dev (buf_at s' j) \<noteq> 0" "b_dev (buf_at s' k) \<noteq> 0" for j k
  proof -
    from that consider "j = i" "k \<noteq> i" | "k = i" "j \<noteq> i" | "j \<noteq> i" "k \<noteq> i" by blast
    then show ?thesis
    proof cases
      case 1
      then show ?thesis using that uniq [of k] by (auto simp: at)
    next
      case 2
      then show ?thesis using that uniq [of j] by (auto simp: at)
    next
      case 3
      then show ?thesis using that ok by (simp add: at bio_ok_def)
    qed
  qed
  ultimately show ok': "bio_ok s'"
    using lru frame len bufs' by (simp add: bio_ok_def)
  show "slot s' c = (if c = b_blockno b then Some i
           else if slot s c = Some i then None else slot s c)"
  proof (cases "c = b_blockno b")
    case True
    then show ?thesis using i bi by (simp add: slot_Some_iff [OF ok'] at)
  next
    case False
    have iff: "slot s' c = Some j \<longleftrightarrow> slot s c = Some j \<and> j \<noteq> i" for j
      using False by (auto simp: slot_Some_iff [OF ok'] slot_Some_iff [OF ok] at)
    show ?thesis
    proof (cases "slot s c")
      case None
      then have "slot s' c \<noteq> Some j" for j using iff [of j] by simp
      with False None show ?thesis by (cases "slot s' c") auto
    next
      case (Some j)
      show ?thesis
      proof (cases "j = i")
        case True
        then have "slot s' c \<noteq> Some k" for k using iff [of k] Some by simp
        with False Some True show ?thesis by (cases "slot s' c") auto
      qed (use False Some iff [of j] in simp)
    qed
  qed
qed

section \<open>The operations on the logical contents\<close>

lemma busy_Some_iff:
  "bio_ok s \<Longrightarrow> busy s b = Some i \<longleftrightarrow> slot s b = Some i \<and> 0 < b_refcnt (buf_at s i)"
  by (auto simp: busy_def split: option.splits)

lemma busy_facts:
  assumes ok: "bio_ok s" and bz: "busy s b = Some i"
  shows "i < NBUF" "slot s b = Some i" "b_dev (buf_at s i) = 1" "b_blockno (buf_at s i) = b"
    "b_refcnt (buf_at s i) = 1" "b_valid (buf_at s i)" "b < FSSIZE"
    "slocks s (SBuf i) = \<lparr>sl_locked = True, sl_pid = mypid s\<rparr>"
    "blk s b = b_data (buf_at s i)" "is_dirty s b = b_dirty (buf_at s i)"
    "length (blk s b) = BSIZE"
proof -
  show sl: "slot s b = Some i" using bz by (simp add: busy_Some_iff [OF ok])
  then show i: "i < NBUF" "b_dev (buf_at s i) = 1" "b_blockno (buf_at s i) = b"
    using ok by (simp_all add: slot_Some_iff)
  have "0 < b_refcnt (buf_at s i)" using bz by (simp add: busy_Some_iff [OF ok])
  with bio_ok_buf [OF ok i(1)] i show "b_refcnt (buf_at s i) = 1" "b_valid (buf_at s i)" "b < FSSIZE"
    "slocks s (SBuf i) = \<lparr>sl_locked = True, sl_pid = mypid s\<rparr>"
    by (auto simp: buf_ok_def Let_def)
  with sl show "blk s b = b_data (buf_at s i)" "is_dirty s b = b_dirty (buf_at s i)"
    by (simp_all add: blk_def is_dirty_def)
  with \<open>b_valid (buf_at s i)\<close> bio_ok_buf [OF ok i(1)] show "length (blk s b) = BSIZE"
    by (simp add: buf_ok_def Let_def)
qed

lemma length_blk: "bio_ok s \<Longrightarrow> length (blk s b) = BSIZE"
proof (cases "slot s b")
  case (Some i)
  assume ok: "bio_ok s"
  with Some have "i < NBUF" by (simp add: slot_Some_iff)
  from bio_ok_buf [OF ok this] ok Some show ?thesis
    by (simp add: blk_def buf_ok_def Let_def bio_ok_def)
qed (simp add: blk_def bio_ok_def)

text \<open>Views after a change of buffer \<open>i\<close> to \<open>b\<close>, when the buffer it replaces held nothing a
  reader could miss.\<close>

lemma views_change:
  assumes ok: "bio_ok s" "i < NBUF" "bufs s' = (bufs s)[i := b]"
    and sl: "\<And>c. slot s' c = (if c = b_blockno b then Some i
           else if slot s c = Some i then None else slot s c)"
    and dk: "\<And>c. c \<noteq> b_blockno b \<Longrightarrow> disk s' 1 c = disk s 1 c"
    and old: "slot s (b_blockno b) = Some i \<or> \<not> b_dirty (buf_at s i) \<and> b_refcnt (buf_at s i) = 0"
    and b: "b_valid b"
  shows "blk s' = (blk s)(b_blockno b := b_data b)"
    "is_dirty s' = (is_dirty s)(b_blockno b := b_dirty b)"
    "busy s' = (busy s)(b_blockno b := (if 0 < b_refcnt b then Some i else None))"
proof -
  have at: "buf_at s' j = (if j = i then b else buf_at s j)" for j
    using ok by (simp add: bio_ok_def)
  have gone: "blk s c = disk s 1 c \<and> \<not> is_dirty s c \<and> busy s c = None"
    if "c \<noteq> b_blockno b" "slot s c = Some i" for c
  proof -
    from that(2) have c: "b_blockno (buf_at s i) = c" "b_dev (buf_at s i) = 1"
      by (simp_all add: slot_Some_iff [OF ok(1)])
    have "\<not> b_dirty (buf_at s i) \<and> b_refcnt (buf_at s i) = 0"
      using old c that by (auto simp: slot_Some_iff [OF ok(1)])
    with that c bio_ok_buf [OF ok(1,2)] show ?thesis
      by (auto simp: blk_def is_dirty_def busy_def buf_ok_def Let_def)
  qed
  have "blk s' c = ((blk s)(b_blockno b := b_data b)) c \<and>
     is_dirty s' c = ((is_dirty s)(b_blockno b := b_dirty b)) c \<and>
     busy s' c = ((busy s)(b_blockno b := (if 0 < b_refcnt b then Some i else None))) c" for c
  proof (cases "c = b_blockno b")
    case True
    then show ?thesis using b by (simp add: blk_def is_dirty_def busy_def sl at)
  next
    case False
    show ?thesis
    proof (cases "slot s c = Some i")
      case True
      with False gone [OF False True] dk show ?thesis
        by (simp add: blk_def is_dirty_def busy_def sl)
    next
      case neq: False
      with False dk show ?thesis
        by (auto simp: blk_def is_dirty_def busy_def sl at split: option.splits)
    qed
  qed
  then show "blk s' = (blk s)(b_blockno b := b_data b)"
    "is_dirty s' = (is_dirty s)(b_blockno b := b_dirty b)"
    "busy s' = (busy s)(b_blockno b := (if 0 < b_refcnt b then Some i else None))"
    by auto
qed

lemma bread_spec:
  assumes ok: "bio_ok s" and b: "b < FSSIZE" "busy s b = None" "slot s b \<noteq> None \<or> can_recycle s"
  shows "\<exists>i s'. bread 1 b s = Inr (i, s') \<and> bio_ok s' \<and> bio_frame s s' \<and>
     blk s' = blk s \<and> is_dirty s' = is_dirty s \<and> busy s' = (busy s)(b := Some i) \<and>
     disk s' = disk s \<and> dwrites s' = dwrites s"
proof -
  from bread_ok [OF assms] obtain i where i: "i < NBUF"
    and r: "bread 1 b s = Inr (i, take_buf i (read_buf s b) s)" and ref: "b_refcnt (buf_at s i) = 0"
    and old: "slot s b = Some i \<or> slot s b = None \<and> \<not> b_dirty (buf_at s i)"
    by blast
  let ?s' = "take_buf i (read_buf s b) s"
  have bufs': "bufs ?s' = (bufs s)[i := read_buf s b]" by (simp add: take_buf_def)
  have len: "length (bufs s) = NBUF" using ok by (simp add: bio_ok_def)
  have bi: "buf_ok ?s' i"
    using i len b length_blk [OF ok, of b]
    by (simp add: buf_ok_def take_buf_def)
  have uniq: "b_blockno (buf_at s j) \<noteq> b" if "j < NBUF" "j \<noteq> i" "b_dev (buf_at s j) \<noteq> 0" for j
  proof
    assume "b_blockno (buf_at s j) = b"
    with that bio_ok_buf [OF ok that(1)] have "slot s b = Some j"
      by (simp add: slot_Some_iff [OF ok] buf_ok_def Let_def)
    with old that show False by auto
  qed
  have facts: "distinct (blru ?s')" "set (blru ?s') = {..<NBUF}" "mypid ?s' = mypid s"
    "idequeue ?s' = []" "havedisk1 ?s'" "held ?s' = {}"
    using ok by (simp_all add: take_buf_def bio_ok_def)
  have sl: "slocks ?s' (SBuf j) = slocks s (SBuf j)" if "j \<noteq> i" for j
    using that by (simp add: take_buf_def)
  have dk: "disk ?s' 1 c = disk s 1 c" for c by (simp add: take_buf_def)
  have dl: "length (disk ?s' 1 c) = BSIZE" for c using ok by (simp add: take_buf_def bio_ok_def)
  note ch = bio_change [OF ok i bufs' facts sl dk dl bi]
  have ok': "bio_ok ?s'" using uniq by (intro ch(1)) auto
  have sl': "slot ?s' c = (if c = b_blockno (read_buf s b) then Some i
           else if slot s c = Some i then None else slot s c)" for c
    using uniq by (intro ch(2)) auto
  from views_change [OF ok i bufs' sl' dk] old ref have
    "blk ?s' = blk s" "is_dirty ?s' = is_dirty s" "busy ?s' = (busy s)(b := Some i)"
    by auto
  moreover have "bio_frame s ?s'"
    by (rule bio_frameI [where bs = "bufs ?s'" and sl = "slocks ?s'" and lr = "blru s" and dk = "disk s" and dw = "dwrites s"])
      (simp_all add: take_buf_def)
  moreover have "disk ?s' = disk s" "dwrites ?s' = dwrites s" by (simp_all add: take_buf_def)
  ultimately show ?thesis using r ok' by blast
qed

lemma busy_change:
  assumes ok: "bio_ok s" and bz: "busy s b = Some i" and bufs': "bufs s' = (bufs s)[i := c]"
    and c: "b_dev c = 1" "b_blockno c = b" "b_valid c" "b_refcnt c = 1" "length (b_data c) = BSIZE"
    and same: "blru s' = blru s" "mypid s' = mypid s" "idequeue s' = idequeue s"
      "havedisk1 s' = havedisk1 s" "held s' = held s" "slocks s' = slocks s"
    and dk: "\<And>x. x \<noteq> b \<Longrightarrow> disk s' 1 x = disk s 1 x" "length (disk s' 1 b) = BSIZE"
  shows "bio_ok s'" "blk s' = (blk s)(b := b_data c)"
    "is_dirty s' = (is_dirty s)(b := b_dirty c)" "busy s' = busy s"
proof -
  note f = busy_facts [OF ok bz]
  have len: "length (bufs s) = NBUF" using ok by (simp add: bio_ok_def)
  have bi: "buf_ok s' i" using f len c same by (simp add: buf_ok_def bufs')
  have uniq: "b_blockno (buf_at s j) \<noteq> b" if "j < NBUF" "j \<noteq> i" "b_dev (buf_at s j) \<noteq> 0" for j
    using that ok f by (auto simp: bio_ok_def)
  have facts: "distinct (blru s')" "set (blru s') = {..<NBUF}" "mypid s' = mypid s"
    "idequeue s' = []" "havedisk1 s'" "held s' = {}"
    using ok same by (simp_all add: bio_ok_def)
  have dk': "disk s' 1 x = disk s 1 x" if "x \<noteq> b_blockno c" for x using dk(1) c that by simp
  have dl: "length (disk s' 1 (b_blockno c)) = BSIZE" using dk(2) c by simp
  note ch = bio_change [OF ok f(1) bufs' facts _ dk' dl bi c(1)]
  show ok': "bio_ok s'" using uniq same c by (intro ch(1)) auto
  have sl': "slot s' x = (if x = b_blockno c then Some i
           else if slot s x = Some i then None else slot s x)" for x
    using uniq same c by (intro ch(2)) auto
  from views_change [OF ok f(1) bufs' sl' dk'] f c
  show "blk s' = (blk s)(b := b_data c)" "is_dirty s' = (is_dirty s)(b := b_dirty c)"
    by simp_all
  have "busy s' = (busy s)(b := Some i)"
    using views_change(3) [OF ok f(1) bufs' sl' dk'] f c by simp
  with bz show "busy s' = busy s" by (simp add: fun_upd_idem)
qed

lemma set_bdata_spec:
  assumes ok: "bio_ok s" and bz: "busy s b = Some i" and d: "length d = BSIZE"
  shows "\<exists>s'. set_bdata i d s = Inr ((), s') \<and> bio_ok s' \<and> bio_frame s s' \<and>
     blk s' = (blk s)(b := d) \<and> is_dirty s' = is_dirty s \<and> busy s' = busy s \<and>
     disk s' = disk s \<and> dwrites s' = dwrites s"
proof -
  note f = busy_facts [OF ok bz]
  let ?c = "(buf_at s i)\<lparr>b_data := d\<rparr>"
  let ?s' = "s\<lparr>bufs := (bufs s)[i := ?c]\<rparr>"
  have "bio_frame s ?s'"
    by (rule bio_frameI [where bs = "bufs ?s'" and sl = "slocks s" and lr = "blru s" and dk = "disk s" and dw = "dwrites s"]) simp_all
  moreover have "set_bdata i d s = Inr ((), ?s')" by (simp add: set_bdata_def upd_buf_def)
  moreover have len: "length (disk s 1 b) = BSIZE" using ok by (simp add: bio_ok_def)
  note bc = busy_change [OF ok bz, of ?s' ?c]
  have "bio_ok ?s'" "blk ?s' = (blk s)(b := d)" "busy ?s' = busy s" "is_dirty ?s' = is_dirty s"
    using bc f d len by (simp_all add: fun_upd_idem)
  ultimately show ?thesis by (intro exI [of _ ?s']) simp
qed

lemma mark_dirty_spec:
  assumes ok: "bio_ok s" and bz: "busy s b = Some i"
  shows "\<exists>s'. upd_buf i (\<lambda>c. c\<lparr>b_dirty := True\<rparr>) s = Inr ((), s') \<and> bio_ok s' \<and> bio_frame s s' \<and>
     blk s' = blk s \<and> is_dirty s' = (is_dirty s)(b := True) \<and> busy s' = busy s \<and>
     disk s' = disk s \<and> dwrites s' = dwrites s"
proof -
  note f = busy_facts [OF ok bz]
  let ?c = "(buf_at s i)\<lparr>b_dirty := True\<rparr>"
  let ?s' = "s\<lparr>bufs := (bufs s)[i := ?c]\<rparr>"
  have "bio_frame s ?s'"
    by (rule bio_frameI [where bs = "bufs ?s'" and sl = "slocks s" and lr = "blru s" and dk = "disk s" and dw = "dwrites s"]) simp_all
  moreover have "upd_buf i (\<lambda>c. c\<lparr>b_dirty := True\<rparr>) s = Inr ((), ?s')" by (simp add: upd_buf_def)
  moreover have len: "length (disk s 1 b) = BSIZE" using ok by (simp add: bio_ok_def)
  note bc = busy_change [OF ok bz, of ?s' ?c]
  have "bio_ok ?s'" "is_dirty ?s' = (is_dirty s)(b := True)" "busy ?s' = busy s" "blk ?s' = blk s"
    using bc f len by (simp_all add: fun_upd_idem)
  ultimately show ?thesis by (intro exI [of _ ?s']) simp
qed

lemma bwrite_spec:
  assumes ok: "bio_ok s" and bz: "busy s b = Some i"
  shows "\<exists>s'. bwrite i s = Inr ((), s') \<and> bio_ok s' \<and> bio_frame s s' \<and>
     blk s' = blk s \<and> is_dirty s' = (is_dirty s)(b := False) \<and> busy s' = busy s \<and>
     disk s' = (disk s)(1 := (disk s 1)(b := blk s b)) \<and>
     dwrites s' = dwrites s @ [(1, b, blk s b)]"
proof -
  note f = busy_facts [OF ok bz]
  have facts: "held s = {}" "idequeue s = []" "havedisk1 s" "length (bufs s) = NBUF"
    using ok by (simp_all add: bio_ok_def)
  let ?c = "(buf_at s i)\<lparr>b_dirty := False\<rparr>"
  let ?s' = "s\<lparr>bufs := (bufs s)[i := ?c], disk := (disk s)(1 := (disk s 1)(b := blk s b)),
     dwrites := dwrites s @ [(1, b, blk s b)]\<rparr>"
  let ?s1 = "s\<lparr>bufs := (bufs s)[i := (buf_at s i)\<lparr>b_dirty := True\<rparr>]\<rparr>"
  have c: "(buf_at s i)\<lparr>b_valid := True, b_dirty := False\<rparr> = ?c"
    using f(6) by (cases "buf_at s i") simp
  have "iderw i ?s1 = Inr ((), ?s')"
    using facts f by (subst iderw_write) (simp_all add: Let_def c)
  then have "bwrite i s = Inr ((), ?s')"
    using facts f(8) by (simp add: bwrite_def holdingsleep_apply upd_buf_def)
  moreover have "bio_frame s ?s'"
    by (rule bio_frameI [where bs = "bufs ?s'" and sl = "slocks s" and lr = "blru s"
          and dk = "disk ?s'" and dw = "dwrites ?s'"]) simp_all
  moreover note bc = busy_change [OF ok bz, of ?s' ?c]
  have "bio_ok ?s'" "is_dirty ?s' = (is_dirty s)(b := False)" "busy ?s' = busy s" "blk ?s' = blk s"
    using bc f by (simp_all add: fun_upd_idem)
  ultimately show ?thesis by (intro exI [of _ ?s']) simp
qed

text \<open>A buffer may be released when it is pinned by the log or agrees with the disk.\<close>

lemma brelse_spec:
  assumes ok: "bio_ok s" and bz: "busy s b = Some i" and clean: "is_dirty s b \<or> blk s b = disk s 1 b"
  shows "\<exists>s'. brelse i s = Inr ((), s') \<and> bio_ok s' \<and> bio_frame s s' \<and>
     blk s' = blk s \<and> is_dirty s' = is_dirty s \<and> busy s' = (busy s)(b := None) \<and>
     disk s' = disk s \<and> dwrites s' = dwrites s"
proof -
  note f = busy_facts [OF ok bz]
  have facts: "held s = {}" "idequeue s = []" "havedisk1 s" "length (bufs s) = NBUF"
    "distinct (blru s)" "set (blru s) = {..<NBUF}"
    using ok by (simp_all add: bio_ok_def)
  let ?c = "(buf_at s i)\<lparr>b_refcnt := 0\<rparr>"
  let ?s' = "s\<lparr>slocks := (slocks s)(SBuf i := \<lparr>sl_locked = False, sl_pid = 0\<rparr>),
     bufs := (bufs s)[i := ?c], blru := i # remove1 i (blru s)\<rparr>"
  have r: "brelse i s = Inr ((), ?s')"
    using facts f by (simp add: brelse_def holdingsleep_apply releasesleep_apply upd_buf_def dec32_def)
  have bufs': "bufs ?s' = (bufs s)[i := ?c]" by simp
  have lru: "distinct (blru ?s')" "set (blru ?s') = {..<NBUF}"
    using facts f(1) by auto
  have rest: "mypid ?s' = mypid s" "idequeue ?s' = []" "havedisk1 ?s'" "held ?s' = {}"
    using facts by simp_all
  have bi: "buf_ok ?s' i"
    using f facts(4) clean by (auto simp: buf_ok_def)
  have sl: "slocks ?s' (SBuf j) = slocks s (SBuf j)" if "j \<noteq> i" for j using that by simp
  have dk: "disk ?s' 1 x = disk s 1 x" for x by simp
  have dl: "length (disk ?s' 1 x) = BSIZE" for x using ok by (simp add: bio_ok_def)
  have uniq: "b_blockno (buf_at s j) \<noteq> b_blockno ?c" if "j < NBUF" "j \<noteq> i" "b_dev (buf_at s j) \<noteq> 0" for j
    using that ok f by (auto simp: bio_ok_def)
  have dev: "b_dev ?c = 1" using f by simp
  note ch = bio_change [OF ok f(1) bufs' lru rest sl dk dl bi dev uniq]
  have "blk ?s' = blk s" "is_dirty ?s' = is_dirty s" "busy ?s' = (busy s)(b := None)"
    using views_change [OF ok f(1) bufs' ch(2) dk] f by (simp_all add: fun_upd_idem)
  moreover have "bio_frame s ?s'"
    by (rule bio_frameI [where bs = "bufs ?s'" and sl = "slocks ?s'" and lr = "blru ?s'"
          and dk = "disk s" and dw = "dwrites s"]) simp_all
  ultimately show ?thesis using r ch(1) by (intro exI [of _ ?s']) simp
qed

section \<open>Running out of buffers\<close>

definition pinned :: "'z biost_scheme \<Rightarrow> nat set" where
  "pinned s = {b. is_dirty s b \<or> busy s b \<noteq> None}"

lemma pinned_iff:
  "bio_ok s \<Longrightarrow> b \<in> pinned s \<longleftrightarrow> (\<exists>i < NBUF. b_dev (buf_at s i) = 1 \<and> b_blockno (buf_at s i) = b \<and>
     (b_dirty (buf_at s i) \<or> 0 < b_refcnt (buf_at s i)))"
proof -
  assume ok: "bio_ok s"
  have "b \<in> pinned s \<longleftrightarrow> (\<exists>i. slot s b = Some i \<and> (b_dirty (buf_at s i) \<or> 0 < b_refcnt (buf_at s i)))"
    by (cases "slot s b") (auto simp: pinned_def is_dirty_def busy_def)
  then show ?thesis by (auto simp: slot_Some_iff [OF ok])
qed

lemma not_can_recycle:
  assumes ok: "bio_ok s" and "\<not> can_recycle s"
  shows "card (pinned s) = NBUF"
proof -
  let ?f = "\<lambda>i. b_blockno (buf_at s i)"
  have all: "b_dev (buf_at s i) = 1 \<and> (b_dirty (buf_at s i) \<or> 0 < b_refcnt (buf_at s i))"
    if "i < NBUF" for i
    using assms that bio_ok_buf [OF ok that] by (auto simp: can_recycle_def buf_ok_def Let_def)
  have "b \<in> pinned s \<longleftrightarrow> b \<in> ?f ` {..<NBUF}" for b
    using all unfolding pinned_iff [OF ok] image_iff by (metis lessThan_iff)
  then have "pinned s = ?f ` {..<NBUF}" by blast
  moreover have "inj_on ?f {..<NBUF}"
    using all ok by (intro inj_onI) (auto simp: bio_ok_def)
  ultimately show ?thesis by (simp add: card_image)
qed

lemma can_recycleI: "bio_ok s \<Longrightarrow> card (pinned s) < NBUF \<Longrightarrow> can_recycle s"
  using not_can_recycle by fastforce

lemma finite_pinned [simp]: "bio_ok s \<Longrightarrow> finite (pinned s)"
proof -
  assume ok: "bio_ok s"
  have "pinned s \<subseteq> (\<lambda>i. b_blockno (buf_at s i)) ` {..<NBUF}"
    by (auto simp: pinned_iff [OF ok])
  then show ?thesis by (rule finite_subset) simp
qed

end
