(* ===== verification/Block_Cache.thy ===== *)
theory Block_Cache
  imports Bio
begin

text \<open>
  The interface of the buffer cache as its clients (the log and the file system) rely on
  it: a state with the logical contents of every block, the pinned blocks, the blocks in
  use and the disk, and what each operation does to them.  The locale lemmas describe the
  access patterns of the clients once; the interpretation at the end discharges the laws
  for the cache of \<open>bio.c\<close>.
\<close>

locale block_cache =
  fixes inv :: "'s \<Rightarrow> bool"
    and cnt :: "'s \<Rightarrow> nat \<Rightarrow> bytes"
    and dirty :: "'s \<Rightarrow> nat \<Rightarrow> bool"
    and usr :: "'s \<Rightarrow> nat \<Rightarrow> nat option"
    and dsk :: "'s \<Rightarrow> nat \<Rightarrow> bytes"
    and hist :: "'s \<Rightarrow> (nat \<times> nat \<times> bytes) list"
    and frame :: "'s \<Rightarrow> 's \<Rightarrow> bool"
    and nblocks cap bsize :: nat
    and rdb :: "nat \<Rightarrow> ('s, nat) kfun"
    and getd :: "nat \<Rightarrow> ('s, bytes) kfun"
    and setd :: "nat \<Rightarrow> bytes \<Rightarrow> ('s, unit) kfun"
    and wrb relb :: "nat \<Rightarrow> ('s, unit) kfun"
  assumes rdb: "inv s \<Longrightarrow> b < nblocks \<Longrightarrow> usr s b = None \<Longrightarrow>
      dirty s b \<or> card {c. dirty s c \<or> usr s c \<noteq> None} < cap \<Longrightarrow>
      \<exists>i s'. rdb b s = Inr (i, s') \<and> inv s' \<and> frame s s' \<and> cnt s' = cnt s \<and>
        dirty s' = dirty s \<and> usr s' = (usr s)(b := Some i) \<and> dsk s' = dsk s \<and> hist s' = hist s"
    and getd: "inv s \<Longrightarrow> usr s b = Some i \<Longrightarrow> getd i s = Inr (cnt s b, s)"
    and setd: "inv s \<Longrightarrow> usr s b = Some i \<Longrightarrow> length d = bsize \<Longrightarrow>
      \<exists>s'. setd i d s = Inr ((), s') \<and> inv s' \<and> frame s s' \<and> cnt s' = (cnt s)(b := d) \<and>
        dirty s' = dirty s \<and> usr s' = usr s \<and> dsk s' = dsk s \<and> hist s' = hist s"
    and wrb: "inv s \<Longrightarrow> usr s b = Some i \<Longrightarrow>
      \<exists>s'. wrb i s = Inr ((), s') \<and> inv s' \<and> frame s s' \<and> cnt s' = cnt s \<and>
        dirty s' = (dirty s)(b := False) \<and> usr s' = usr s \<and>
        dsk s' = (dsk s)(b := cnt s b) \<and> hist s' = hist s @ [(1, b, cnt s b)]"
    and relb: "inv s \<Longrightarrow> usr s b = Some i \<Longrightarrow> dirty s b \<or> cnt s b = dsk s b \<Longrightarrow>
      \<exists>s'. relb i s = Inr ((), s') \<and> inv s' \<and> frame s s' \<and> cnt s' = cnt s \<and>
        dirty s' = dirty s \<and> usr s' = (usr s)(b := None) \<and> dsk s' = dsk s \<and> hist s' = hist s"
    and clean: "inv s \<Longrightarrow> \<not> dirty s b \<Longrightarrow> usr s b = None \<Longrightarrow> cnt s b = dsk s b"
    and len_cnt: "inv s \<Longrightarrow> length (cnt s b) = bsize"
    and fin: "inv s \<Longrightarrow> finite {c. dirty s c \<or> usr s c \<noteq> None}"
    and frame_refl: "frame s s"
    and frame_trans: "frame s t \<Longrightarrow> frame t u \<Longrightarrow> frame s u"
begin

definition room :: "'s \<Rightarrow> nat set \<Rightarrow> bool" where
  "room s B \<longleftrightarrow> card ({c. dirty s c \<or> usr s c \<noteq> None} \<union> B) \<le> cap"

definition idle :: "'s \<Rightarrow> bool" where
  "idle s \<longleftrightarrow> inv s \<and> usr s = (\<lambda>_. None)"

lemma room_rdb:
  assumes "inv s" "usr s b = None" "room s B" "b \<in> B" "finite B"
  shows "dirty s b \<or> card {c. dirty s c \<or> usr s c \<noteq> None} < cap"
proof (cases "dirty s b")
  case False
  let ?P = "{c. dirty s c \<or> usr s c \<noteq> None}"
  have "card (insert b ?P) \<le> card (?P \<union> B)"
    using assms fin by (intro card_mono) auto
  moreover have "card (insert b ?P) = Suc (card ?P)"
    using False assms fin by (intro card_insert_disjoint) auto
  ultimately show ?thesis using assms(3) by (simp add: room_def)
qed simp

text \<open>Read a block and release it: the caller gets its contents, and nothing changes.\<close>

lemma fetch:
  assumes "idle s" "b < nblocks" "room s {b}"
  shows "\<exists>s'. bnd (rdb b) (\<lambda>i. bnd (getd i) (\<lambda>d. thn (relb i) (ret (f d)))) s = Inr (f (cnt s b), s') \<and>
     idle s' \<and> frame s s' \<and> cnt s' = cnt s \<and> dirty s' = dirty s \<and> dsk s' = dsk s \<and> hist s' = hist s"
proof -
  from assms have inv: "inv s" and u: "usr s = (\<lambda>_. None)" by (simp_all add: idle_def)
  obtain i s1 where r1: "rdb b s = Inr (i, s1)" and s1: "inv s1" "frame s s1" "cnt s1 = cnt s"
    "dirty s1 = dirty s" "usr s1 = (usr s)(b := Some i)" "dsk s1 = dsk s" "hist s1 = hist s"
    using rdb [OF inv assms(2)] room_rdb [OF inv _ assms(3)] u by auto
  have ub: "usr s1 b = Some i" using s1 by simp
  have r2: "getd i s1 = Inr (cnt s b, s1)" using getd [OF s1(1) ub] s1 by simp
  have "dirty s1 b \<or> cnt s1 b = dsk s1 b"
    using clean [OF inv, of b] u s1 by auto
  then obtain s2 where r3: "relb i s1 = Inr ((), s2)" and s2: "inv s2" "frame s1 s2" "cnt s2 = cnt s1"
    "dirty s2 = dirty s1" "usr s2 = (usr s1)(b := None)" "dsk s2 = dsk s1" "hist s2 = hist s1"
    using relb [OF s1(1) ub] by auto
  have "usr s2 = (\<lambda>_. None)" using s1 s2 u by auto
  then show ?thesis
    using r1 r2 r3 s1 s2 frame_trans [OF s1(2) s2(2)] by (auto simp: idle_def)
qed

text \<open>Read a block, change it, write it through and release it.\<close>

lemma rewrite:
  assumes "idle s" "b < nblocks" "room s {b}" and g: "length (g (cnt s b)) = bsize"
  shows "\<exists>s'. bnd (rdb b) (\<lambda>i. bnd (getd i) (\<lambda>d. thn (setd i (g d)) (thn (wrb i) (relb i)))) s
      = Inr ((), s') \<and> idle s' \<and> frame s s' \<and> cnt s' = (cnt s)(b := g (cnt s b)) \<and>
     dirty s' = (dirty s)(b := False) \<and> dsk s' = (dsk s)(b := g (cnt s b)) \<and>
     hist s' = hist s @ [(1, b, g (cnt s b))]"
proof -
  from assms have inv: "inv s" and u: "usr s = (\<lambda>_. None)" by (simp_all add: idle_def)
  obtain i s1 where r1: "rdb b s = Inr (i, s1)" and s1: "inv s1" "frame s s1" "cnt s1 = cnt s"
    "dirty s1 = dirty s" "usr s1 = (usr s)(b := Some i)" "dsk s1 = dsk s" "hist s1 = hist s"
    using rdb [OF inv assms(2)] room_rdb [OF inv _ assms(3)] u by auto
  have ub: "usr s1 b = Some i" using s1 by simp
  have r2: "getd i s1 = Inr (cnt s b, s1)" using getd [OF s1(1) ub] s1 by simp
  obtain s2 where r3: "setd i (g (cnt s b)) s1 = Inr ((), s2)" and s2: "inv s2" "frame s1 s2"
    "cnt s2 = (cnt s1)(b := g (cnt s b))" "dirty s2 = dirty s1" "usr s2 = usr s1" "dsk s2 = dsk s1"
    "hist s2 = hist s1"
    using setd [OF s1(1) ub g] by auto
  have ub2: "usr s2 b = Some i" using s2 ub by simp
  obtain s3 where r4: "wrb i s2 = Inr ((), s3)" and s3: "inv s3" "frame s2 s3" "cnt s3 = cnt s2"
    "dirty s3 = (dirty s2)(b := False)" "usr s3 = usr s2" "dsk s3 = (dsk s2)(b := cnt s2 b)"
    "hist s3 = hist s2 @ [(1, b, cnt s2 b)]"
    using wrb [OF s2(1) ub2] by auto
  have ub3: "usr s3 b = Some i" using s3 ub2 by simp
  have "dirty s3 b \<or> cnt s3 b = dsk s3 b" using s3 by simp
  then obtain s4 where r5: "relb i s3 = Inr ((), s4)" and s4: "inv s4" "frame s3 s4" "cnt s4 = cnt s3"
    "dirty s4 = dirty s3" "usr s4 = (usr s3)(b := None)" "dsk s4 = dsk s3" "hist s4 = hist s3"
    using relb [OF s3(1) ub3] by auto
  have fr: "frame s s4"
    using frame_trans [OF s1(2) frame_trans [OF s2(2) frame_trans [OF s3(2) s4(2)]]] .
  have "usr s4 = (\<lambda>_. None)" using s1 s2 s3 s4 u by auto
  then show ?thesis
    using r1 r2 r3 r4 r5 s1 s2 s3 s4 fr by (auto simp: idle_def)
qed

lemma take2:
  assumes "idle s" "p < nblocks" "q < nblocks" "p \<noteq> q" "room s {p, q}"
  shows "\<exists>i j s1 s2. rdb p s = Inr (i, s1) \<and> rdb q s1 = Inr (j, s2) \<and> inv s2 \<and> frame s s2 \<and>
     cnt s2 = cnt s \<and> dirty s2 = dirty s \<and> usr s2 = (\<lambda>_. None)(p := Some i, q := Some j) \<and>
     dsk s2 = dsk s \<and> hist s2 = hist s"
proof -
  from assms have inv: "inv s" and u: "usr s = (\<lambda>_. None)" by (simp_all add: idle_def)
  obtain i s1 where r1: "rdb p s = Inr (i, s1)" and s1: "inv s1" "frame s s1" "cnt s1 = cnt s"
    "dirty s1 = dirty s" "usr s1 = (usr s)(p := Some i)" "dsk s1 = dsk s" "hist s1 = hist s"
    using rdb [OF inv assms(2)] room_rdb [OF inv _ assms(5)] u by auto
  have "{c. dirty s1 c \<or> usr s1 c \<noteq> None} \<union> {p, q} = {c. dirty s c \<or> usr s c \<noteq> None} \<union> {p, q}"
    using s1 by auto
  then have "room s1 {p, q}" using assms(5) by (simp add: room_def)
  moreover have uq: "usr s1 q = None" using s1 u assms(4) by simp
  ultimately obtain j s2 where "rdb q s1 = Inr (j, s2)" "inv s2" "frame s1 s2" "cnt s2 = cnt s1"
    "dirty s2 = dirty s1" "usr s2 = (usr s1)(q := Some j)" "dsk s2 = dsk s1" "hist s2 = hist s1"
    using rdb [OF s1(1) assms(3) uq] room_rdb [OF s1(1) uq] by auto
  with r1 s1 u frame_trans [OF s1(2)] show ?thesis by auto
qed

text \<open>Store \<open>d\<close> in a block in use and write it through.\<close>

lemma put_through:
  assumes "inv s" "usr s b = Some i" "length d = bsize"
  shows "\<exists>s1 s2. setd i d s = Inr ((), s1) \<and> wrb i s1 = Inr ((), s2) \<and> inv s2 \<and> frame s s2 \<and>
     cnt s2 = (cnt s)(b := d) \<and> dirty s2 = (dirty s)(b := False) \<and> usr s2 = usr s \<and>
     dsk s2 = (dsk s)(b := d) \<and> hist s2 = hist s @ [(1, b, d)]"
proof -
  obtain s1 where s1: "setd i d s = Inr ((), s1)" "inv s1" "frame s s1" "cnt s1 = (cnt s)(b := d)"
    "dirty s1 = dirty s" "usr s1 = usr s" "dsk s1 = dsk s" "hist s1 = hist s"
    using setd [OF assms] by blast
  moreover from wrb [OF s1(2), of b i] s1 assms(2) obtain s2 where "wrb i s1 = Inr ((), s2)" "inv s2"
    "frame s1 s2" "cnt s2 = cnt s1" "dirty s2 = (dirty s1)(b := False)" "usr s2 = usr s1"
    "dsk s2 = (dsk s1)(b := cnt s1 b)" "hist s2 = hist s1 @ [(1, b, cnt s1 b)]"
    by auto
  ultimately show ?thesis using frame_trans [of s s1 s2] by auto
qed

lemma release2:
  assumes "inv s" "usr s = (\<lambda>_. None)(p := Some i, q := Some j)" "p \<noteq> q"
    and "dirty s p \<or> cnt s p = dsk s p" "dirty s q \<or> cnt s q = dsk s q"
  shows "\<exists>s'. thn (relb i) (relb j) s = Inr ((), s') \<and> idle s' \<and> frame s s' \<and> cnt s' = cnt s \<and>
     dirty s' = dirty s \<and> dsk s' = dsk s \<and> hist s' = hist s"
proof -
  have "usr s p = Some i" using assms by simp
  from relb [OF assms(1) this assms(4)] obtain s1 where s1: "relb i s = Inr ((), s1)" "inv s1"
    "frame s s1" "cnt s1 = cnt s" "dirty s1 = dirty s" "usr s1 = (usr s)(p := None)" "dsk s1 = dsk s"
    "hist s1 = hist s" by blast
  moreover have "usr s1 q = Some j" using assms s1 by simp
  from relb [OF s1(2) this] assms(5) s1 obtain s2 where "relb j s1 = Inr ((), s2)" "inv s2"
    "frame s1 s2" "cnt s2 = cnt s1" "dirty s2 = dirty s1" "usr s2 = (usr s1)(q := None)"
    "dsk s2 = dsk s1" "hist s2 = hist s1" by auto
  moreover have "(usr s)(p := None, q := None) = (\<lambda>_. None)" using assms by auto
  ultimately show ?thesis using frame_trans [of s s1 s2] by (auto simp: idle_def)
qed

text \<open>The two copy patterns of the log: from the first block read to the second, and back.\<close>

lemma copy_to_second:
  assumes "idle s" "p < nblocks" "q < nblocks" "p \<noteq> q" "room s {p, q}"
  shows "\<exists>s'. (\<forall>m. bnd (rdb p) (\<lambda>i. bnd (rdb q) (\<lambda>j. bnd (getd i) (\<lambda>d.
       thn (setd j d) (thn (wrb j) (thn (relb i) (thn (relb j) m)))))) s = m s') \<and>
     idle s' \<and> frame s s' \<and> cnt s' = (cnt s)(q := cnt s p) \<and> dirty s' = (dirty s)(q := False) \<and>
     dsk s' = (dsk s)(q := cnt s p) \<and> hist s' = hist s @ [(1, q, cnt s p)]"
proof -
  obtain i j s1 s2 where r: "rdb p s = Inr (i, s1)" "rdb q s1 = Inr (j, s2)" and s2: "inv s2"
    "frame s s2" "cnt s2 = cnt s" "dirty s2 = dirty s" "usr s2 = (\<lambda>_. None)(p := Some i, q := Some j)"
    "dsk s2 = dsk s" "hist s2 = hist s"
    using take2 [OF assms] by blast
  have g: "getd i s2 = Inr (cnt s p, s2)" using getd [OF s2(1), of p i] s2 assms(4) by simp
  have uq: "usr s2 q = Some j" using s2 by simp
  have len: "length (cnt s p) = bsize" using len_cnt assms(1) by (simp add: idle_def)
  obtain s3 s4 where w: "setd j (cnt s p) s2 = Inr ((), s3)" "wrb j s3 = Inr ((), s4)" and s4: "inv s4"
    "frame s2 s4" "cnt s4 = (cnt s2)(q := cnt s p)" "dirty s4 = (dirty s2)(q := False)" "usr s4 = usr s2"
    "dsk s4 = (dsk s2)(q := cnt s p)" "hist s4 = hist s2 @ [(1, q, cnt s p)]"
    using put_through [OF s2(1) uq len] by blast
  have "dirty s p \<or> cnt s p = dsk s p" using clean [of s p] assms(1) by (auto simp: idle_def)
  then obtain s5 where rel: "thn (relb i) (relb j) s4 = Inr ((), s5)" and s5: "idle s5" "frame s4 s5"
    "cnt s5 = cnt s4" "dirty s5 = dirty s4" "dsk s5 = dsk s4" "hist s5 = hist s4"
    using release2 [OF s4(1), of p i q j] s4 s2 assms(4) by auto
  obtain s45 where "relb i s4 = Inr ((), s45)" "relb j s45 = Inr ((), s5)"
    using rel by (auto elim: bnd_eq_InrE)
  then show ?thesis
    using r g w s2 s4 s5 frame_trans [OF s2(2) frame_trans [OF s4(2) s5(2)]] by auto
qed

lemma copy_to_first:
  assumes "idle s" "p < nblocks" "q < nblocks" "p \<noteq> q" "room s {p, q}"
  shows "\<exists>s'. (\<forall>m. bnd (rdb p) (\<lambda>i. bnd (rdb q) (\<lambda>j. bnd (getd j) (\<lambda>d.
       thn (setd i d) (thn (wrb i) (thn (relb j) (thn (relb i) m)))))) s = m s') \<and>
     idle s' \<and> frame s s' \<and> cnt s' = (cnt s)(p := cnt s q) \<and> dirty s' = (dirty s)(p := False) \<and>
     dsk s' = (dsk s)(p := cnt s q) \<and> hist s' = hist s @ [(1, p, cnt s q)]"
proof -
  obtain i j s1 s2 where r: "rdb p s = Inr (i, s1)" "rdb q s1 = Inr (j, s2)" and s2: "inv s2"
    "frame s s2" "cnt s2 = cnt s" "dirty s2 = dirty s" "usr s2 = (\<lambda>_. None)(p := Some i, q := Some j)"
    "dsk s2 = dsk s" "hist s2 = hist s"
    using take2 [OF assms] by blast
  have g: "getd j s2 = Inr (cnt s q, s2)" using getd [OF s2(1), of q j] s2 by simp
  have up: "usr s2 p = Some i" using s2 assms(4) by simp
  have len: "length (cnt s q) = bsize" using len_cnt assms(1) by (simp add: idle_def)
  obtain s3 s4 where w: "setd i (cnt s q) s2 = Inr ((), s3)" "wrb i s3 = Inr ((), s4)" and s4: "inv s4"
    "frame s2 s4" "cnt s4 = (cnt s2)(p := cnt s q)" "dirty s4 = (dirty s2)(p := False)" "usr s4 = usr s2"
    "dsk s4 = (dsk s2)(p := cnt s q)" "hist s4 = hist s2 @ [(1, p, cnt s q)]"
    using put_through [OF s2(1) up len] by blast
  have "usr s4 = (\<lambda>_. None)(q := Some j, p := Some i)"
    using s4 s2 assms(4) by (simp add: fun_upd_twist)
  moreover have "dirty s q \<or> cnt s q = dsk s q" using clean [of s q] assms(1) by (auto simp: idle_def)
  ultimately obtain s5 where rel: "thn (relb j) (relb i) s4 = Inr ((), s5)" and s5: "idle s5"
    "frame s4 s5" "cnt s5 = cnt s4" "dirty s5 = dirty s4" "dsk s5 = dsk s4" "hist s5 = hist s4"
    using release2 [OF s4(1), of q j p i] s4 s2 assms(4) by auto
  obtain s45 where "relb j s4 = Inr ((), s45)" "relb i s45 = Inr ((), s5)"
    using rel by (auto elim: bnd_eq_InrE)
  then show ?thesis
    using r g w s2 s4 s5 frame_trans [OF s2(2) frame_trans [OF s4(2) s5(2)]] by auto
qed

end

section \<open>The cache of bio.c provides the interface\<close>

lemma clean_blk: "bio_ok s \<Longrightarrow> \<not> is_dirty s b \<Longrightarrow> busy s b = None \<Longrightarrow> blk s b = disk s 1 b"
proof (cases "slot s b")
  case (Some i)
  assume ok: "bio_ok s" and "\<not> is_dirty s b" "busy s b = None"
  from Some have "i < NBUF" "b_blockno (buf_at s i) = b" using ok by (simp_all add: slot_Some_iff)
  with bio_ok_buf [OF ok] Some \<open>\<not> is_dirty s b\<close> \<open>busy s b = None\<close> show ?thesis
    by (auto simp: blk_def is_dirty_def busy_def buf_ok_def Let_def split: if_splits)
qed (simp add: blk_def)

lemma bread_avail:
  assumes "bio_ok s" "b < FSSIZE" "busy s b = None" "is_dirty s b \<or> card (pinned s) < NBUF"
  shows "\<exists>i s'. bread 1 b s = Inr (i, s') \<and> bio_ok s' \<and> bio_frame s s' \<and> blk s' = blk s \<and>
    is_dirty s' = is_dirty s \<and> busy s' = (busy s)(b := Some i) \<and> disk s' = disk s \<and>
    dwrites s' = dwrites s"
proof -
  have "is_dirty s b \<Longrightarrow> slot s b \<noteq> None" by (auto simp: is_dirty_def split: option.splits)
  then show ?thesis using bread_spec [OF assms(1-3)] can_recycleI [OF assms(1)] assms(4) by blast
qed

interpretation bc: block_cache bio_ok blk is_dirty busy "\<lambda>s. disk s 1" dwrites bio_frame FSSIZE NBUF
  BSIZE "bread 1" bdata set_bdata bwrite brelse
proof unfold_locales
  fix s :: "'a biost_scheme" and b i :: nat and d :: bytes
  show "\<exists>i s'. bread 1 b s = Inr (i, s') \<and> bio_ok s' \<and> bio_frame s s' \<and> blk s' = blk s \<and>
      is_dirty s' = is_dirty s \<and> busy s' = (busy s)(b := Some i) \<and> disk s' 1 = disk s 1 \<and>
      dwrites s' = dwrites s"
    if "bio_ok s" "b < FSSIZE" "busy s b = None"
      "is_dirty s b \<or> card {c. is_dirty s c \<or> busy s c \<noteq> None} < NBUF"
    using bread_avail [of s b] that by (fastforce simp: pinned_def)
  show "bdata i s = Inr (blk s b, s)" if "bio_ok s" "busy s b = Some i"
    using busy_facts [OF that] by (simp add: bdata_def)
  show "\<exists>s'. set_bdata i d s = Inr ((), s') \<and> bio_ok s' \<and> bio_frame s s' \<and> blk s' = (blk s)(b := d) \<and>
      is_dirty s' = is_dirty s \<and> busy s' = busy s \<and> disk s' 1 = disk s 1 \<and> dwrites s' = dwrites s"
    if "bio_ok s" "busy s b = Some i" "length d = BSIZE"
    using set_bdata_spec [OF that] by fastforce
  show "\<exists>s'. bwrite i s = Inr ((), s') \<and> bio_ok s' \<and> bio_frame s s' \<and> blk s' = blk s \<and>
      is_dirty s' = (is_dirty s)(b := False) \<and> busy s' = busy s \<and>
      disk s' 1 = (disk s 1)(b := blk s b) \<and> dwrites s' = dwrites s @ [(1, b, blk s b)]"
    if "bio_ok s" "busy s b = Some i"
    using bwrite_spec [OF that] by fastforce
  show "\<exists>s'. brelse i s = Inr ((), s') \<and> bio_ok s' \<and> bio_frame s s' \<and> blk s' = blk s \<and>
      is_dirty s' = is_dirty s \<and> busy s' = (busy s)(b := None) \<and> disk s' 1 = disk s 1 \<and>
      dwrites s' = dwrites s"
    if "bio_ok s" "busy s b = Some i" "is_dirty s b \<or> blk s b = disk s 1 b"
    using brelse_spec [OF that] by fastforce
  show "bio_frame s u" if "bio_frame s t" "bio_frame t u" for t u :: "'a biost_scheme"
    using that by (rule bio_frame_trans)
  show "finite {c. is_dirty s c \<or> busy s c \<noteq> None}" if "bio_ok s"
    using finite_pinned [OF that] by (simp add: pinned_def)
qed (simp_all add: clean_blk length_blk)

end
