(* ===== verification/Log.thy ===== *)
theory Log
  imports Block_Cache
begin

text \<open>
  The write-ahead log (\<open>log.c\<close>), with \<open>readsb\<close> of \<open>fs.c\<close> which \<open>initlog\<close> calls.  The in-memory
  log header \<open>log.lh\<close> is the list of its first \<open>n\<close> block numbers.  A process that would have
  to wait in \<open>begin_op\<close> stops with \<open>Sleep\<close>.
\<close>

abbreviation MAXOPBLOCKS :: nat where "MAXOPBLOCKS \<equiv> 10"
abbreviation LOGSIZE :: nat where "LOGSIZE \<equiv> 30"

record superblock =
  sb_size :: nat
  sb_nblocks :: nat
  sb_ninodes :: nat
  sb_nlog :: nat
  sb_logstart :: nat
  sb_inodestart :: nat
  sb_bmapstart :: nat

record logst = biost +
  log_start :: nat
  log_size :: nat
  log_outstanding :: int
  log_committing :: bool
  log_dev :: nat
  log_lh :: "nat list"

section \<open>Definitions\<close>

definition uint_at :: "nat \<Rightarrow> bytes \<Rightarrow> nat" where
  "uint_at off d = unat (get32 (slice off 4 d))"

definition readsb :: "nat \<Rightarrow> ('z biost_scheme, superblock) kfun" where
  "readsb dev =
     bnd (bread dev 1) (\<lambda>bp. bnd (bdata bp) (\<lambda>d.
     thn (brelse bp)
     (ret \<lparr>sb_size = uint_at 0 d, sb_nblocks = uint_at 4 d, sb_ninodes = uint_at 8 d,
        sb_nlog = uint_at 12 d, sb_logstart = uint_at 16 d, sb_inodestart = uint_at 20 d,
        sb_bmapstart = uint_at 24 d\<rparr>)))"

text \<open>One round of \<open>install_trans\<close> and of \<open>write_log\<close> is the same copy in the two
  directions: read both blocks, copy the data, write the target, release both.\<close>

primrec install_loop :: "nat list \<Rightarrow> ('z logst_scheme, unit) kfun" where
  "install_loop [] = ret ()"
| "install_loop (tail # ts) = bnd (rd id) (\<lambda>s.
     bnd (bread (log_dev s) (log_start s + tail + 1)) (\<lambda>lbuf.
     bnd (bread (log_dev s) (log_lh s ! tail)) (\<lambda>dbuf.
     bnd (bdata lbuf) (\<lambda>d.
     thn (set_bdata dbuf d)
    (thn (bwrite dbuf)
    (thn (brelse lbuf)
    (thn (brelse dbuf)
         (install_loop ts))))))))"

definition install_trans :: "('z logst_scheme, unit) kfun" where
  "install_trans = bnd (rd log_lh) (\<lambda>lh. install_loop [0..<length lh])"

text \<open>A header whose count exceeds the array makes the copy loop write past its end.\<close>

definition read_head :: "('z logst_scheme, unit) kfun" where
  "read_head = bnd (rd id) (\<lambda>s.
     bnd (bread (log_dev s) (log_start s)) (\<lambda>buf.
     bnd (bdata buf) (\<lambda>d.
     let n = sint (get32 (slice 0 4 d)) in
     thn (chk (n \<le> int LOGSIZE) (UB ''lh.block''))
    (thn (md (\<lambda>s. s\<lparr>log_lh := map (\<lambda>i. uint_at (4 + 4 * i) d) [0..<nat n]\<rparr>))
         (brelse buf)))))"

definition head_bytes :: "nat list \<Rightarrow> bytes" where
  "head_bytes lh = put32 (word_of_nat (length lh)) @ concat (map (\<lambda>b. put32 (word_of_nat b)) lh)"

definition write_head :: "('z logst_scheme, unit) kfun" where
  "write_head = bnd (rd id) (\<lambda>s.
     bnd (bread (log_dev s) (log_start s)) (\<lambda>buf.
     bnd (bdata buf) (\<lambda>d.
     thn (set_bdata buf (patch d 0 (head_bytes (log_lh s))))
    (thn (bwrite buf)
         (brelse buf)))))"

definition clear_lh :: "('z logst_scheme, unit) kfun" where
  "clear_lh = md (\<lambda>s. s\<lparr>log_lh := []\<rparr>)"

definition recover_from_log :: "('z logst_scheme, unit) kfun" where
  "recover_from_log = thn read_head (thn install_trans (thn clear_lh write_head))"

definition initlog :: "nat \<Rightarrow> ('z logst_scheme, unit) kfun" where
  "initlog dev =
     bnd (readsb dev) (\<lambda>sb.
     thn (md (\<lambda>s. s\<lparr>log_start := sb_logstart sb, log_size := sb_nlog sb, log_dev := dev\<rparr>))
         recover_from_log)"

definition begin_op :: "('z logst_scheme, unit) kfun" where
  "begin_op =
     thn (acq LLog)
    (bnd (rd id) (\<lambda>s.
     if log_committing s then stop (Sleep ''log'')
     else if int LOGSIZE < int (length (log_lh s)) + (log_outstanding s + 1) * int MAXOPBLOCKS
     then stop (Sleep ''log'')
     else thn (md (\<lambda>s. s\<lparr>log_outstanding := log_outstanding s + 1\<rparr>)) (rel LLog)))"

primrec write_log_loop :: "nat list \<Rightarrow> ('z logst_scheme, unit) kfun" where
  "write_log_loop [] = ret ()"
| "write_log_loop (tail # ts) = bnd (rd id) (\<lambda>s.
     bnd (bread (log_dev s) (log_start s + tail + 1)) (\<lambda>to.
     bnd (bread (log_dev s) (log_lh s ! tail)) (\<lambda>from.
     bnd (bdata from) (\<lambda>d.
     thn (set_bdata to d)
    (thn (bwrite to)
    (thn (brelse from)
    (thn (brelse to)
         (write_log_loop ts))))))))"

definition write_log :: "('z logst_scheme, unit) kfun" where
  "write_log = bnd (rd log_lh) (\<lambda>lh. write_log_loop [0..<length lh])"

definition commit :: "('z logst_scheme, unit) kfun" where
  "commit = bnd (rd log_lh) (\<lambda>lh. whn (0 < length lh)
     (thn write_log (thn write_head (thn install_trans (thn clear_lh write_head)))))"

definition end_op :: "('z logst_scheme, unit) kfun" where
  "end_op =
     thn (acq LLog)
    (thn (md (\<lambda>s. s\<lparr>log_outstanding := log_outstanding s - 1\<rparr>))
    (bnd (rd id) (\<lambda>s.
     if log_committing s then stop (Panic ''log.committing'')
     else
       thn (whn (log_outstanding s = 0) (md (\<lambda>s. s\<lparr>log_committing := True\<rparr>)))
      (thn (rel LLog)
           (whn (log_outstanding s = 0)
             (thn commit
             (thn (acq LLog)
             (thn (md (\<lambda>s. s\<lparr>log_committing := False\<rparr>))
                  (rel LLog)))))))))"

definition log_write :: "nat \<Rightarrow> ('z logst_scheme, unit) kfun" where
  "log_write i = bnd (rd id) (\<lambda>s.
     if LOGSIZE \<le> length (log_lh s) \<or> int (log_size s) - 1 \<le> int (length (log_lh s))
     then stop (Panic ''too big a transaction'')
     else if log_outstanding s < 1 then stop (Panic ''log_write outside of trans'')
     else
       thn (acq LLog)
      (thn (md (\<lambda>s. let b = b_blockno (buf_at s i) in
              s\<lparr>log_lh := (if b \<in> set (log_lh s) then log_lh s else log_lh s @ [b])\<rparr>))
      (thn (upd_buf i (\<lambda>b. b\<lparr>b_dirty := True\<rparr>))
           (rel LLog))))"

section \<open>The header block\<close>

definition head_of :: "bytes \<Rightarrow> nat list" where
  "head_of d = map (\<lambda>i. uint_at (4 + 4 * i) d) [0..<nat (sint (get32 (slice 0 4 d)))]"

lemma length_head_bytes [simp]: "length (head_bytes lh) = 4 + 4 * length lh"
  by (induction lh) (simp_all add: head_bytes_def)

lemma concat_put32_slice:
  "i < length lh \<Longrightarrow> slice (4 * i) 4 (concat (map (\<lambda>b. put32 (word_of_nat b)) lh) @ r)
     = put32 (word_of_nat (lh ! i))"
proof (induction lh arbitrary: i)
  case (Cons b lh)
  then show ?case
    by (cases i) (simp_all add: slice_def)
qed simp

lemma head_of_head_bytes:
  assumes "length lh \<le> LOGSIZE" "\<forall>b \<in> set lh. b < FSSIZE" "length d = BSIZE"
  shows "head_of (patch d 0 (head_bytes lh)) = lh"
proof -
  let ?p = "patch d 0 (head_bytes lh)"
  have p: "?p = head_bytes lh @ drop (4 + 4 * length lh) d"
    using assms by (simp add: patch_def)
  have n: "slice 0 4 ?p = put32 (word_of_nat (length lh))"
    unfolding p by (simp add: head_bytes_def slice_def)
  have "uint_at (4 + 4 * i) ?p = lh ! i" if i: "i < length lh" for i
  proof -
    have "slice (4 + 4 * i) 4 ?p = slice (4 * i) 4
        (concat (map (\<lambda>b. put32 (word_of_nat b)) lh) @ drop (4 + 4 * length lh) d)"
      unfolding p by (simp add: head_bytes_def slice_def)
    moreover have "lh ! i < 2 ^ 32" using assms(2) i by (auto dest!: nth_mem)
    ultimately show ?thesis using i
      by (simp add: uint_at_def concat_put32_slice unat_of_nat)
  qed
  moreover have "sint (word_of_nat (length lh) :: i32) = int (length lh)"
    using assms(1) by (simp add: sint_small_nat)
  ultimately show ?thesis
    unfolding head_of_def n by (auto intro: nth_equalityI)
qed

section \<open>Sequences of device writes\<close>

type_synonym dwrite = "nat \<times> nat \<times> bytes"

definition wr :: "dwrite list \<Rightarrow> (nat \<Rightarrow> bytes) \<Rightarrow> nat \<Rightarrow> bytes" where
  "wr ws = fold (\<lambda>(_, b, v) d. d(b := v)) ws"

abbreviation targets :: "dwrite list \<Rightarrow> nat set" where
  "targets ws \<equiv> (\<lambda>(_, b, _). b) ` set ws"

lemma wr_Nil [simp]: "wr [] d = d"
  and wr_Cons [simp]: "wr ((x, b, v) # ws) d = wr ws (d(b := v))"
  and wr_append [simp]: "wr (vs @ ws) d = wr ws (wr vs d)"
  by (simp_all add: wr_def)

lemma wr_other: "b \<notin> targets ws \<Longrightarrow> wr ws d b = d b"
  by (induction ws arbitrary: d) auto

lemma wr_map:
  "distinct (map f ks) \<Longrightarrow> k \<in> set ks \<Longrightarrow> wr (map (\<lambda>j. (x, f j, g j)) ks) d (f k) = g k"
proof (induction ks arbitrary: d)
  case (Cons j ks)
  show ?case
  proof (cases "k = j")
    case True
    with Cons.prems have "f k \<notin> targets (map (\<lambda>j. (x, f j, g j)) ks)" by (force simp: image_iff)
    then show ?thesis using True by (simp add: wr_other)
  qed (use Cons in auto)
qed simp

text \<open>\<open>flushed W D s s'\<close>: the way from \<open>s\<close> to the idle state \<open>s'\<close> made the device writes \<open>W\<close>,
  which are also the only changes a reader of the cache sees, and left \<open>D\<close> pinned.\<close>

definition flushed ::
  "dwrite list \<Rightarrow> (nat \<Rightarrow> bool) \<Rightarrow> 'z biost_scheme \<Rightarrow> 'z biost_scheme \<Rightarrow> bool" where
  "flushed W D s s' \<longleftrightarrow> bc.idle s' \<and> bio_frame s s' \<and> blk s' = wr W (blk s) \<and> is_dirty s' = D \<and>
     disk s' 1 = wr W (disk s 1) \<and> dwrites s' = dwrites s @ W"

lemma flushed_refl: "bc.idle s \<Longrightarrow> flushed [] (is_dirty s) s s"
  by (simp add: flushed_def)

lemma flushed_trans: "flushed W D s t \<Longrightarrow> flushed V E t u \<Longrightarrow> flushed (W @ V) E s u"
  unfolding flushed_def using bio_frame_trans by auto

lemma flushed_idle: "flushed W D s s' \<Longrightarrow> bc.idle s'"
  by (simp add: flushed_def)

lemma frame_log:
  "bio_frame s s' \<Longrightarrow> log_start s' = log_start s \<and> log_size s' = log_size s \<and> log_dev s' = log_dev s \<and>
     log_lh s' = log_lh s \<and> log_outstanding s' = log_outstanding s \<and>
     log_committing s' = log_committing s"
  by (auto simp: bio_frame_def)

section \<open>Copying between the log and the home blocks\<close>

definition log_copy :: "nat \<Rightarrow> nat list \<Rightarrow> (nat \<Rightarrow> bytes) \<Rightarrow> nat list \<Rightarrow> dwrite list" where
  "log_copy ls lh c ks = map (\<lambda>j. (1, ls + j + 1, c (lh ! j))) ks"

definition home_copy :: "nat \<Rightarrow> nat list \<Rightarrow> (nat \<Rightarrow> bytes) \<Rightarrow> nat list \<Rightarrow> dwrite list" where
  "home_copy ls lh c ks = map (\<lambda>j. (1, lh ! j, c (ls + j + 1))) ks"

definition in_log :: "nat \<Rightarrow> nat \<Rightarrow> bool" where
  "in_log ls b \<longleftrightarrow> ls \<le> b \<and> b < ls + LOGSIZE"

text \<open>A transaction that fits: at most \<open>LOGSIZE - 1\<close> distinct home blocks outside the log.\<close>

definition lh_ok :: "nat \<Rightarrow> nat list \<Rightarrow> bool" where
  "lh_ok ls lh \<longleftrightarrow> ls + LOGSIZE \<le> FSSIZE \<and> distinct lh \<and> length lh < LOGSIZE \<and>
     (\<forall>b \<in> set lh. b < FSSIZE \<and> \<not> in_log ls b)"

lemma lh_okD:
  assumes "lh_ok ls lh" "j < length lh"
  shows "lh ! j < FSSIZE" "\<not> in_log ls (lh ! j)" "ls + j + 1 < FSSIZE" "in_log ls (ls + j + 1)"
    "lh ! j \<noteq> ls" "k < length lh \<Longrightarrow> lh ! j \<noteq> ls + k + 1"
proof -
  have "lh ! j < FSSIZE \<and> \<not> in_log ls (lh ! j)" and len: "ls + LOGSIZE \<le> FSSIZE" "length lh < LOGSIZE"
    using assms nth_mem [OF assms(2)] by (auto simp: lh_ok_def)
  then show "lh ! j < FSSIZE" "\<not> in_log ls (lh ! j)" "ls + j + 1 < FSSIZE" "in_log ls (ls + j + 1)"
    "lh ! j \<noteq> ls" "k < length lh \<Longrightarrow> lh ! j \<noteq> ls + k + 1"
    using assms(2) by (auto simp: in_log_def)
qed

lemma room_log:
  assumes "bc.idle s" "\<And>b. is_dirty s b \<Longrightarrow> b \<in> set lh" "length lh < LOGSIZE" "B \<subseteq> insert p (set lh)"
  shows "bc.room s B"
proof -
  have "card ({c. is_dirty s c \<or> busy s c \<noteq> None} \<union> B) \<le> card (insert p (set lh))"
    using assms by (intro card_mono) (auto simp: bc.idle_def)
  also have "\<dots> \<le> Suc (length lh)"
    using card_length [of lh] by (simp add: card_insert_if)
  finally show ?thesis using assms(3) unfolding bc.room_def by (simp add: NBUF_def)
qed

lemma write_log_loop_spec:
  assumes "bc.idle s" "\<And>b. is_dirty s b \<Longrightarrow> b \<in> set (log_lh s)" "log_dev s = 1"
    "lh_ok (log_start s) (log_lh s)" "\<forall>j \<in> set ks. j < length (log_lh s)"
  shows "\<exists>s'. write_log_loop ks s = Inr ((), s') \<and>
     flushed (log_copy (log_start s) (log_lh s) (blk s) ks) (is_dirty s) s s'"
  using assms
proof (induction ks arbitrary: s)
  case (Cons j ks)
  let ?ls = "log_start s" and ?lh = "log_lh s"
  let ?p = "?ls + j + 1" and ?q = "?lh ! j"
  have j: "j < length ?lh" using Cons.prems by simp
  note lh = lh_okD [OF Cons.prems(4) j]
  have "bc.room s {?p, ?q}"
    using Cons.prems j by (intro room_log [where lh = ?lh and p = ?p]) (auto simp: lh_ok_def)
  from bc.copy_to_first [OF Cons.prems(1) lh(3,1) not_sym [OF lh(6) [OF j]] this]
  obtain s1 where r: "write_log_loop (j # ks) s = write_log_loop ks s1" and s1: "bc.idle s1"
    "bio_frame s s1" "blk s1 = (blk s)(?p := blk s ?q)" "is_dirty s1 = (is_dirty s)(?p := False)"
    "disk s1 1 = (disk s 1)(?p := blk s ?q)" "dwrites s1 = dwrites s @ [(1, ?p, blk s ?q)]"
    using Cons.prems(3) by auto
  have "\<not> is_dirty s ?p" using Cons.prems(2) [of ?p] Cons.prems(4) lh(4) by (auto simp: lh_ok_def)
  then have d: "is_dirty s1 = is_dirty s" using s1(4) by (auto simp: fun_eq_iff)
  note f = frame_log [OF s1(2)]
  obtain s2 where s2: "write_log_loop ks s1 = Inr ((), s2)" and
    f2: "flushed (log_copy ?ls ?lh (blk s1) ks) (is_dirty s1) s1 s2"
    using Cons.IH [OF s1(1)] Cons.prems(2-5) f d by auto
  have f1: "flushed [(1, ?p, blk s ?q)] (is_dirty s) s s1"
    using s1 d by (simp add: flushed_def)
  have e: "log_copy ?ls ?lh (blk s1) ks = log_copy ?ls ?lh (blk s) ks"
    unfolding log_copy_def s1(3) using Cons.prems(5) lh_okD(6) [OF Cons.prems(4) _ j] by simp
  have "flushed (log_copy ?ls ?lh (blk s) (j # ks)) (is_dirty s) s s2"
    using flushed_trans [OF f1 f2] unfolding d e by (simp add: log_copy_def)
  with r s2 show ?case by auto
qed (simp add: log_copy_def flushed_refl)

lemma install_loop_spec:
  assumes "bc.idle s" "\<And>b. is_dirty s b \<Longrightarrow> b \<in> set (log_lh s)" "log_dev s = 1"
    "lh_ok (log_start s) (log_lh s)" "\<forall>j \<in> set ks. j < length (log_lh s)"
  shows "\<exists>s'. install_loop ks s = Inr ((), s') \<and>
     flushed (home_copy (log_start s) (log_lh s) (blk s) ks)
       (\<lambda>b. is_dirty s b \<and> b \<notin> (!) (log_lh s) ` set ks) s s'"
  using assms
proof (induction ks arbitrary: s)
  case (Cons j ks)
  let ?ls = "log_start s" and ?lh = "log_lh s"
  let ?p = "?ls + j + 1" and ?q = "?lh ! j"
  have j: "j < length ?lh" using Cons.prems by simp
  note lh = lh_okD [OF Cons.prems(4) j]
  have "bc.room s {?p, ?q}"
    using Cons.prems j by (intro room_log [where lh = ?lh and p = ?p]) (auto simp: lh_ok_def)
  from bc.copy_to_second [OF Cons.prems(1) lh(3,1) not_sym [OF lh(6) [OF j]] this]
  obtain s1 where r: "install_loop (j # ks) s = install_loop ks s1" and s1: "bc.idle s1"
    "bio_frame s s1" "blk s1 = (blk s)(?q := blk s ?p)" "is_dirty s1 = (is_dirty s)(?q := False)"
    "disk s1 1 = (disk s 1)(?q := blk s ?p)" "dwrites s1 = dwrites s @ [(1, ?q, blk s ?p)]"
    using Cons.prems(3) by auto
  note f = frame_log [OF s1(2)]
  have d: "b \<in> set (log_lh s1)" if "is_dirty s1 b" for b
    using that Cons.prems(2) s1 f by (auto split: if_splits)
  obtain s2 where s2: "install_loop ks s1 = Inr ((), s2)" and
    f2: "flushed (home_copy ?ls ?lh (blk s1) ks) (\<lambda>b. is_dirty s1 b \<and> b \<notin> (!) ?lh ` set ks) s1 s2"
    using Cons.IH [OF s1(1) d] Cons.prems(3-5) f by auto
  have f1: "flushed [(1, ?q, blk s ?p)] (is_dirty s1) s s1"
    using s1 by (simp add: flushed_def)
  have e: "home_copy ?ls ?lh (blk s1) ks = home_copy ?ls ?lh (blk s) ks"
    unfolding home_copy_def s1(3) using Cons.prems(5) not_sym [OF lh(6)] by simp
  have d: "(\<lambda>b. is_dirty s1 b \<and> b \<notin> (!) ?lh ` set ks)
      = (\<lambda>b. is_dirty s b \<and> b \<notin> (!) ?lh ` set (j # ks))"
    using s1 by auto
  have "flushed (home_copy ?ls ?lh (blk s) (j # ks))
      (\<lambda>b. is_dirty s b \<and> b \<notin> (!) ?lh ` set (j # ks)) s s2"
    using flushed_trans [OF f1 f2] unfolding d e by (simp add: home_copy_def)
  with r s2 show ?case by auto
qed (simp add: home_copy_def flushed_refl)

section \<open>Header writes, commit and recovery\<close>

lemma log_lh_views [simp]:
  "blk (s\<lparr>log_lh := l\<rparr>) = blk s" "is_dirty (s\<lparr>log_lh := l\<rparr>) = is_dirty s"
  "busy (s\<lparr>log_lh := l\<rparr>) = busy s" "bio_ok (s\<lparr>log_lh := l\<rparr>) = bio_ok s"
  by (rule blk_cong is_dirty_cong busy_cong bio_ok_cong; simp)+

lemma log_lh_idle [simp]: "bc.idle (s\<lparr>log_lh := l\<rparr>) = bc.idle s"
  by (simp add: bc.idle_def)

lemma bio_frame_iff:
  "bio_frame s t \<longleftrightarrow> t = s\<lparr>bufs := bufs t, slocks := slocks t, blru := blru t, disk := disk t,
     dwrites := dwrites t\<rparr> \<and> (\<forall>k. slocks t (SInode k) = slocks s (SInode k))"
  unfolding bio_frame_def by fastforce

lemma bio_frame_log_lh: "bio_frame s t \<Longrightarrow> bio_frame (s\<lparr>log_lh := l\<rparr>) (t\<lparr>log_lh := l\<rparr>)"
  unfolding bio_frame_iff by (cases s; cases t) simp

lemma flushed_log_lh: "flushed W D s t \<Longrightarrow> flushed W D (s\<lparr>log_lh := l\<rparr>) (t\<lparr>log_lh := l\<rparr>)"
  by (simp add: flushed_def bio_frame_log_lh)

lemma write_head_spec:
  assumes "bc.idle s" "\<And>b. is_dirty s b \<Longrightarrow> b \<in> set (log_lh s)" "log_dev s = 1"
    "lh_ok (log_start s) (log_lh s)"
  shows "\<exists>s'. write_head s = Inr ((), s') \<and>
     flushed [(1, log_start s, patch (blk s (log_start s)) 0 (head_bytes (log_lh s)))] (is_dirty s) s s'"
proof -
  let ?ls = "log_start s" and ?lh = "log_lh s"
  have lt: "?ls < FSSIZE" "length ?lh < LOGSIZE" using assms(4) by (simp_all add: lh_ok_def)
  have "length (blk s ?ls) = BSIZE" using assms(1) by (simp add: bc.idle_def length_blk)
  then have len: "length (patch (blk s ?ls) 0 (head_bytes ?lh)) = BSIZE" using lt by simp
  have room: "bc.room s {?ls}"
    using assms lt by (intro room_log [where lh = ?lh and p = ?ls]) auto
  obtain s' where r: "write_head s = Inr ((), s')" and s': "bc.idle s'" "bio_frame s s'"
    "blk s' = (blk s)(?ls := patch (blk s ?ls) 0 (head_bytes ?lh))"
    "is_dirty s' = (is_dirty s)(?ls := False)"
    "disk s' 1 = (disk s 1)(?ls := patch (blk s ?ls) 0 (head_bytes ?lh))"
    "dwrites s' = dwrites s @ [(1, ?ls, patch (blk s ?ls) 0 (head_bytes ?lh))]"
    using bc.rewrite [OF assms(1) lt(1) room, of "\<lambda>d. patch d 0 (head_bytes ?lh)"] len assms(3)
    by (auto simp: write_head_def)
  have "\<not> is_dirty s ?ls" using assms(2) [of ?ls] assms(4) by (auto simp: lh_ok_def in_log_def)
  then have "is_dirty s' = is_dirty s" using s'(4) by (auto simp: fun_eq_iff)
  with r s' show ?thesis by (auto simp: flushed_def)
qed

lemma install_trans_spec:
  assumes "bc.idle s" "\<And>b. is_dirty s b \<Longrightarrow> b \<in> set (log_lh s)" "log_dev s = 1"
    "lh_ok (log_start s) (log_lh s)"
  shows "\<exists>s'. install_trans s = Inr ((), s') \<and>
     flushed (home_copy (log_start s) (log_lh s) (blk s) [0..<length (log_lh s)]) (\<lambda>_. False) s s'"
proof -
  have "(!) (log_lh s) ` set [0..<length (log_lh s)] = set (log_lh s)"
    by (force simp: in_set_conv_nth)
  then have "(\<lambda>b. is_dirty s b \<and> b \<notin> (!) (log_lh s) ` set [0..<length (log_lh s)]) = (\<lambda>_. False)"
    using assms(2) by auto
  then show ?thesis
    using install_loop_spec [OF assms, of "[0..<length (log_lh s)]"] by (simp add: install_trans_def)
qed

text \<open>The last two steps of both \<open>commit\<close> and \<open>recover_from_log\<close>.\<close>

definition done_writes :: "nat \<Rightarrow> nat list \<Rightarrow> (nat \<Rightarrow> bytes) \<Rightarrow> dwrite list" where
  "done_writes ls lh c = home_copy ls lh c [0..<length lh] @ [(1, ls, patch (c ls) 0 (head_bytes []))]"

lemma install_clear_spec:
  assumes "bc.idle s" "\<And>b. is_dirty s b \<Longrightarrow> b \<in> set (log_lh s)" "log_dev s = 1"
    "lh_ok (log_start s) (log_lh s)"
  shows "\<exists>s'. thn install_trans (thn clear_lh write_head) s = Inr ((), s') \<and>
     flushed (done_writes (log_start s) (log_lh s) (blk s)) (\<lambda>_. False) (s\<lparr>log_lh := []\<rparr>) s'"
proof -
  let ?ls = "log_start s" and ?lh = "log_lh s"
  let ?W = "home_copy ?ls ?lh (blk s) [0..<length ?lh]"
  obtain s1 where r1: "install_trans s = Inr ((), s1)" and f1: "flushed ?W (\<lambda>_. False) s s1"
    using install_trans_spec [OF assms] by blast
  have s1: "bc.idle s1" "bio_frame s s1" "blk s1 = wr ?W (blk s)" "is_dirty s1 = (\<lambda>_. False)"
    using f1 by (simp_all add: flushed_def)
  note l = frame_log [OF s1(2)]
  have "?ls \<notin> targets ?W" using lh_okD(5) [OF assms(4)] by (force simp: home_copy_def image_iff)
  then have b: "blk s1 ?ls = blk s ?ls" using s1(3) by (simp add: wr_other)
  have "lh_ok ?ls []" using assms(4) by (simp add: lh_ok_def)
  then obtain s2 where r2: "write_head (s1\<lparr>log_lh := []\<rparr>) = Inr ((), s2)"
    and f2: "flushed [(1, ?ls, patch (blk s ?ls) 0 (head_bytes []))] (\<lambda>_. False) (s1\<lparr>log_lh := []\<rparr>) s2"
    using write_head_spec [of "s1\<lparr>log_lh := []\<rparr>"] s1 l assms(3) b by auto
  show ?thesis
    using flushed_trans [OF flushed_log_lh [OF f1] f2] r1 r2
    by (auto simp: done_writes_def clear_lh_def)
qed

text \<open>The device writes of a commit: the log blocks, the header, which is the commit point,
  the home blocks, and the cleared header.\<close>

definition commit_writes :: "nat \<Rightarrow> nat list \<Rightarrow> (nat \<Rightarrow> bytes) \<Rightarrow> dwrite list" where
  "commit_writes ls lh c = log_copy ls lh c [0..<length lh]
     @ [(1, ls, patch (c ls) 0 (head_bytes lh))]
     @ map (\<lambda>j. (1, lh ! j, c (lh ! j))) [0..<length lh]
     @ [(1, ls, patch (patch (c ls) 0 (head_bytes lh)) 0 (head_bytes []))]"

lemma wr_log_copy:
  assumes "lh_ok ls lh" "n = length lh"
  shows "j < n \<Longrightarrow> wr (log_copy ls lh c [0..<n]) d (ls + j + 1) = c (lh ! j)"
    and "wr (log_copy ls lh c ks) d ls = d ls"
    and "\<not> in_log ls b \<Longrightarrow> m \<le> n \<Longrightarrow> wr (log_copy ls lh c [0..<m]) d b = d b"
proof -
  have inj: "distinct (map (\<lambda>j. ls + j + 1) [0..<n])" by (simp add: distinct_map inj_on_def)
  show "j < n \<Longrightarrow> wr (log_copy ls lh c [0..<n]) d (ls + j + 1) = c (lh ! j)"
    unfolding log_copy_def by (rule wr_map [OF inj]) simp
  show "wr (log_copy ls lh c ks) d ls = d ls"
    by (rule wr_other) (auto simp: log_copy_def)
  show "\<not> in_log ls b \<Longrightarrow> m \<le> n \<Longrightarrow> wr (log_copy ls lh c [0..<m]) d b = d b"
    using lh_okD(4) [OF assms(1)] assms(2) by (intro wr_other) (auto simp: log_copy_def)
qed

lemma commit_spec:
  assumes "bc.idle s" "\<And>b. is_dirty s b \<Longrightarrow> b \<in> set (log_lh s)" "log_dev s = 1"
    "lh_ok (log_start s) (log_lh s)" "log_lh s \<noteq> []"
  shows "\<exists>s'. commit s = Inr ((), s') \<and>
     flushed (commit_writes (log_start s) (log_lh s) (blk s)) (\<lambda>_. False) (s\<lparr>log_lh := []\<rparr>) s'"
proof -
  let ?ls = "log_start s" and ?lh = "log_lh s" and ?ks = "[0..<length (log_lh s)]"
  let ?W = "log_copy ?ls ?lh (blk s) ?ks" and ?H = "(1, log_start s, patch (blk s (log_start s)) 0 (head_bytes (log_lh s)))"
  obtain s1 where r1: "write_log s = Inr ((), s1)" and f1: "flushed ?W (is_dirty s) s s1"
    using write_log_loop_spec [OF assms(1-4), of ?ks] by (auto simp: write_log_def)
  then have s1: "bc.idle s1" "bio_frame s s1" "blk s1 = wr ?W (blk s)" "is_dirty s1 = is_dirty s"
    by (simp_all add: flushed_def)
  note l1 = frame_log [OF s1(2)] and wl = wr_log_copy [OF assms(4) refl]
  obtain s2 where r2: "write_head s1 = Inr ((), s2)" and f2: "flushed [?H] (is_dirty s) s1 s2"
    using write_head_spec [of s1] s1 l1 assms(2-4) wl(2) by auto
  then have s2: "bc.idle s2" "bio_frame s1 s2" "blk s2 = wr [?H] (blk s1)" "is_dirty s2 = is_dirty s"
    by (simp_all add: flushed_def)
  note l2 = frame_log [OF s2(2)]
  obtain s3 where r3: "thn install_trans (thn clear_lh write_head) s2 = Inr ((), s3)"
    and f3: "flushed (done_writes ?ls ?lh (blk s2)) (\<lambda>_. False) (s2\<lparr>log_lh := []\<rparr>) s3"
    using install_clear_spec [of s2] s2 l1 l2 assms(2-4) by auto
  have "done_writes ?ls ?lh (blk s2) = map (\<lambda>j. (1, ?lh ! j, blk s (?lh ! j))) ?ks
     @ [(1, ?ls, patch (patch (blk s ?ls) 0 (head_bytes ?lh)) 0 (head_bytes []))]"
    using s2(3) s1(3) wl(1) by (simp add: done_writes_def home_copy_def)
  then have "?W @ ([?H] @ done_writes ?ls ?lh (blk s2)) = commit_writes ?ls ?lh (blk s)"
    by (simp add: commit_writes_def)
  with flushed_trans [OF flushed_log_lh [OF f1] flushed_trans [OF flushed_log_lh [OF f2] f3]]
  show ?thesis using r1 r2 r3 assms(5) by (auto simp: commit_def)
qed

end
