(* ===== verification/Recovery.thy ===== *)
theory Recovery
  imports Log
begin

text \<open>
  Crash safety of the log.  A crash during \<open>commit\<close> leaves the disk with some prefix of the
  block writes of the commit done (single block writes are atomic).  Recovery at the next
  boot (\<open>initlog\<close>) makes the transaction appear as a whole or not at all.
\<close>

section \<open>Boot\<close>

definition zeroed :: "(nat \<Rightarrow> nat \<Rightarrow> bytes) \<Rightarrow> logst" where
  "zeroed dk = \<lparr>held = {}, slocks = (\<lambda>_. \<lparr>sl_locked = False, sl_pid = 0\<rparr>), mypid = 0, pkilled = False,
     kend = 0, kuse_lock = True, kfreelist = 0, pages = (\<lambda>_. []), pipes = (\<lambda>_. None),
     input = \<lparr>in_buf = replicate INPUT_BUF 0, in_r = 0, in_w = 0, in_e = 0\<rparr>, cons_out = [],
     bufs = replicate NBUF \<lparr>b_valid = False, b_dirty = False, b_dev = 0, b_blockno = 0, b_refcnt = 0,
       b_data = replicate BSIZE 0\<rparr>,
     blru = [], idequeue = [], havedisk1 = True, disk = dk, dwrites = [],
     log_start = 0, log_size = 0, log_outstanding = 0, log_committing = False, log_dev = 0,
     log_lh = []\<rparr>"

text \<open>A machine whose cache holds nothing that is not on the disk.\<close>

definition quiet :: "'z biost_scheme \<Rightarrow> bool" where
  "quiet s \<longleftrightarrow> bio_ok s \<and> busy s = (\<lambda>_. None) \<and> is_dirty s = (\<lambda>_. False)"

lemma quietD: "quiet s \<Longrightarrow> bc.idle s" "quiet s \<Longrightarrow> is_dirty s = (\<lambda>_. False)"
  by (simp_all add: quiet_def bc.idle_def)

lemma quiet_blk: "quiet s \<Longrightarrow> blk s = disk s 1"
  by (rule ext) (simp add: quiet_def clean_blk)

lemma binit_quiet:
  assumes "bufs s = replicate NBUF \<lparr>b_valid = False, b_dirty = False, b_dev = 0, b_blockno = 0,
      b_refcnt = 0, b_data = z\<rparr>" "held s = {}" "idequeue s = []" "havedisk1 s"
    "\<And>b. length (disk s 1 b) = BSIZE"
  shows "\<exists>s'. binit s = Inr ((), s') \<and> quiet s' \<and> disk s' = disk s"
proof -
  let ?s = "s\<lparr>blru := rev [0..<NBUF],
     slocks := (\<lambda>k. case k of SBuf i \<Rightarrow> if i < NBUF then \<lparr>sl_locked = False, sl_pid = 0\<rparr>
                                     else slocks s k
                    | _ \<Rightarrow> slocks s k)\<rparr>"
  have none: "slot ?s b = None" for b
    using assms(1) by (auto simp: slot_def find_None_iff)
  have "bio_ok ?s"
    using assms by (auto simp: bio_ok_def buf_ok_def Let_def)
  with none show ?thesis
    by (simp add: binit_def quiet_def busy_def is_dirty_def fun_eq_iff)
qed

section \<open>Recovery\<close>

definition recovered :: "nat \<Rightarrow> (nat \<Rightarrow> bytes) \<Rightarrow> nat \<Rightarrow> bytes" where
  "recovered ls d = wr (done_writes ls (head_of (d ls)) d) d"

lemma room_quiet: "quiet s \<Longrightarrow> bc.room s {b}"
  using quietD [of s] by (intro room_log [where lh = "[]" and p = b]) auto

lemma read_head_spec:
  assumes "quiet s" "log_dev s = 1" "log_start s < FSSIZE"
    "length (head_of (disk s 1 (log_start s))) \<le> LOGSIZE"
  shows "\<exists>s'. read_head s = Inr ((), s') \<and>
     flushed [] (\<lambda>_. False) (s\<lparr>log_lh := head_of (disk s 1 (log_start s))\<rparr>) s'"
proof -
  let ?b = "log_start s" and ?l = "head_of (disk s 1 (log_start s))"
  have q: "bio_ok s" "busy s = (\<lambda>_. None)" "is_dirty s = (\<lambda>_. False)" "blk s = disk s 1"
    using assms(1) quiet_blk by (simp_all add: quiet_def)
  have n: "sint (get32 (slice 0 4 (disk s 1 ?b))) \<le> int LOGSIZE"
    using assms(4) by (simp add: head_of_def nat_le_iff)
  obtain i s1 where r1: "bread 1 ?b s = Inr (i, s1)" and s1: "bio_ok s1" "bio_frame s s1"
    "blk s1 = blk s" "is_dirty s1 = is_dirty s" "busy s1 = (busy s)(?b := Some i)"
    "disk s1 1 = disk s 1" "dwrites s1 = dwrites s"
    using bc.rdb [OF q(1) assms(3)] q(2,3) by (auto simp: NBUF_def)
  have r2: "bdata i s1 = Inr (disk s 1 ?b, s1)" using bc.getd [OF s1(1), of ?b i] s1 q by simp
  let ?s1 = "s1\<lparr>log_lh := ?l\<rparr>"
  obtain s2 where r3: "brelse i ?s1 = Inr ((), s2)" and s2: "bio_ok s2" "bio_frame ?s1 s2"
    "blk s2 = blk ?s1" "is_dirty s2 = is_dirty ?s1" "busy s2 = (busy ?s1)(?b := None)"
    "disk s2 1 = disk ?s1 1" "dwrites s2 = dwrites ?s1"
    using bc.relb [of ?s1 ?b i] s1 q by auto
  have "bio_frame (s\<lparr>log_lh := ?l\<rparr>) s2"
    using s1(2) s2(2) by (rule bio_frame_trans [OF bio_frame_log_lh])
  then have "flushed [] (\<lambda>_. False) (s\<lparr>log_lh := ?l\<rparr>) s2"
    using s1 s2 q by (simp add: flushed_def bc.idle_def)
  moreover have "read_head s = Inr ((), s2)"
    using r1 r2 r3 n assms(2) by (simp add: read_head_def Let_def head_of_def)
  ultimately show ?thesis by blast
qed

lemma recover_spec:
  assumes "quiet s" "log_dev s = 1" "lh_ok (log_start s) (head_of (disk s 1 (log_start s)))"
  shows "\<exists>s'. recover_from_log s = Inr ((), s') \<and> quiet s' \<and>
     disk s' 1 = recovered (log_start s) (disk s 1) \<and> log_lh s' = [] \<and>
     log_start s' = log_start s \<and> log_size s' = log_size s \<and> log_dev s' = log_dev s"
proof -
  let ?l = "head_of (disk s 1 (log_start s))"
  obtain s1 where r1: "read_head s = Inr ((), s1)" and f1: "flushed [] (\<lambda>_. False) (s\<lparr>log_lh := ?l\<rparr>) s1"
    using read_head_spec [OF assms(1,2)] assms(3) by (auto simp: lh_ok_def)
  have s1: "bc.idle s1" "bio_frame (s\<lparr>log_lh := ?l\<rparr>) s1" "blk s1 = blk s" "is_dirty s1 = (\<lambda>_. False)"
    using f1 by (simp_all add: flushed_def)
  note l = frame_log [OF s1(2)]
  obtain s2 where r2: "thn install_trans (thn clear_lh write_head) s1 = Inr ((), s2)" and
    f2: "flushed (done_writes (log_start s) ?l (blk s)) (\<lambda>_. False) (s1\<lparr>log_lh := []\<rparr>) s2"
    using install_clear_spec [OF s1(1)] s1 l assms(2,3) by auto
  have f: "flushed (done_writes (log_start s) ?l (blk s)) (\<lambda>_. False) (s\<lparr>log_lh := []\<rparr>) s2"
    using flushed_trans [OF flushed_log_lh [OF f1, of "[]"] f2] by simp
  then have "quiet s2" "disk s2 1 = recovered (log_start s) (disk s 1)"
    using quiet_blk [OF assms(1)] by (simp_all add: flushed_def quiet_def bc.idle_def recovered_def)
  moreover have "bio_frame (s\<lparr>log_lh := []\<rparr>) s2" using f by (simp add: flushed_def)
  note frame_log [OF this]
  ultimately show ?thesis using r1 r2 by (auto simp: recover_from_log_def)
qed

section \<open>The disk after a crash\<close>

text \<open>Writes to the home blocks of a transaction, all of them or the first \<open>m\<close>.\<close>

lemma wr_homes:
  assumes "lh_ok ls lh"
  shows "j < length lh \<Longrightarrow> wr (map (\<lambda>j. (1, lh ! j, g j)) [0..<length lh]) d (lh ! j) = g j"
    and "b \<notin> set lh \<Longrightarrow> m \<le> length lh \<Longrightarrow> wr (map (\<lambda>j. (1, lh ! j, g j)) [0..<m]) d b = d b"
proof -
  have "distinct (map ((!) lh) [0..<length lh])" using assms by (simp add: map_nth lh_ok_def)
  then show "j < length lh \<Longrightarrow> wr (map (\<lambda>j. (1, lh ! j, g j)) [0..<length lh]) d (lh ! j) = g j"
    by (rule wr_map) simp
  show "b \<notin> set lh \<Longrightarrow> m \<le> length lh \<Longrightarrow> wr (map (\<lambda>j. (1, lh ! j, g j)) [0..<m]) d b = d b"
    by (rule wr_other) auto
qed

lemma log_not_home: "lh_ok ls lh \<Longrightarrow> in_log ls b \<Longrightarrow> b \<notin> set lh"
  by (auto simp: lh_ok_def)

lemma in_log_start: "in_log ls ls"
  by (simp add: in_log_def)

lemma recovered_empty:
  "head_of (d ls) = [] \<Longrightarrow> b \<noteq> ls \<Longrightarrow> recovered ls d b = d b"
  by (simp add: recovered_def done_writes_def home_copy_def)

lemma recovered_full:
  assumes "lh_ok ls lh" "head_of (d ls) = lh" "b \<noteq> ls"
  shows "j < length lh \<Longrightarrow> b = lh ! j \<Longrightarrow> recovered ls d b = d (ls + j + 1)"
    and "b \<notin> set lh \<Longrightarrow> recovered ls d b = d b"
  using assms wr_homes [OF assms(1)] by (auto simp: recovered_def done_writes_def home_copy_def)

text \<open>A transaction over the blocks \<open>lh\<close> waits to be committed: a reader sees the contents \<open>c\<close>, the
  disk still has \<open>d\<close>, and the header on the disk is empty.\<close>

definition pending :: "nat \<Rightarrow> nat list \<Rightarrow> (nat \<Rightarrow> bytes) \<Rightarrow> (nat \<Rightarrow> bytes) \<Rightarrow> bool" where
  "pending ls lh c d \<longleftrightarrow> lh_ok ls lh \<and> head_of (d ls) = [] \<and> length (c ls) = BSIZE \<and>
     (\<forall>b. b \<notin> set lh \<longrightarrow> c b = d b)"

definition crashed :: "nat \<Rightarrow> nat list \<Rightarrow> (nat \<Rightarrow> bytes) \<Rightarrow> (nat \<Rightarrow> bytes) \<Rightarrow> nat \<Rightarrow> nat \<Rightarrow> bytes" where
  "crashed ls lh c d k = wr (take k (commit_writes ls lh c)) d"

lemma crashed_before:
  assumes "lh_ok ls lh" "k \<le> length lh"
  shows "crashed ls lh c d k ls = d ls" "\<not> in_log ls b \<Longrightarrow> crashed ls lh c d k b = d b"
proof -
  have e: "crashed ls lh c d k = wr (log_copy ls lh c [0..<k]) d"
    using assms by (simp add: crashed_def commit_writes_def log_copy_def take_map)
  show "crashed ls lh c d k ls = d ls" "\<not> in_log ls b \<Longrightarrow> crashed ls lh c d k b = d b"
    unfolding e using wr_log_copy(2,3) [OF assms(1) refl] assms(2) by auto
qed

lemma crashed_between:
  assumes "pending ls lh c d" "length lh < k" "k \<le> 2 * length lh + 1"
  shows "head_of (crashed ls lh c d k ls) = lh"
    and "j < length lh \<Longrightarrow> crashed ls lh c d k (ls + j + 1) = c (lh ! j)"
    and "\<not> in_log ls b \<Longrightarrow> b \<notin> set lh \<Longrightarrow> crashed ls lh c d k b = d b"
proof -
  let ?n = "length lh" and ?h = "patch (c ls) 0 (head_bytes lh)"
  let ?d1 = "(wr (log_copy ls lh c [0..<?n]) d)(ls := ?h)"
  have ok: "lh_ok ls lh" and len: "length (c ls) = BSIZE" using assms(1) by (simp_all add: pending_def)
  obtain m where k: "k = Suc (?n + m)" "m \<le> ?n" using assms(2,3) by (auto simp: less_iff_Suc_add)
  have e: "crashed ls lh c d k = wr (map (\<lambda>j. (1, lh ! j, c (lh ! j))) [0..<m]) ?d1"
    using k by (simp add: crashed_def commit_writes_def log_copy_def take_map)
  have "crashed ls lh c d k ls = ?h"
    unfolding e using wr_homes(2) [OF ok log_not_home [OF ok in_log_start] k(2)] by simp
  then show "head_of (crashed ls lh c d k ls) = lh"
    using ok len by (simp add: head_of_head_bytes lh_ok_def)
  show "crashed ls lh c d k (ls + j + 1) = c (lh ! j)" if "j < ?n"
    unfolding e using wr_homes(2) [OF ok log_not_home [OF ok lh_okD(4) [OF ok that]] k(2)]
      wr_log_copy(1) [OF ok refl that] by simp
  show "crashed ls lh c d k b = d b" if "\<not> in_log ls b" "b \<notin> set lh"
    unfolding e using wr_homes(2) [OF ok that(2) k(2)] wr_log_copy(3) [OF ok refl that(1)] that in_log_start
    by auto
qed

lemma crashed_after:
  assumes "pending ls lh c d" "2 * length lh + 1 < k"
  shows "head_of (crashed ls lh c d k ls) = []"
    and "\<not> in_log ls b \<Longrightarrow> crashed ls lh c d k b = c b"
proof -
  let ?n = "length lh" and ?h = "patch (c ls) 0 (head_bytes lh)"
  let ?d1 = "(wr (log_copy ls lh c [0..<?n]) d)(ls := ?h)"
  have ok: "lh_ok ls lh" and len: "length (c ls) = BSIZE" using assms(1) by (simp_all add: pending_def)
  have e: "crashed ls lh c d k = (wr (map (\<lambda>j. (1, lh ! j, c (lh ! j))) [0..<?n]) ?d1)
      (ls := patch ?h 0 (head_bytes []))"
    using assms(2) by (simp add: crashed_def commit_writes_def log_copy_def)
  have "length ?h = BSIZE" using ok len by (simp add: lh_ok_def)
  then show "head_of (crashed ls lh c d k ls) = []"
    unfolding e by (simp add: head_of_head_bytes)
  show "crashed ls lh c d k b = c b" if nb: "\<not> in_log ls b"
  proof (cases "b \<in> set lh")
    case True
    then obtain j where "j < ?n" "b = lh ! j" by (auto simp: in_set_conv_nth)
    then show ?thesis unfolding e using wr_homes(1) [OF ok] lh_okD(5) [OF ok] by simp
  next
    case False
    then have "d b = c b" using assms(1) by (simp add: pending_def)
    then show ?thesis unfolding e
      using wr_homes(2) [OF ok False] wr_log_copy(3) [OF ok refl nb] nb in_log_start by auto
  qed
qed

text \<open>Recovery of a crashed disk: before the commit point nothing of the transaction is there,
  after it all of it is.\<close>

lemma recovered_crashed:
  assumes "pending ls lh c d"
  shows "lh_ok ls (head_of (crashed ls lh c d k ls))"
    and "\<not> in_log ls b \<Longrightarrow>
      recovered ls (crashed ls lh c d k) b = (if k \<le> length lh then d b else c b)"
proof -
  have ok: "lh_ok ls lh" and old: "head_of (d ls) = []" and same: "b \<notin> set lh \<Longrightarrow> c b = d b" for b
    using assms by (simp_all add: pending_def)
  have ok0: "lh_ok ls []" using ok by (simp add: lh_ok_def)
  have ne: "\<not> in_log ls b \<Longrightarrow> b \<noteq> ls" using in_log_start by blast
  consider "k \<le> length lh" | "length lh < k" "k \<le> 2 * length lh + 1" | "2 * length lh + 1 < k"
    by linarith
  then have "lh_ok ls (head_of (crashed ls lh c d k ls)) \<and> (\<not> in_log ls b \<longrightarrow>
      recovered ls (crashed ls lh c d k) b = (if k \<le> length lh then d b else c b))"
  proof cases
    case 1
    then show ?thesis
      using crashed_before [OF ok] old ok0 recovered_empty [of "crashed ls lh c d k" ls b] ne
      by auto
  next
    case 2
    note cb = crashed_between [OF assms 2] and rf = recovered_full [where d = "crashed ls lh c d k", OF ok crashed_between(1) [OF assms 2]]
    have "recovered ls (crashed ls lh c d k) b = c b" if nb: "\<not> in_log ls b"
    proof (cases "b \<in> set lh")
      case True
      then obtain j where "j < length lh" "b = lh ! j" by (auto simp: in_set_conv_nth)
      then show ?thesis using rf(1) cb(2) lh_okD(5) [OF ok] by simp
    next
      case False
      then show ?thesis using rf(2) [OF ne [OF nb] False] cb(3) [OF nb False] same [OF False] by simp
    qed
    then show ?thesis using cb(1) ok 2 by simp
  next
    case 3
    then show ?thesis
      using crashed_after [OF assms 3] ok0 recovered_empty [of "crashed ls lh c d k" ls b] ne
      by auto
  qed
  then show "lh_ok ls (head_of (crashed ls lh c d k ls))"
    and "\<not> in_log ls b \<Longrightarrow>
      recovered ls (crashed ls lh c d k) b = (if k \<le> length lh then d b else c b)"
    by blast+
qed

lemma crashed_one:
  assumes "pending ls lh c d" "b \<notin> set lh" "\<not> in_log ls b"
  shows "crashed ls lh c d k b = d b"
proof -
  have "lh_ok ls lh" "c b = d b" using assms by (simp_all add: pending_def)
  then show ?thesis
    using crashed_before(2) crashed_between(3) [OF assms(1) _ _ assms(3,2)]
      crashed_after(2) [OF assms(1) _ assms(3)] assms(3)
    by (metis not_le_imp_less)
qed

lemma crashed_head:
  assumes "pending ls lh c d"
  shows "set (head_of (crashed ls lh c d k ls)) \<subseteq> set lh"
proof -
  have "lh_ok ls lh" "head_of (d ls) = []" using assms by (simp_all add: pending_def)
  then show ?thesis
    using crashed_before(1) [of ls lh k] crashed_between(1) [OF assms] crashed_after(1) [OF assms]
    by (cases "k \<le> length lh"; cases "k \<le> 2 * length lh + 1") auto
qed

section \<open>The invariant of the log\<close>

text \<open>Between two operations on the log: the pinned blocks are exactly those of the current
  transaction, the header on the disk is empty, and the superblock on the disk names the
  log.\<close>

definition log_inv :: "'z logst_scheme \<Rightarrow> bool" where
  "log_inv s \<longleftrightarrow> bio_ok s \<and> log_dev s = 1 \<and> log_size s = LOGSIZE \<and>
     lh_ok (log_start s) (log_lh s) \<and> is_dirty s = (\<lambda>b. b \<in> set (log_lh s)) \<and>
     head_of (disk s 1 (log_start s)) = [] \<and>
     uint_at 12 (disk s 1 1) = LOGSIZE \<and> uint_at 16 (disk s 1 1) = log_start s \<and>
     1 \<notin> set (log_lh s) \<and> \<not> in_log (log_start s) 1"

text \<open>What is on a bootable disk: a superblock naming a log whose header is sound.\<close>

definition bootable :: "(nat \<Rightarrow> bytes) \<Rightarrow> bool" where
  "bootable d \<longleftrightarrow> uint_at 12 (d 1) = LOGSIZE \<and>
     (let ls = uint_at 16 (d 1) in \<not> in_log ls 1 \<and> lh_ok ls (head_of (d ls)) \<and>
       1 \<notin> set (head_of (d ls)))"

lemma pending_inv:
  assumes "log_inv s" "busy s = (\<lambda>_. None)"
  shows "pending (log_start s) (log_lh s) (blk s) (disk s 1)"
  using assms clean_blk [of s] by (simp add: pending_def log_inv_def length_blk)

lemma log_fields_views [simp]:
  "blk (s\<lparr>log_start := a, log_size := n, log_dev := v\<rparr>) = blk s"
  "quiet (s\<lparr>log_start := a, log_size := n, log_dev := v\<rparr>) = quiet s"
proof -
  let ?s = "s\<lparr>log_start := a, log_size := n, log_dev := v\<rparr>"
  show "blk ?s = blk s" by (rule blk_cong) simp_all
  have "bio_ok ?s = bio_ok s" "busy ?s = busy s" "is_dirty ?s = is_dirty s"
    by (rule busy_cong is_dirty_cong bio_ok_cong; simp)+
  then show "quiet ?s = quiet s" by (simp add: quiet_def)
qed

lemma readsb_spec:
  assumes "quiet s"
  shows "\<exists>s'. readsb 1 s = Inr (\<lparr>sb_size = uint_at 0 (disk s 1 1), sb_nblocks = uint_at 4 (disk s 1 1),
       sb_ninodes = uint_at 8 (disk s 1 1), sb_nlog = uint_at 12 (disk s 1 1),
       sb_logstart = uint_at 16 (disk s 1 1), sb_inodestart = uint_at 20 (disk s 1 1),
       sb_bmapstart = uint_at 24 (disk s 1 1)\<rparr>, s') \<and> quiet s' \<and> bio_frame s s' \<and> disk s' 1 = disk s 1"
  unfolding readsb_def
  using bc.fetch [OF quietD(1) [OF assms] _ room_quiet [OF assms], of 1] quiet_blk [OF assms]
    quietD(2) [OF assms]
  by (fastforce simp: quiet_def bc.idle_def)

lemma initlog_spec:
  assumes "quiet s" "bootable (disk s 1)"
  shows "\<exists>s'. initlog 1 s = Inr ((), s') \<and> quiet s' \<and> log_inv s' \<and> log_lh s' = [] \<and>
     disk s' 1 = recovered (uint_at 16 (disk s 1 1)) (disk s 1)"
proof -
  let ?d = "disk s 1" let ?ls = "uint_at 16 (?d 1)"
  have b: "\<not> in_log ?ls 1" "lh_ok ?ls (head_of (?d ?ls))" "1 \<notin> set (head_of (?d ?ls))"
    "uint_at 12 (?d 1) = LOGSIZE"
    using assms(2) by (simp_all add: bootable_def Let_def)
  obtain sb s1 where r1: "readsb 1 s = Inr (sb, s1)" and sb: "sb_logstart sb = ?ls" "sb_nlog sb = LOGSIZE"
    and s1: "quiet s1" "disk s1 1 = ?d"
    using readsb_spec [OF assms(1)] b(4) by fastforce
  let ?s1 = "s1\<lparr>log_start := ?ls, log_size := LOGSIZE, log_dev := 1\<rparr>"
  obtain s2 where r2: "recover_from_log ?s1 = Inr ((), s2)" and s2: "quiet s2" "log_lh s2 = []"
    "disk s2 1 = recovered ?ls ?d" "log_start s2 = ?ls" "log_size s2 = LOGSIZE" "log_dev s2 = 1"
    using recover_spec [of ?s1] s1 b(2) by auto
  have "1 \<noteq> ?ls" using b(1) by (auto simp: in_log_def)
  then have d1: "recovered ?ls ?d 1 = ?d 1" using b(2,3) by (intro recovered_full(2) [where lh = "head_of (?d ?ls)"]) simp_all
  have "length (?d ?ls) = BSIZE" using assms(1) by (simp add: quiet_def bio_ok_def)
  then have "head_of (recovered ?ls ?d ?ls) = []"
    by (simp add: recovered_def done_writes_def head_of_head_bytes)
  then have "log_inv s2"
    using s2 b d1 by (auto simp: log_inv_def quiet_def lh_ok_def)
  moreover have "initlog 1 s = Inr ((), s2)" using r1 r2 sb by (simp add: initlog_def)
  ultimately show ?thesis using s2 by blast
qed

section \<open>Operations on the log\<close>

lemma begin_op_spec:
  assumes "held s = {}" "\<not> log_committing s"
    "int (length (log_lh s)) + (log_outstanding s + 1) * int MAXOPBLOCKS \<le> int LOGSIZE"
  shows "begin_op s = Inr ((), s\<lparr>log_outstanding := log_outstanding s + 1\<rparr>)"
  using assms by (simp add: begin_op_def)

lemma commit_inv:
  assumes "log_inv s" "busy s = (\<lambda>_. None)" "log_lh s \<noteq> []"
  shows "\<exists>s'. commit s = Inr ((), s') \<and> quiet s' \<and> log_inv s' \<and> log_lh s' = [] \<and>
     dwrites s' = dwrites s @ commit_writes (log_start s) (log_lh s) (blk s) \<and>
     (\<forall>b. \<not> in_log (log_start s) b \<longrightarrow> disk s' 1 b = blk s b) \<and>
     log_outstanding s' = log_outstanding s \<and> log_committing s' = log_committing s"
proof -
  let ?ls = "log_start s" and ?lh = "log_lh s"
  let ?W = "commit_writes ?ls ?lh (blk s)"
  have p: "pending ?ls ?lh (blk s) (disk s 1)" by (rule pending_inv [OF assms(1,2)])
  obtain s' where r: "commit s = Inr ((), s')" and f: "flushed ?W (\<lambda>_. False) (s\<lparr>log_lh := []\<rparr>) s'"
    using commit_spec [of s] assms by (auto simp: log_inv_def bc.idle_def)
  have fr: "bio_frame (s\<lparr>log_lh := []\<rparr>) s'" using f by (simp add: flushed_def)
  note l = frame_log [OF fr]
  have q: "quiet s'" using f by (simp add: flushed_def quiet_def bc.idle_def)
  have d: "disk s' 1 = crashed ?ls ?lh (blk s) (disk s 1) (length ?W)"
    using f by (simp add: flushed_def crashed_def)
  have "2 * length ?lh + 1 < length ?W" by (simp add: commit_writes_def log_copy_def)
  note ca = crashed_after [OF p this]
  have out: "disk s' 1 b = blk s b" if "\<not> in_log ?ls b" for b
    using d ca(2) [OF that] by simp
  have "blk s 1 = disk s 1 1" using p assms(1) by (simp add: pending_def log_inv_def)
  then have "disk s' 1 1 = disk s 1 1" using out [of 1] assms(1) by (simp add: log_inv_def)
  then have "log_inv s'" using assms(1) q l d ca(1) by (simp add: log_inv_def quiet_def lh_ok_def)
  then show ?thesis using r q l out f by (auto simp: flushed_def)
qed

lemma log_write_spec:
  assumes "log_inv s" "busy s b = Some i" "b \<noteq> 1" "\<not> in_log (log_start s) b"
    "length (log_lh s) < LOGSIZE - 1" "1 \<le> log_outstanding s"
  shows "\<exists>s'. log_write i s = Inr ((), s') \<and> log_inv s' \<and> blk s' = blk s \<and> busy s' = busy s \<and>
     set (log_lh s') = insert b (set (log_lh s)) \<and> length (log_lh s') \<le> length (log_lh s) + 1 \<and>
     disk s' = disk s \<and> dwrites s' = dwrites s \<and>
     log_outstanding s' = log_outstanding s \<and> log_committing s' = log_committing s"
proof -
  have ok: "bio_ok s" and size: "log_size s = LOGSIZE" using assms(1) by (simp_all add: log_inv_def)
  have bf: "b_blockno (buf_at s i) = b" "b < FSSIZE" using busy_facts [OF ok assms(2)] by simp_all
  let ?l = "if b \<in> set (log_lh s) then log_lh s else log_lh s @ [b]"
  obtain s1 where r: "upd_buf i (\<lambda>b. b\<lparr>b_dirty := True\<rparr>) (s\<lparr>log_lh := ?l\<rparr>) = Inr ((), s1)"
    and s1: "bio_ok s1" "bio_frame (s\<lparr>log_lh := ?l\<rparr>) s1" "blk s1 = blk s"
      "is_dirty s1 = (is_dirty s)(b := True)" "busy s1 = busy s" "disk s1 = disk s"
      "dwrites s1 = dwrites s"
    using mark_dirty_spec [of "s\<lparr>log_lh := ?l\<rparr>" b i] ok assms(2) by auto
  have s1_eq: "s1 = s\<lparr>log_lh := ?l, bufs := (bufs s)[i := (buf_at s i)\<lparr>b_dirty := True\<rparr>]\<rparr>"
    using r by (simp add: upd_buf_def)
  have h: "held s = {}" using ok by (simp add: bio_ok_def)
  have "log_write i s = Inr ((), s1)"
    unfolding s1_eq log_write_def upd_buf_def using h assms(5,6) size bf
    by (cases s) (simp add: Let_def)
  moreover have "lh_ok (log_start s) ?l"
    using assms(1,4,5) bf(2) by (simp add: log_inv_def lh_ok_def)
  then have "log_inv s1"
    using assms(1,3) s1 frame_log [OF s1(2)] by (auto simp: log_inv_def fun_eq_iff)
  ultimately show ?thesis using s1 frame_log [OF s1(2)] by auto
qed

lemma op_fields_views [simp]:
  "blk (s\<lparr>log_outstanding := n, log_committing := c\<rparr>) = blk s"
  "busy (s\<lparr>log_outstanding := n, log_committing := c\<rparr>) = busy s"
  "log_inv (s\<lparr>log_outstanding := n, log_committing := c\<rparr>) = log_inv s"
  "quiet (s\<lparr>log_outstanding := n, log_committing := c\<rparr>) = quiet s"
proof -
  let ?s = "s\<lparr>log_outstanding := n, log_committing := c\<rparr>"
  show b: "blk ?s = blk s" "busy ?s = busy s" by (rule blk_cong busy_cong; simp)+
  have "bio_ok ?s = bio_ok s" "is_dirty ?s = is_dirty s"
    by (rule is_dirty_cong bio_ok_cong; simp)+
  then show "log_inv ?s = log_inv s" "quiet ?s = quiet s"
    using b by (simp_all add: log_inv_def quiet_def)
qed

lemma op_outstanding_views [simp]:
  "blk (s\<lparr>log_outstanding := n\<rparr>) = blk s" "busy (s\<lparr>log_outstanding := n\<rparr>) = busy s"
  "log_inv (s\<lparr>log_outstanding := n\<rparr>) = log_inv s" "quiet (s\<lparr>log_outstanding := n\<rparr>) = quiet s"
  using op_fields_views [where s = s and n = n and c = "log_committing s"] by simp_all

lemma op_committing_views [simp]:
  "log_inv (s\<lparr>log_committing := c\<rparr>) = log_inv s" "quiet (s\<lparr>log_committing := c\<rparr>) = quiet s"
  using op_fields_views [where s = s and n = "log_outstanding s" and c = c] by simp_all

lemma end_op_more:
  assumes "held s = {}" "\<not> log_committing s" "log_outstanding s \<noteq> 1"
  shows "end_op s = Inr ((), s\<lparr>log_outstanding := log_outstanding s - 1\<rparr>)"
  using assms by (simp add: end_op_def)

lemma log_inv_held: "log_inv s \<Longrightarrow> held s = {}"
  by (simp add: log_inv_def bio_ok_def)

lemma end_op_last:
  assumes "log_inv s" "busy s = (\<lambda>_. None)" "log_outstanding s = 1" "\<not> log_committing s"
  shows "\<exists>s'. end_op s = Inr ((), s') \<and> quiet s' \<and> log_inv s' \<and> log_lh s' = [] \<and>
     (\<forall>b. \<not> in_log (log_start s) b \<longrightarrow> disk s' 1 b = blk s b) \<and>
     log_outstanding s' = 0 \<and> \<not> log_committing s'"
proof -
  let ?s = "s\<lparr>log_outstanding := 0, log_committing := True\<rparr>"
  have h: "held s = {}" using assms(1) by (rule log_inv_held)
  have "\<exists>s'. commit ?s = Inr ((), s') \<and> quiet s' \<and> log_inv s' \<and> log_lh s' = [] \<and>
      (\<forall>b. \<not> in_log (log_start s) b \<longrightarrow> disk s' 1 b = blk s b) \<and> log_outstanding s' = 0"
  proof (cases "log_lh s = []")
    case True
    then have "quiet s" using assms(1,2) by (simp add: log_inv_def quiet_def)
    then show ?thesis using True assms(1) quiet_blk [of s] by (simp add: commit_def)
  next
    case False
    then show ?thesis using commit_inv [of ?s] assms(1,2) by auto
  qed
  then obtain s' where c: "commit ?s = Inr ((), s')" and s': "quiet s'" "log_inv s'" "log_lh s' = []"
    "\<forall>b. \<not> in_log (log_start s) b \<longrightarrow> disk s' 1 b = blk s b" "log_outstanding s' = 0" by blast
  have h': "held s' = {}" using s'(2) by (rule log_inv_held)
  have eq: "s\<lparr>log_outstanding := 0, log_committing := True, held := {}\<rparr> = ?s"
    using h by (cases s) simp
  have "end_op s = Inr ((), s'\<lparr>log_committing := False\<rparr>)"
    using assms(3,4) h h' c by (simp add: end_op_def eq)
  with s' show ?thesis by auto
qed

section \<open>Properties\<close>

text \<open>C9: Crash safety of the log.  The machine stops after any number \<open>k\<close> of the block writes
  of a \<open>commit\<close> and boots with the disk as it is then.  Then \<open>initlog\<close> returns, and every block
  outside the log has its contents from before the transaction, if the commit header had not
  been written, and its contents from after the transaction otherwise.  No mixture of the
  two is ever visible.\<close>

theorem commit_crash_safe:
  assumes "log_inv s" "busy s = (\<lambda>_. None)" "log_lh s \<noteq> []"
    and "commit s = Inr ((), s')" "dwrites s' = dwrites s @ ws"
    and "quiet t" "disk t 1 = wr (take k ws) (disk s 1)"
  shows "\<exists>t'. initlog 1 t = Inr ((), t') \<and> log_inv t' \<and>
    (\<forall>b. \<not> in_log (log_start s) b \<longrightarrow>
       blk t' b = (if k \<le> length (log_lh s) then disk s 1 b else blk s b))"
proof -
  let ?ls = "log_start s" and ?lh = "log_lh s"
  let ?c = "crashed ?ls ?lh (blk s) (disk s 1) k"
  have p: "pending ?ls ?lh (blk s) (disk s 1)" by (rule pending_inv [OF assms(1,2)])
  have "ws = commit_writes ?ls ?lh (blk s)" using commit_inv [OF assms(1-3)] assms(4,5) by auto
  then have d: "disk t 1 = ?c" using assms(7) by (simp add: crashed_def)
  have inv: "uint_at 12 (disk s 1 1) = LOGSIZE" "uint_at 16 (disk s 1 1) = ?ls" "1 \<notin> set ?lh"
    "\<not> in_log ?ls 1"
    using assms(1) by (simp_all add: log_inv_def)
  note sb = crashed_one [OF p inv(3,4), of k]
  have hd: "lh_ok ?ls (head_of (?c ?ls))" "set (head_of (?c ?ls)) \<subseteq> set ?lh"
    using recovered_crashed(1) [OF p] crashed_head [OF p] by simp_all
  have "bootable (disk t 1)"
    unfolding d bootable_def Let_def sb inv(1,2) using inv hd by auto
  from initlog_spec [OF assms(6) this] obtain t' where t': "initlog 1 t = Inr ((), t')" "quiet t'" "log_inv t'"
    "disk t' 1 = recovered ?ls ?c"
    unfolding d sb inv(2) by blast
  then show ?thesis using recovered_crashed(2) [OF p] quiet_blk [of t'] by auto
qed

text \<open>A machine in the middle of a transaction on block 50, as the witnesses use it.\<close>

definition sample_disk :: "nat \<Rightarrow> nat \<Rightarrow> bytes" where
  "sample_disk = (\<lambda>_ b. if b = 1 then concat (map put32 [2000, 1941, 200, 30, 2, 32, 58]) @ replicate 484 0
     else replicate BSIZE 0)"

definition sample_log :: logst where
  "sample_log = (zeroed sample_disk)\<lparr>blru := rev [0..<NBUF],
     bufs := (bufs (zeroed sample_disk))[0 := \<lparr>b_valid = True, b_dirty = True, b_dev = 1, b_blockno = 50,
       b_refcnt = 0, b_data = replicate BSIZE 7\<rparr>],
     log_start := 2, log_size := LOGSIZE, log_dev := 1, log_lh := [50]\<rparr>"

definition rebooted :: "(nat \<Rightarrow> bytes) \<Rightarrow> logst" where
  "rebooted d = (zeroed (\<lambda>_. d))\<lparr>blru := rev [0..<NBUF]\<rparr>"

lemma get32_zero: "get32 (replicate 4 0) = 0"
  by (simp add: get32_def numeral_eq_Suc)

lemma sample_disk_simps [simp]:
  "uint_at 12 (sample_disk k (Suc 0)) = LOGSIZE" "uint_at 16 (sample_disk k (Suc 0)) = 2"
  "head_of (sample_disk k 2) = []" "length (sample_disk k b) = BSIZE"
  by (simp_all add: sample_disk_def uint_at_def slice_def head_of_def get32_zero)

lemma sample_bio_ok: "bio_ok sample_log"
  by (auto simp: sample_log_def zeroed_def bio_ok_def buf_ok_def Let_def nth_list_update)

lemma sample_slot: "slot sample_log b = (if b = 50 then Some 0 else None)"
proof (cases "b = 50")
  case True
  then have "slot sample_log b = Some 0"
    unfolding slot_Some_iff [OF sample_bio_ok] by (simp add: sample_log_def zeroed_def NBUF_def)
  then show ?thesis using True by simp
next
  case False
  then have "slot sample_log b = None"
    unfolding slot_None_iff [OF sample_bio_ok]
    by (auto simp: sample_log_def zeroed_def nth_list_update)
  then show ?thesis using False by simp
qed

lemma sample_inv: "log_inv sample_log" and sample_busy: "busy sample_log = (\<lambda>_. None)"
proof -
  have b0: "buf_at sample_log 0 = \<lparr>b_valid = True, b_dirty = True, b_dev = 1, b_blockno = 50,
      b_refcnt = 0, b_data = replicate BSIZE 7\<rparr>"
    by (simp add: sample_log_def zeroed_def NBUF_def)
  show "busy sample_log = (\<lambda>_. None)" by (simp add: fun_eq_iff busy_def sample_slot b0)
  have "is_dirty sample_log = (\<lambda>b. b \<in> set [50])"
    by (simp add: fun_eq_iff is_dirty_def sample_slot b0)
  moreover have "log_lh sample_log = [50]" "log_start sample_log = 2" "log_size sample_log = LOGSIZE"
    "log_dev sample_log = 1" "disk sample_log = sample_disk"
    by (simp_all add: sample_log_def zeroed_def)
  ultimately show "log_inv sample_log"
    using sample_bio_ok by (simp add: log_inv_def lh_ok_def in_log_def)
qed

lemma rebooted_quiet:
  assumes "\<And>b. length (d b) = BSIZE"
  shows "quiet (rebooted d)"
proof -
  have "slot (rebooted d) b = None" for b
    by (auto simp: slot_def find_None_iff rebooted_def zeroed_def)
  moreover have "bio_ok (rebooted d)"
    using assms by (auto simp: rebooted_def zeroed_def bio_ok_def buf_ok_def Let_def)
  ultimately show ?thesis by (simp add: quiet_def busy_def is_dirty_def fun_eq_iff)
qed

lemma length_wr: "(\<And>b. length (d b) = n) \<Longrightarrow> \<forall>(x, b, v) \<in> set ws. length v = n \<Longrightarrow> length (wr ws d b) = n"
  by (induction ws arbitrary: d) auto

theorem commit_crash_safe_witness:
  "\<exists>s' ws. commit sample_log = Inr ((), s') \<and> dwrites s' = dwrites sample_log @ ws \<and> length ws = 4 \<and>
     (\<forall>k. \<exists>t'. initlog 1 (rebooted (wr (take k ws) (disk sample_log 1))) = Inr ((), t') \<and>
       blk t' 50 = (if k \<le> 1 then disk sample_log 1 50 else blk sample_log 50))"
proof -
  let ?s = sample_log
  have lh: "log_lh ?s = [50]" "log_start ?s = 2" "disk ?s = sample_disk" "dwrites ?s = []"
    by (simp_all add: sample_log_def zeroed_def)
  obtain s' where c: "commit ?s = Inr ((), s')" and w: "dwrites s' = dwrites ?s @ commit_writes 2 [50] (blk ?s)"
    using commit_inv [OF sample_inv sample_busy] lh by auto
  let ?ws = "commit_writes 2 [50] (blk ?s)"
  have len: "\<forall>(x, b, v) \<in> set ?ws. length v = BSIZE"
    by (auto simp: commit_writes_def log_copy_def length_blk [OF sample_bio_ok])
  have "\<exists>t'. initlog 1 (rebooted (wr (take k ?ws) (disk ?s 1))) = Inr ((), t') \<and>
      blk t' 50 = (if k \<le> 1 then disk ?s 1 50 else blk ?s 50)" for k
  proof -
    have q: "quiet (rebooted (wr (take k ?ws) (disk ?s 1)))"
      using len lh by (intro rebooted_quiet length_wr) (auto dest: in_set_takeD)
    have "disk (rebooted (wr (take k ?ws) (disk ?s 1))) 1 = wr (take k ?ws) (disk ?s 1)"
      by (simp add: rebooted_def zeroed_def)
    from commit_crash_safe [OF sample_inv sample_busy _ c w q this] lh show ?thesis
      by (fastforce simp: in_log_def)
  qed
  moreover have "length ?ws = 4" by (simp add: commit_writes_def log_copy_def)
  ultimately show ?thesis using c w by blast
qed

section \<open>The space of the log\<close>

text \<open>Buffers written one after the other in a transaction.\<close>

primrec log_writes :: "nat list \<Rightarrow> ('z logst_scheme, unit) kfun" where
  "log_writes [] = ret ()"
| "log_writes (i # is) = thn (log_write i) (log_writes is)"

abbreviation blocknos :: "'z logst_scheme \<Rightarrow> nat list \<Rightarrow> nat list" where
  "blocknos s is \<equiv> map (\<lambda>i. b_blockno (buf_at s i)) is"

lemma log_write_room:
  assumes "log_size s = LOGSIZE" "length (log_lh s) < LOGSIZE - 1" "1 \<le> log_outstanding s" "held s = {}"
    and "b_blockno (buf_at s i) \<notin> set (log_lh s)"
  shows "\<exists>s'. log_write i s = Inr ((), s') \<and> log_lh s' = log_lh s @ [b_blockno (buf_at s i)] \<and>
    log_size s' = log_size s \<and> log_outstanding s' = log_outstanding s \<and> held s' = {} \<and>
    (\<forall>j. b_blockno (buf_at s' j) = b_blockno (buf_at s j))"
  using assms by (cases "i < length (bufs s)")
    (auto simp: log_write_def Let_def upd_buf_def nth_list_update list_update_beyond not_less)

lemma log_writes_room:
  assumes "log_size s = LOGSIZE" "length (log_lh s) + length is \<le> LOGSIZE - 1" "1 \<le> log_outstanding s"
    and "held s = {}" "distinct (log_lh s @ blocknos s is)"
  shows "\<exists>s'. log_writes is s = Inr ((), s') \<and> log_lh s' = log_lh s @ blocknos s is \<and>
    log_size s' = LOGSIZE \<and> log_outstanding s' = log_outstanding s"
  using assms
proof (induction "is" arbitrary: s)
  case (Cons i "is")
  obtain s1 where s1: "log_write i s = Inr ((), s1)" "log_lh s1 = log_lh s @ [b_blockno (buf_at s i)]"
      "log_size s1 = log_size s" "log_outstanding s1 = log_outstanding s" "held s1 = {}"
      "\<forall>j. b_blockno (buf_at s1 j) = b_blockno (buf_at s j)"
    using log_write_room [of s i] Cons.prems by auto
  then have "blocknos s1 is = blocknos s is" by simp
  with Cons.IH [of s1] Cons.prems s1 show ?case by auto
qed simp

lemma log_writes_append: "log_writes (is @ js) = thn (log_writes is) (log_writes js)"
  by (induction "is") (simp_all add: bnd_assoc)

text \<open>C26: The log is one block smaller than the space \<open>begin_op\<close> gives away.  On an empty log \<open>begin_op\<close> admits
  three operations, each of which may write \<open>MAXOPBLOCKS = 10\<close> blocks.  The log takes any 29 distinct
  blocks from them, but the thirtieth makes \<open>log_write\<close> panic, although every operation has kept to its
  limit.\<close>

theorem log_reservation:
  assumes "held s = {}" "\<not> log_committing s" "log_lh s = []" "log_outstanding s = 0" "log_size s = LOGSIZE"
    and "distinct (blocknos s is)" "length is = 3 * MAXOPBLOCKS"
  shows "\<exists>s' s''. times 3 begin_op s = Inr ([(), (), ()], s') \<and>
    log_writes (take 29 is) s' = Inr ((), s'') \<and> log_writes is s' = Inl (Panic ''too big a transaction'')"
proof -
  let ?s' = "s\<lparr>log_outstanding := 3\<rparr>" and ?is = "take 29 is"
  have b: "times 3 begin_op s = Inr ([(), (), ()], ?s')"
  proof -
    have "begin_op s = Inr ((), s\<lparr>log_outstanding := 1\<rparr>)"
        "begin_op (s\<lparr>log_outstanding := 1\<rparr>) = Inr ((), s\<lparr>log_outstanding := 2\<rparr>)"
        "begin_op (s\<lparr>log_outstanding := 2\<rparr>) = Inr ((), ?s')"
      using assms(1-4) by (simp_all add: begin_op_spec)
    then show ?thesis by (simp add: numeral_3_eq_3 bnd_def)
  qed
  have "distinct (blocknos s ?is)" 
    using distinct_take [OF assms(6), of 29] by (simp only: take_map)
  then obtain s'' where s'': "log_writes ?is ?s' = Inr ((), s'')" "log_lh s'' = blocknos s ?is"
      "log_size s'' = LOGSIZE" "log_outstanding s'' = 3"
    using log_writes_room [of ?s' ?is] assms by auto
  have "length (log_lh s'') = 29" using s''(2) assms(7) by simp
  then have w: "log_write (is ! 29) s'' = Inl (Panic ''too big a transaction'')"
    using s''(3) by (simp add: log_write_def)
  have eq: "?is @ [is ! 29] = is" using take_Suc_conv_app_nth [of 29 "is"] assms(7) by simp
  have "log_writes (?is @ [is ! 29]) ?s' = Inl (Panic ''too big a transaction'')"
    using s''(1) w by (simp add: log_writes_append bnd_def)
  then have "log_writes is ?s' = Inl (Panic ''too big a transaction'')" by (simp only: eq)
  with b s''(1) show ?thesis by blast
qed

theorem log_reservation_witness:
  "let s = (zeroed (\<lambda>_ _. []))\<lparr>log_size := 30, bufs := map (\<lambda>i. \<lparr>b_valid = True, b_dirty = False, b_dev = 1,
       b_blockno = 100 + i, b_refcnt = 1, b_data = []\<rparr>) [0..<30]\<rparr> in
   \<exists>s' s''. times 3 begin_op s = Inr ([(), (), ()], s') \<and> log_writes (take 29 [0..<30]) s' = Inr ((), s'') \<and>
     log_writes [0..<30] s' = Inl (Panic ''too big a transaction'')"
proof -
  let ?s = "(zeroed (\<lambda>_ _. []))\<lparr>log_size := 30, bufs := map (\<lambda>i. \<lparr>b_valid = True, b_dirty = False, b_dev = 1,
       b_blockno = 100 + i, b_refcnt = 1, b_data = []\<rparr>) [0..<30]\<rparr>"
  have "distinct (blocknos ?s [0..<30])" by (simp add: distinct_map inj_on_def del: upt_rec_numeral)
  with log_reservation [of ?s "[0..<30]"] show ?thesis
    by (simp add: zeroed_def Let_def del: upt_rec_numeral take_upt)
qed

end
