(* ===== verification/SCR.thy ===== *)
theory SCR
  imports Kernel_Monad
begin

text \<open>
  System call records (\<open>rr.h\<close>, and \<open>sysproc.c\<close> up to \<open>compareSCRS\<close>): the record type
  \<open>SCR\<close>, the global state of a record or replay session, the \<open>add...\<close> functions that
  append one argument to a record, \<open>addSRC\<close> that stores a finished record and
  \<open>compareSCRS\<close> that fetches the next stored record during a replay and compares its
  inputs with the call at hand.

  A union \<open>Val\<close> is kept as the 204 bytes it occupies, so that reading a member other than
  the one last written means what it means on the machine.  Bytes the C code leaves
  uninitialised hold the contents of the field \<open>junk\<close>, about which nothing is assumed but
  its length.  Console output is not part of the state.
\<close>

section \<open>Constants\<close>

abbreviation MAX_SCRS :: nat where "MAX_SCRS \<equiv> 1000"
abbreviation MAX_ARGC :: nat where "MAX_ARGC \<equiv> 4"
abbreviation MAX_RAW_SIZE :: nat where "MAX_RAW_SIZE \<equiv> 200"
abbreviation MAX_FILE_SIZE :: nat where "MAX_FILE_SIZE \<equiv> 60000"
abbreviation VAL_SIZE :: nat where "VAL_SIZE \<equiv> 204"

abbreviation UNITIALIZED_SCR :: int where "UNITIALIZED_SCR \<equiv> 0"
abbreviation NONE_TYPE :: byte where "NONE_TYPE \<equiv> 0"
abbreviation INT_TYPE :: byte where "INT_TYPE \<equiv> 1"
abbreviation UINT_TYPE :: byte where "UINT_TYPE \<equiv> 2"
abbreviation BYTE_TYPE :: byte where "BYTE_TYPE \<equiv> 3"
abbreviation RAW_TYPE :: byte where "RAW_TYPE \<equiv> 4"
abbreviation STAT_TYPE :: byte where "STAT_TYPE \<equiv> 5"

abbreviation SYS_read :: int where "SYS_read \<equiv> 5"
abbreviation SYS_fstat :: int where "SYS_fstat \<equiv> 8"
abbreviation SYS_chdir :: int where "SYS_chdir \<equiv> 9"
abbreviation SYS_getpid :: int where "SYS_getpid \<equiv> 11"
abbreviation SYS_uptime :: int where "SYS_uptime \<equiv> 14"
abbreviation SYS_open :: int where "SYS_open \<equiv> 15"
abbreviation SYS_mknod :: int where "SYS_mknod \<equiv> 17"
abbreviation SYS_unlink :: int where "SYS_unlink \<equiv> 18"
abbreviation SYS_link :: int where "SYS_link \<equiv> 19"
abbreviation SYS_mkdir :: int where "SYS_mkdir \<equiv> 20"
abbreviation SYS_close :: int where "SYS_close \<equiv> 21"

section \<open>The union Val and its members\<close>

text \<open>Layout: \<open>num\<close>, \<open>unum\<close> and \<open>raw.size\<close> at offset 0, \<open>raw.data\<close> at offset 4; the members of
  \<open>st\<close> at offsets 0, 4, 8, 12 and 16.\<close>

type_synonym val = bytes

definition val_num :: "val \<Rightarrow> i32" where
  "val_num v = get32 (slice 0 4 v)"

definition val_unum :: "val \<Rightarrow> u32" where
  "val_unum v = get32 (slice 0 4 v)"

definition raw_size :: "val \<Rightarrow> int" where
  "raw_size v = sint (get32 (slice 0 4 v))"

definition raw_data :: "val \<Rightarrow> bytes" where
  "raw_data v = slice 4 MAX_RAW_SIZE v"

record myStat =
  st_type :: u16
  st_dev :: i32
  st_ino :: u32
  st_nlink :: u16
  st_size :: u32

definition val_st :: "val \<Rightarrow> myStat" where
  "val_st v = \<lparr>st_type = get16 (slice 0 2 v), st_dev = get32 (slice 4 4 v),
     st_ino = get32 (slice 8 4 v), st_nlink = get16 (slice 12 2 v),
     st_size = get32 (slice 16 4 v)\<rparr>"

definition set_num :: "i32 \<Rightarrow> val \<Rightarrow> val" where
  "set_num n v = patch v 0 (put32 n)"

definition set_raw :: "int \<Rightarrow> bytes \<Rightarrow> val \<Rightarrow> val" where
  "set_raw n d v = patch (patch v 0 (put32 (word_of_int n))) 4 d"

definition set_st :: "myStat \<Rightarrow> val \<Rightarrow> val" where
  "set_st t v = patch (patch (patch (patch (patch v
     12 (put16 (st_nlink t))) 8 (put32 (st_ino t))) 16 (put32 (st_size t)))
     4 (put32 (st_dev t))) 0 (put16 (st_type t))"

record Arg =
  arg_type :: byte
  arg_val :: val

record SCR =
  scr_syscall :: byte
  scr_argc :: byte
  scr_args :: "Arg list"

section \<open>The state of a session\<close>

record rrst =
  record_syscalls :: u32
  replay_syscalls :: u32
  record_filename :: bytes
  replay_filename :: bytes
  recorded_scrs :: "SCR list"
  scrs_idx :: int
  buffer :: bytes
  buffer_pos :: int
  rr_pid :: int
  killed :: bool
  junk :: bytes

definition isRecOrReplay :: "int \<Rightarrow> rrst \<Rightarrow> bool" where
  "isRecOrReplay pid s \<longleftrightarrow> record_syscalls s = 1 \<and> replay_syscalls s = 1 \<and> rr_pid s = pid"

definition isRecording :: "int \<Rightarrow> rrst \<Rightarrow> bool" where
  "isRecording pid s \<longleftrightarrow> record_syscalls s = 1 \<and> rr_pid s = pid"

definition isReplaying :: "int \<Rightarrow> rrst \<Rightarrow> bool" where
  "isReplaying pid s \<longleftrightarrow> replay_syscalls s = 1 \<and> rr_pid s = pid"

definition RecRepErr :: "(rrst, unit) kfun" where
  "RecRepErr = md (\<lambda>s. s\<lparr>killed := True, replay_syscalls := -1, record_syscalls := -1\<rparr>)"

section \<open>Tables indexed by system call number\<close>

definition getSyscallName :: "int \<Rightarrow> string" where
  "getSyscallName n =
     (if n = UNITIALIZED_SCR then ''uninitialized (invalid)''
      else if n = SYS_getpid then ''getpid''
      else if n = SYS_uptime then ''uptime''
      else if n = SYS_close then ''close''
      else if n = SYS_open then ''open''
      else if n = SYS_read then ''read''
      else if n = SYS_fstat then ''fstat''
      else if n = SYS_mkdir then ''mkdir''
      else if n = SYS_chdir then ''chdir''
      else if n = SYS_mknod then ''mknod''
      else if n = SYS_unlink then ''unlink''
      else if n = SYS_link then ''link''
      else ''unknown syscall!'')"

definition get1stOutputPos :: "int \<Rightarrow> int" where
  "get1stOutputPos n =
     (if n = SYS_uptime \<or> n = SYS_getpid then 0
      else if n = SYS_fstat \<or> n = SYS_close \<or> n = SYS_mkdir \<or> n = SYS_chdir \<or> n = SYS_unlink
      then 1
      else if n = SYS_read \<or> n = SYS_open \<or> n = SYS_link then 2
      else if n = SYS_mknod then 3
      else -1)"

section \<open>Building a record\<close>

text \<open>\<open>scr->args[i]\<close> as the C code reads it: outside \<open>0..3\<close> the access is undefined.\<close>

definition get_arg :: "SCR \<Rightarrow> int \<Rightarrow> ('s, Arg) kfun" where
  "get_arg scr i =
     (if 0 \<le> i \<and> i < int MAX_ARGC then ret (scr_args scr ! nat i) else stop (UB ''args''))"

definition put_arg :: "SCR \<Rightarrow> Arg \<Rightarrow> ('s, SCR) kfun" where
  "put_arg scr a =
     (if unat (scr_argc scr) < MAX_ARGC
      then ret (scr\<lparr>scr_args := (scr_args scr)[unat (scr_argc scr) := a],
                    scr_argc := scr_argc scr + 1\<rparr>)
      else stop (UB ''args''))"

definition createSCR :: "int \<Rightarrow> rrst \<Rightarrow> SCR" where
  "createSCR n s = \<lparr>scr_syscall = word_of_int n, scr_argc = 0,
     scr_args = replicate MAX_ARGC
       \<lparr>arg_type = NONE_TYPE, arg_val = patch (junk s) 4 (replicate MAX_RAW_SIZE 0)\<rparr>\<rparr>"

definition addInt :: "SCR \<Rightarrow> i32 \<Rightarrow> (rrst, SCR) kfun" where
  "addInt scr v =
     thn (whn (MAX_ARGC \<le> unat (scr_argc scr)) RecRepErr)
    (bnd (rd junk) (\<lambda>g.
     put_arg scr \<lparr>arg_type = INT_TYPE, arg_val = set_num v g\<rparr>))"

definition addUInt :: "SCR \<Rightarrow> u32 \<Rightarrow> (rrst, SCR) kfun" where
  "addUInt scr v =
     thn (whn (MAX_ARGC \<le> unat (scr_argc scr)) RecRepErr)
    (bnd (rd junk) (\<lambda>g.
     put_arg scr \<lparr>arg_type = UINT_TYPE, arg_val = set_num v g\<rparr>))"

text \<open>\<open>str\<close> are the bytes of the string before its terminating zero.  The copy into
  \<open>raw.data\<close> runs over the end of the array when the string is longer than it.\<close>

definition addStr :: "SCR \<Rightarrow> bytes \<Rightarrow> (rrst, SCR) kfun" where
  "addStr scr str =
     thn (whn (MAX_RAW_SIZE < length str) RecRepErr)
    (thn (chk (length str \<le> MAX_RAW_SIZE) (UB ''raw.data''))
    (thn (whn (MAX_ARGC \<le> unat (scr_argc scr)) RecRepErr)
    (bnd (rd junk) (\<lambda>g.
     put_arg scr \<lparr>arg_type = BYTE_TYPE,
       arg_val = set_raw (int (length str)) (patch (replicate MAX_RAW_SIZE 0) 0 str) g\<rparr>))))"

text \<open>\<open>mem\<close> is the memory from the pointer \<open>buffer\<close> on, \<open>n\<close> the number of bytes to copy;
  \<open>memmove\<close> takes its length as an unsigned number.\<close>

definition addRaw :: "SCR \<Rightarrow> bytes \<Rightarrow> int \<Rightarrow> (rrst, SCR) kfun" where
  "addRaw scr mem n =
     thn (whn (int MAX_RAW_SIZE < n) RecRepErr)
    (thn (chk (0 \<le> n \<and> n \<le> int MAX_RAW_SIZE \<and> nat n \<le> length mem) (UB ''raw.data''))
    (thn (whn (MAX_ARGC \<le> unat (scr_argc scr)) RecRepErr)
    (bnd (rd junk) (\<lambda>g.
     put_arg scr \<lparr>arg_type = BYTE_TYPE,
       arg_val = set_raw n (patch (replicate MAX_RAW_SIZE 0) 0 (take (nat n) mem)) g\<rparr>))))"

definition addStat :: "SCR \<Rightarrow> myStat \<Rightarrow> (rrst, SCR) kfun" where
  "addStat scr t =
     thn (whn (MAX_ARGC \<le> unat (scr_argc scr)) RecRepErr)
    (bnd (rd junk) (\<lambda>g.
     put_arg scr \<lparr>arg_type = STAT_TYPE, arg_val = set_st t g\<rparr>))"

section \<open>Storing and fetching records\<close>

text \<open>\<open>recorded_scrs[i]\<close>: \<open>scrs_idx\<close> is checked against the upper bound only.\<close>

definition get_scr :: "int \<Rightarrow> (rrst, SCR) kfun" where
  "get_scr i =
     (if 0 \<le> i \<and> i < int MAX_SCRS then rd (\<lambda>s. recorded_scrs s ! nat i)
      else stop (UB ''recorded_scrs''))"

definition set_scr :: "int \<Rightarrow> SCR \<Rightarrow> (rrst, unit) kfun" where
  "set_scr i scr =
     (if 0 \<le> i \<and> i < int MAX_SCRS
      then md (\<lambda>s. s\<lparr>recorded_scrs := (recorded_scrs s)[nat i := scr]\<rparr>)
      else stop (UB ''recorded_scrs''))"

definition addSRC :: "SCR \<Rightarrow> (rrst, unit) kfun" where
  "addSRC scr = bnd (rd scrs_idx) (\<lambda>i.
     if int MAX_SCRS \<le> i then RecRepErr
     else thn (set_scr i scr) (md (\<lambda>s. s\<lparr>scrs_idx := scrs_idx s + 1\<rparr>)))"

text \<open>The byte loop of \<open>compareSCRS\<close>: does \<open>raw.data\<close> agree at the listed positions?\<close>

primrec same_data :: "bytes \<Rightarrow> bytes \<Rightarrow> nat list \<Rightarrow> ('s, bool) kfun" where
  "same_data x y [] = ret True"
| "same_data x y (j # js) =
     thn (chk (j < MAX_RAW_SIZE) (UB ''raw.data''))
     (if x ! j = y ! j then same_data x y js else ret False)"

text \<open>One position of the input loop: \<open>True\<close> lets the loop go on, \<open>False\<close> is the early return
  after \<open>RecRepErr\<close>.\<close>

definition compare_arg :: "Arg \<Rightarrow> Arg \<Rightarrow> (rrst, bool) kfun" where
  "compare_arg r a =
     (if arg_type r = INT_TYPE then
        (if val_num (arg_val r) \<noteq> val_num (arg_val a) then thn RecRepErr (ret False) else ret True)
      else if arg_type r = BYTE_TYPE then
        (if raw_size (arg_val r) \<noteq> raw_size (arg_val a) then thn RecRepErr (ret False)
         else bnd (same_data (raw_data (arg_val a)) (raw_data (arg_val r))
                     [0..<nat (raw_size (arg_val a))]) (\<lambda>same.
              if same then ret True else thn RecRepErr (ret False)))
      else thn RecRepErr (ret False))"

primrec compare_args :: "SCR \<Rightarrow> SCR \<Rightarrow> int list \<Rightarrow> (rrst, bool) kfun" where
  "compare_args r scr [] = ret True"
| "compare_args r scr (i # is) =
     bnd (get_arg r i) (\<lambda>x. bnd (get_arg scr i) (\<lambda>a. bnd (compare_arg x a) (\<lambda>ok.
     if ok then compare_args r scr is else ret False)))"

definition compareSCRS :: "SCR \<Rightarrow> (rrst, SCR) kfun" where
  "compareSCRS scr = bnd (rd scrs_idx) (\<lambda>i.
     if int MAX_SCRS \<le> i then thn RecRepErr (rd (createSCR UNITIALIZED_SCR))
     else bnd (get_scr i) (\<lambda>r.
       thn (md (\<lambda>s. s\<lparr>scrs_idx := scrs_idx s + 1\<rparr>))
       (if uint (scr_syscall r) = UNITIALIZED_SCR then thn RecRepErr (ret r)
        else if scr_syscall r \<noteq> scr_syscall scr then thn RecRepErr (ret r)
        else thn (compare_args r scr [0..get1stOutputPos (uint (scr_syscall r)) - 1]) (ret r))))"

section \<open>Abstract view of a record\<close>

text \<open>What a record says, independent of its layout in memory: the system call and its typed
  arguments.  \<open>arg_view\<close> is undefined on the types that are never serialised and on raw
  data whose size field does not fit the array.\<close>

datatype aarg = AInt i32 | AUInt u32 | ABytes bytes | AStat myStat

definition arg_view :: "Arg \<Rightarrow> aarg option" where
  "arg_view a =
     (let v = arg_val a in
      if arg_type a = INT_TYPE then Some (AInt (val_num v))
      else if arg_type a = UINT_TYPE then Some (AUInt (val_unum v))
      else if arg_type a = BYTE_TYPE then
        (if 0 \<le> raw_size v \<and> raw_size v \<le> int MAX_RAW_SIZE
         then Some (ABytes (take (nat (raw_size v)) (raw_data v))) else None)
      else if arg_type a = STAT_TYPE then Some (AStat (val_st v))
      else None)"

definition arg_ok :: "Arg \<Rightarrow> bool" where
  "arg_ok a \<longleftrightarrow> length (arg_val a) = VAL_SIZE"

definition scr_shape :: "SCR \<Rightarrow> bool" where
  "scr_shape r \<longleftrightarrow> length (scr_args r) = MAX_ARGC \<and> (\<forall>a \<in> set (scr_args r). arg_ok a)"

definition scr_views :: "SCR \<Rightarrow> aarg option list" where
  "scr_views r = map arg_view (take (unat (scr_argc r)) (scr_args r))"

text \<open>\<open>scr_is r n as\<close>: the record \<open>r\<close> is well formed and says "system call \<open>n\<close> with
  arguments \<open>as\<close>".\<close>

definition scr_is :: "SCR \<Rightarrow> byte \<Rightarrow> aarg list \<Rightarrow> bool" where
  "scr_is r n as \<longleftrightarrow> scr_shape r \<and> scr_syscall r = n \<and> unat (scr_argc r) = length as \<and>
     length as \<le> MAX_ARGC \<and> scr_views r = map Some as"

definition rr_ok :: "rrst \<Rightarrow> bool" where
  "rr_ok s \<longleftrightarrow> length (recorded_scrs s) = MAX_SCRS \<and> (\<forall>r \<in> set (recorded_scrs s). scr_shape r) \<and>
     length (buffer s) = MAX_FILE_SIZE \<and> length (junk s) = VAL_SIZE \<and> 0 \<le> scrs_idx s"

section \<open>Reading back what was written to a union\<close>

lemma val_num_set_num [simp]: "length v = VAL_SIZE \<Longrightarrow> val_num (set_num n v) = n"
  by (simp add: val_num_def set_num_def)

lemma val_unum_set_num [simp]: "length v = VAL_SIZE \<Longrightarrow> val_unum (set_num n v) = n"
  by (simp add: val_unum_def set_num_def)

lemma length_set_num [simp]: "length v = VAL_SIZE \<Longrightarrow> length (set_num n v) = VAL_SIZE"
  by (simp add: set_num_def)

lemma raw_size_set_raw [simp]:
  "length v = VAL_SIZE \<Longrightarrow> length d = MAX_RAW_SIZE \<Longrightarrow> 0 \<le> n \<Longrightarrow> n \<le> int MAX_RAW_SIZE \<Longrightarrow>
   raw_size (set_raw n d v) = n"
  by (simp add: raw_size_def set_raw_def slice_patch_before sint_small)

lemma raw_data_set_raw [simp]:
  "length v = VAL_SIZE \<Longrightarrow> length d = MAX_RAW_SIZE \<Longrightarrow> raw_data (set_raw n d v) = d"
  by (simp add: raw_data_def set_raw_def)

lemma length_set_raw [simp]:
  "length v = VAL_SIZE \<Longrightarrow> length d = MAX_RAW_SIZE \<Longrightarrow> length (set_raw n d v) = VAL_SIZE"
  by (simp add: set_raw_def)

lemma length_set_st [simp]: "length v = VAL_SIZE \<Longrightarrow> length (set_st t v) = VAL_SIZE"
  by (simp add: set_st_def)

lemma val_st_set_st [simp]: "length v = VAL_SIZE \<Longrightarrow> val_st (set_st t v) = t"
  by (simp add: val_st_def set_st_def slice_patch_before slice_patch_after)

section \<open>Appending an argument\<close>

lemma set_list_update_subset: "\<forall>x \<in> set xs. P x \<Longrightarrow> P y \<Longrightarrow> \<forall>x \<in> set (xs[i := y]). P x"
  using set_update_subset_insert [of xs i y] by blast

lemma scr_shape_upd [simp]:
  "scr_shape r \<Longrightarrow> arg_ok a \<Longrightarrow> scr_shape (r\<lparr>scr_args := (scr_args r)[i := a]\<rparr>)"
  unfolding scr_shape_def by (auto intro: set_list_update_subset [THEN bspec])

lemma scr_shape_more [simp]:
  "scr_shape (r\<lparr>scr_argc := c\<rparr>) = scr_shape r" "scr_shape (r\<lparr>scr_syscall := n\<rparr>) = scr_shape r"
  by (simp_all add: scr_shape_def)

lemma scr_is_createSCR:
  "length (junk s) = VAL_SIZE \<Longrightarrow> scr_is (createSCR n s) (word_of_int n) []"
  by (simp add: scr_is_def scr_shape_def scr_views_def createSCR_def arg_ok_def)

lemma put_arg_is:
  assumes r: "scr_is r n as" and room: "length as < MAX_ARGC"
    and a: "arg_ok a" "arg_view a = Some x"
  shows "\<exists>r'. put_arg r a s = Inr (r', s) \<and> scr_is r' n (as @ [x])"
proof -
  from r have argc: "unat (scr_argc r) = length as" and len: "length (scr_args r) = MAX_ARGC"
    and views: "scr_views r = map Some as"
    by (simp_all add: scr_is_def scr_shape_def)
  from argc room have suc: "unat (scr_argc r + 1) = Suc (length as)"
    by (simp add: unat_word_ariths)
  have "take (Suc (length as)) ((scr_args r)[length as := a])
      = take (length as) (scr_args r) @ [a]"
    using room len by (simp add: take_Suc_conv_app_nth)
  with views argc a have "map arg_view (take (Suc (length as)) ((scr_args r)[length as := a]))
      = map Some (as @ [x])"
    by (simp add: scr_views_def)
  then have "scr_views (r\<lparr>scr_args := (scr_args r)[length as := a], scr_argc := scr_argc r + 1\<rparr>)
      = map Some (as @ [x])"
    by (simp add: scr_views_def suc)
  moreover have "scr_shape (r\<lparr>scr_args := (scr_args r)[length as := a], scr_argc := scr_argc r + 1\<rparr>)"
    using r a by (simp add: scr_is_def)
  ultimately have "scr_is (r\<lparr>scr_args := (scr_args r)[length as := a], scr_argc := scr_argc r + 1\<rparr>)
      n (as @ [x])"
    using r room suc by (simp add: scr_is_def)
  then show ?thesis
    using room argc by (simp add: put_arg_def)
qed

lemma whn_argc [simp]:
  "scr_is r n as \<Longrightarrow> length as < MAX_ARGC \<Longrightarrow> whn (MAX_ARGC \<le> unat (scr_argc r)) m = ret ()"
  by (simp add: scr_is_def whn_def)

lemma addInt_is:
  assumes "scr_is r n as" "length as < MAX_ARGC" "length (junk s) = VAL_SIZE"
  shows "\<exists>r'. addInt r v s = Inr (r', s) \<and> scr_is r' n (as @ [AInt v])"
proof -
  have "arg_ok \<lparr>arg_type = INT_TYPE, arg_val = set_num v (junk s)\<rparr>"
    "arg_view \<lparr>arg_type = INT_TYPE, arg_val = set_num v (junk s)\<rparr> = Some (AInt v)"
    using assms by (simp_all add: arg_ok_def arg_view_def)
  from put_arg_is [OF assms(1,2) this] show ?thesis
    using assms by (simp add: addInt_def)
qed

lemma addUInt_is:
  assumes "scr_is r n as" "length as < MAX_ARGC" "length (junk s) = VAL_SIZE"
  shows "\<exists>r'. addUInt r v s = Inr (r', s) \<and> scr_is r' n (as @ [AUInt v])"
proof -
  have "arg_ok \<lparr>arg_type = UINT_TYPE, arg_val = set_num v (junk s)\<rparr>"
    "arg_view \<lparr>arg_type = UINT_TYPE, arg_val = set_num v (junk s)\<rparr> = Some (AUInt v)"
    using assms by (simp_all add: arg_ok_def arg_view_def)
  from put_arg_is [OF assms(1,2) this] show ?thesis
    using assms by (simp add: addUInt_def)
qed

lemma take_patch_0 [simp]: "length d \<le> length bs \<Longrightarrow> take (length d) (patch bs 0 d) = d"
  by (simp add: patch_def)

lemma raw_arg_view:
  assumes "length g = VAL_SIZE" "length d \<le> MAX_RAW_SIZE"
  shows "arg_view \<lparr>arg_type = BYTE_TYPE,
      arg_val = set_raw (int (length d)) (patch (replicate MAX_RAW_SIZE 0) 0 d) g\<rparr> = Some (ABytes d)"
  using assms by (simp add: arg_view_def)

lemma addStr_is:
  assumes "scr_is r n as" "length as < MAX_ARGC" "length (junk s) = VAL_SIZE"
    and "length str \<le> MAX_RAW_SIZE"
  shows "\<exists>r'. addStr r str s = Inr (r', s) \<and> scr_is r' n (as @ [ABytes str])"
proof -
  let ?a = "\<lparr>arg_type = BYTE_TYPE, arg_val = set_raw (int (length str))
    (patch (replicate MAX_RAW_SIZE 0) 0 str) (junk s)\<rparr>"
  have "arg_ok ?a" using assms by (simp add: arg_ok_def)
  moreover have "arg_view ?a = Some (ABytes str)"
    using assms by (intro raw_arg_view) simp_all
  ultimately show ?thesis
    using put_arg_is [OF assms(1,2), of ?a "ABytes str" s] assms by (simp add: addStr_def)
qed

lemma addRaw_is:
  assumes "scr_is r n as" "length as < MAX_ARGC" "length (junk s) = VAL_SIZE"
    and "k \<le> MAX_RAW_SIZE" "k \<le> length mem"
  shows "\<exists>r'. addRaw r mem (int k) s = Inr (r', s) \<and> scr_is r' n (as @ [ABytes (take k mem)])"
proof -
  let ?a = "\<lparr>arg_type = BYTE_TYPE, arg_val = set_raw (int k)
    (patch (replicate MAX_RAW_SIZE 0) 0 (take k mem)) (junk s)\<rparr>"
  have "arg_ok ?a" using assms by (simp add: arg_ok_def)
  moreover have "arg_view ?a = Some (ABytes (take k mem))"
    using raw_arg_view [of "junk s" "take k mem"] assms by simp
  ultimately show ?thesis
    using put_arg_is [OF assms(1,2), of ?a "ABytes (take k mem)" s] assms by (simp add: addRaw_def)
qed

lemma addStat_is:
  assumes "scr_is r n as" "length as < MAX_ARGC" "length (junk s) = VAL_SIZE"
  shows "\<exists>r'. addStat r t s = Inr (r', s) \<and> scr_is r' n (as @ [AStat t])"
proof -
  have "arg_ok \<lparr>arg_type = STAT_TYPE, arg_val = set_st t (junk s)\<rparr>"
    "arg_view \<lparr>arg_type = STAT_TYPE, arg_val = set_st t (junk s)\<rparr> = Some (AStat t)"
    using assms by (simp_all add: arg_ok_def arg_view_def)
  from put_arg_is [OF assms(1,2) this] show ?thesis
    using assms by (simp add: addStat_def)
qed

end
