(* ===== verification/Inode.thy ===== *)
theory Inode
  imports Recovery SCR
begin

text \<open>
  The block allocator and the inode layer of the file system (\<open>fs.c\<close> up to \<open>writei\<close>), and the
  console's device functions \<open>consoleread\<close> and \<open>consolewrite\<close>, which \<open>readi\<close> and \<open>writei\<close>
  reach through \<open>devsw\<close>.  An inode pointer is an index in \<open>icache.inode\<close>; the null pointer
  is \<open>None\<close> where a function can return it.  Unsigned numbers are naturals, with the
  wrap-around written out.
\<close>

unbundle bit_operations_syntax

definition NINODE :: nat where "NINODE = 50"
abbreviation NDEV :: int where "NDEV \<equiv> 10"
abbreviation CONSOLE :: int where "CONSOLE \<equiv> 1"
abbreviation NDIRECT :: nat where "NDIRECT \<equiv> 12"
definition NINDIRECT :: nat where "NINDIRECT = 128"
abbreviation MAXFILE :: nat where "MAXFILE \<equiv> 140"
abbreviation IPB :: nat where "IPB \<equiv> 8"
abbreviation BPB :: nat where "BPB \<equiv> 4096"
abbreviation T_DIR :: u16 where "T_DIR \<equiv> 1"
abbreviation T_FILE :: u16 where "T_FILE \<equiv> 2"
abbreviation T_DEV :: u16 where "T_DEV \<equiv> 3"

record inode =
  i_dev :: nat
  i_inum :: nat
  i_ref :: int
  i_valid :: bool
  i_type :: u16
  i_major :: u16
  i_minor :: u16
  i_nlink :: u16
  i_size :: nat
  i_addrs :: "nat list"

text \<open>The only entries ever put into \<open>devsw\<close> are those of the console; \<open>devsw_cons\<close> says that
  \<open>consoleinit\<close> has done so.\<close>

record fsst = logst +
  sb :: superblock
  icache :: "inode list"
  cwd :: nat
  devsw_cons :: bool

definition consoleinit :: "('z fsst_scheme, unit) kfun" where
  "consoleinit = md (\<lambda>s. s\<lparr>devsw_cons := True\<rparr>)"

text \<open>An unsigned value returned as \<open>int\<close>.\<close>

definition to_int :: "nat \<Rightarrow> int" where
  "to_int n = sint (word_of_nat n :: i32)"

section \<open>Blocks\<close>

definition BBLOCK :: "nat \<Rightarrow> superblock \<Rightarrow> nat" where
  "BBLOCK b p = (b div BPB + sb_bmapstart p) mod 2 ^ 32"

definition IBLOCK :: "nat \<Rightarrow> superblock \<Rightarrow> nat" where
  "IBLOCK i p = (i div IPB + sb_inodestart p) mod 2 ^ 32"

definition bzero :: "nat \<Rightarrow> nat \<Rightarrow> ('z logst_scheme, unit) kfun" where
  "bzero dev bno =
     bnd (bread dev bno) (\<lambda>bp.
     thn (set_bdata bp (replicate BSIZE 0))
    (thn (log_write bp)
         (brelse bp)))"

definition bit_free :: "bytes \<Rightarrow> nat \<Rightarrow> bool" where
  "bit_free d bi \<longleftrightarrow> (d ! (bi div 8)) AND push_bit (bi mod 8) 1 = 0"

primrec balloc_loop :: "nat \<Rightarrow> nat list \<Rightarrow> ('z fsst_scheme, nat) kfun" where
  "balloc_loop dev [] = stop (Panic ''balloc: out of blocks'')"
| "balloc_loop dev (b # bs) = bnd (rd sb) (\<lambda>sb.
     bnd (bread dev (BBLOCK b sb)) (\<lambda>bp.
     bnd (bdata bp) (\<lambda>d.
     case find (bit_free d) [0..<min BPB (sb_size sb - b)] of
       Some bi \<Rightarrow>
         thn (set_bdata bp (d[bi div 8 := (d ! (bi div 8)) OR push_bit (bi mod 8) 1]))
        (thn (log_write bp)
        (thn (brelse bp)
        (thn (bzero dev (b + bi))
             (ret (b + bi)))))
     | None \<Rightarrow> thn (brelse bp) (balloc_loop dev bs))))"

definition balloc :: "nat \<Rightarrow> ('z fsst_scheme, nat) kfun" where
  "balloc dev = bnd (rd sb) (\<lambda>sb.
     balloc_loop dev (map (\<lambda>k. k * BPB) [0..<(sb_size sb + BPB - 1) div BPB]))"

definition bfree :: "nat \<Rightarrow> nat \<Rightarrow> ('z fsst_scheme, unit) kfun" where
  "bfree dev b = bnd (rd sb) (\<lambda>sb.
     bnd (bread dev (BBLOCK b sb)) (\<lambda>bp.
     bnd (bdata bp) (\<lambda>d.
     let bi = b mod BPB in
     if bit_free d bi then stop (Panic ''freeing free block'')
     else
       thn (set_bdata bp (d[bi div 8 := (d ! (bi div 8)) AND NOT (push_bit (bi mod 8) 1)]))
      (thn (log_write bp)
           (brelse bp)))))"

section \<open>Inodes\<close>

text \<open>\<open>struct dinode\<close>: 64 bytes, eight to a block.\<close>

definition dip_off :: "nat \<Rightarrow> nat" where
  "dip_off inum = (inum mod IPB) * 64"

definition dinode_bytes :: "inode \<Rightarrow> bytes" where
  "dinode_bytes ip = put16 (i_type ip) @ put16 (i_major ip) @ put16 (i_minor ip) @ put16 (i_nlink ip) @
     put32 (word_of_nat (i_size ip)) @ concat (map (\<lambda>a. put32 (word_of_nat a)) (i_addrs ip))"

definition load_dinode :: "bytes \<Rightarrow> inode \<Rightarrow> inode" where
  "load_dinode d ip = ip\<lparr>i_type := get16 (slice 0 2 d), i_major := get16 (slice 2 2 d),
     i_minor := get16 (slice 4 2 d), i_nlink := get16 (slice 6 2 d), i_size := uint_at 8 d,
     i_addrs := map (\<lambda>k. uint_at (12 + 4 * k) d) [0..<Suc NDIRECT]\<rparr>"

abbreviation inode_at :: "'z fsst_scheme \<Rightarrow> nat \<Rightarrow> inode" where
  "inode_at s i \<equiv> icache s ! i"

definition upd_inode :: "nat \<Rightarrow> (inode \<Rightarrow> inode) \<Rightarrow> ('z fsst_scheme, unit) kfun" where
  "upd_inode i f = md (\<lambda>s. s\<lparr>icache := (icache s)[i := f (icache s ! i)]\<rparr>)"

definition iinit :: "nat \<Rightarrow> ('z fsst_scheme, unit) kfun" where
  "iinit dev =
     thn (md (\<lambda>s. s\<lparr>slocks := (\<lambda>k. case k of SInode i \<Rightarrow> if i < NINODE then \<lparr>sl_locked = False, sl_pid = 0\<rparr>
                                              else slocks s k
                              | _ \<Rightarrow> slocks s k)\<rparr>))
    (bnd (readsb dev) (\<lambda>b. md (\<lambda>s. s\<lparr>sb := b\<rparr>)))"

definition iget :: "nat \<Rightarrow> nat \<Rightarrow> ('z fsst_scheme, nat) kfun" where
  "iget dev inum =
     thn (acq LIcache)
    (bnd (rd id) (\<lambda>s.
     case find (\<lambda>i. 0 < i_ref (inode_at s i) \<and> i_dev (inode_at s i) = dev \<and> i_inum (inode_at s i) = inum)
            [0..<NINODE] of
       Some i \<Rightarrow> thn (upd_inode i (\<lambda>ip. ip\<lparr>i_ref := i_ref ip + 1\<rparr>)) (thn (rel LIcache) (ret i))
     | None \<Rightarrow>
        (case find (\<lambda>i. i_ref (inode_at s i) = 0) [0..<NINODE] of
           None \<Rightarrow> stop (Panic ''iget: no inodes'')
         | Some i \<Rightarrow>
             thn (upd_inode i (\<lambda>ip. ip\<lparr>i_dev := dev, i_inum := inum, i_ref := 1, i_valid := False\<rparr>))
            (thn (rel LIcache) (ret i)))))"

primrec ialloc_loop :: "nat \<Rightarrow> u16 \<Rightarrow> nat list \<Rightarrow> ('z fsst_scheme, nat) kfun" where
  "ialloc_loop dev ty [] = stop (Panic ''ialloc: no inodes'')"
| "ialloc_loop dev ty (inum # is) = bnd (rd sb) (\<lambda>sb.
     bnd (bread dev (IBLOCK inum sb)) (\<lambda>bp.
     bnd (bdata bp) (\<lambda>d.
     if get16 (slice (dip_off inum) 2 d) = 0 then
       thn (set_bdata bp (patch d (dip_off inum) (put16 ty @ replicate 62 0)))
      (thn (log_write bp)
      (thn (brelse bp)
           (iget dev inum)))
     else thn (brelse bp) (ialloc_loop dev ty is))))"

definition ialloc :: "nat \<Rightarrow> u16 \<Rightarrow> ('z fsst_scheme, nat) kfun" where
  "ialloc dev ty = bnd (rd sb) (\<lambda>sb. ialloc_loop dev ty [1..<sb_ninodes sb])"

definition iupdate :: "nat \<Rightarrow> ('z fsst_scheme, unit) kfun" where
  "iupdate i = bnd (rd id) (\<lambda>s. let ip = inode_at s i in
     bnd (bread (i_dev ip) (IBLOCK (i_inum ip) (sb s))) (\<lambda>bp.
     bnd (bdata bp) (\<lambda>d.
     thn (set_bdata bp (patch d (dip_off (i_inum ip)) (dinode_bytes ip)))
    (thn (log_write bp)
         (brelse bp)))))"

definition idup :: "nat \<Rightarrow> ('z fsst_scheme, nat) kfun" where
  "idup i = thn (acq LIcache) (thn (upd_inode i (\<lambda>ip. ip\<lparr>i_ref := i_ref ip + 1\<rparr>)) (thn (rel LIcache) (ret i)))"

definition ilock :: "nat \<Rightarrow> ('z fsst_scheme, unit) kfun" where
  "ilock i = bnd (rd (\<lambda>s. inode_at s i)) (\<lambda>ip.
     if i_ref ip < 1 then stop (Panic ''ilock'')
     else
       thn (acquiresleep (SInode i))
      (bnd (rd id) (\<lambda>s. let ip = inode_at s i in
       whn (\<not> i_valid ip)
        (bnd (bread (i_dev ip) (IBLOCK (i_inum ip) (sb s))) (\<lambda>bp.
         bnd (bdata bp) (\<lambda>d.
         thn (upd_inode i (load_dinode (slice (dip_off (i_inum ip)) 64 d)))
        (thn (brelse bp)
        (thn (upd_inode i (\<lambda>ip. ip\<lparr>i_valid := True\<rparr>))
        (bnd (rd (\<lambda>s. inode_at s i)) (\<lambda>ip.
         whn (i_type ip = 0) (stop (Panic ''ilock: no type''))))))))))))"

definition iunlock :: "nat \<Rightarrow> ('z fsst_scheme, unit) kfun" where
  "iunlock i = bnd (holdingsleep (SInode i)) (\<lambda>h. bnd (rd (\<lambda>s. inode_at s i)) (\<lambda>ip.
     if \<not> h \<or> i_ref ip < 1 then stop (Panic ''iunlock'') else releasesleep (SInode i)))"

section \<open>Inode contents\<close>

definition bmap :: "nat \<Rightarrow> nat \<Rightarrow> ('z fsst_scheme, nat) kfun" where
  "bmap i bn = bnd (rd (\<lambda>s. inode_at s i)) (\<lambda>ip.
     if bn < NDIRECT then
       (if i_addrs ip ! bn = 0 then
          bnd (balloc (i_dev ip)) (\<lambda>addr.
          thn (upd_inode i (\<lambda>ip. ip\<lparr>i_addrs := (i_addrs ip)[bn := addr]\<rparr>)) (ret addr))
        else ret (i_addrs ip ! bn))
     else let bn = bn - NDIRECT in
     if bn < NINDIRECT then
       bnd (if i_addrs ip ! NDIRECT = 0 then
              bnd (balloc (i_dev ip)) (\<lambda>addr.
              thn (upd_inode i (\<lambda>ip. ip\<lparr>i_addrs := (i_addrs ip)[NDIRECT := addr]\<rparr>)) (ret addr))
            else ret (i_addrs ip ! NDIRECT)) (\<lambda>addr.
       bnd (bread (i_dev ip) addr) (\<lambda>bp.
       bnd (bdata bp) (\<lambda>d.
       if uint_at (4 * bn) d = 0 then
         bnd (balloc (i_dev ip)) (\<lambda>addr.
         bnd (bdata bp) (\<lambda>d.
         thn (set_bdata bp (patch d (4 * bn) (put32 (word_of_nat addr))))
        (thn (log_write bp)
        (thn (brelse bp)
             (ret addr)))))
       else thn (brelse bp) (ret (uint_at (4 * bn) d)))))
     else stop (Panic ''bmap: out of range''))"

primrec trunc_direct :: "nat \<Rightarrow> nat list \<Rightarrow> ('z fsst_scheme, unit) kfun" where
  "trunc_direct i [] = ret ()"
| "trunc_direct i (k # ks) = bnd (rd (\<lambda>s. inode_at s i)) (\<lambda>ip.
     thn (whn (i_addrs ip ! k \<noteq> 0)
       (thn (bfree (i_dev ip) (i_addrs ip ! k))
            (upd_inode i (\<lambda>ip. ip\<lparr>i_addrs := (i_addrs ip)[k := 0]\<rparr>))))
     (trunc_direct i ks))"

primrec trunc_indirect :: "nat \<Rightarrow> nat \<Rightarrow> nat list \<Rightarrow> ('z fsst_scheme, unit) kfun" where
  "trunc_indirect dev bp [] = ret ()"
| "trunc_indirect dev bp (j # js) = bnd (bdata bp) (\<lambda>d.
     thn (whn (uint_at (4 * j) d \<noteq> 0) (bfree dev (uint_at (4 * j) d)))
     (trunc_indirect dev bp js))"

definition itrunc :: "nat \<Rightarrow> ('z fsst_scheme, unit) kfun" where
  "itrunc i =
     thn (trunc_direct i [0..<NDIRECT])
    (bnd (rd (\<lambda>s. inode_at s i)) (\<lambda>ip.
     thn (whn (i_addrs ip ! NDIRECT \<noteq> 0)
       (bnd (bread (i_dev ip) (i_addrs ip ! NDIRECT)) (\<lambda>bp.
        thn (trunc_indirect (i_dev ip) bp [0..<NINDIRECT])
       (thn (brelse bp)
       (thn (bfree (i_dev ip) (i_addrs ip ! NDIRECT))
            (upd_inode i (\<lambda>ip. ip\<lparr>i_addrs := (i_addrs ip)[NDIRECT := 0]\<rparr>)))))))
    (thn (upd_inode i (\<lambda>ip. ip\<lparr>i_size := 0\<rparr>))
         (iupdate i))))"

definition iput :: "nat \<Rightarrow> ('z fsst_scheme, unit) kfun" where
  "iput i =
     thn (acquiresleep (SInode i))
    (bnd (rd (\<lambda>s. inode_at s i)) (\<lambda>ip.
     thn (whn (i_valid ip \<and> i_nlink ip = 0)
       (thn (acq LIcache)
       (bnd (rd (\<lambda>s. i_ref (inode_at s i))) (\<lambda>r.
        thn (rel LIcache)
        (whn (r = 1)
          (thn (itrunc i)
          (thn (upd_inode i (\<lambda>ip. ip\<lparr>i_type := 0\<rparr>))
          (thn (iupdate i)
               (upd_inode i (\<lambda>ip. ip\<lparr>i_valid := False\<rparr>))))))))))
    (thn (releasesleep (SInode i))
    (thn (acq LIcache)
    (thn (upd_inode i (\<lambda>ip. ip\<lparr>i_ref := i_ref ip - 1\<rparr>))
         (rel LIcache))))))"

definition iunlockput :: "nat \<Rightarrow> ('z fsst_scheme, unit) kfun" where
  "iunlockput i = thn (iunlock i) (iput i)"

definition stati :: "inode \<Rightarrow> myStat" where
  "stati ip = \<lparr>st_type = i_type ip, st_dev = word_of_nat (i_dev ip), st_ino = word_of_nat (i_inum ip),
     st_nlink = i_nlink ip, st_size = word_of_nat (i_size ip)\<rparr>"

section \<open>The console device\<close>

definition consoleread :: "nat \<Rightarrow> int \<Rightarrow> ('z fsst_scheme, int \<times> bytes) kfun" where
  "consoleread i n =
     thn (iunlock i)
    (thn (acq LCons)
    (bnd (consread_loop (nat n) (nat n)) (\<lambda>(kl, bs).
     thn (rel LCons)
    (thn (ilock i)
         (ret (if kl then -1 else int (length bs), bs))))))"

primrec consputs :: "bytes \<Rightarrow> ('z consst_scheme, unit) kfun" where
  "consputs [] = ret ()"
| "consputs (b # bs) = thn (consputc (uint b)) (consputs bs)"

definition consolewrite :: "nat \<Rightarrow> bytes \<Rightarrow> int \<Rightarrow> ('z fsst_scheme, int) kfun" where
  "consolewrite i buf n =
     thn (iunlock i)
    (thn (acq LCons)
    (thn (consputs (take (nat n) buf))
    (thn (rel LCons)
    (thn (ilock i)
         (ret n)))))"

section \<open>Reading and writing an inode\<close>

function readi_loop :: "nat \<Rightarrow> nat \<Rightarrow> nat \<Rightarrow> ('z fsst_scheme, bytes) kfun" where
  "readi_loop i off n =
     (if n = 0 then ret []
      else let m = min n (BSIZE - off mod BSIZE) in
        bnd (rd (\<lambda>s. i_dev (inode_at s i))) (\<lambda>dev.
        bnd (bmap i (off div BSIZE)) (\<lambda>b.
        bnd (bread dev b) (\<lambda>bp.
        bnd (bdata bp) (\<lambda>d.
        thn (brelse bp)
       (bnd (readi_loop i (off + m) (n - m)) (\<lambda>bs.
        ret (slice (off mod BSIZE) m d @ bs))))))))"
  by pat_completeness auto
termination by (relation "measure (\<lambda>(i, off, n). n)") auto

definition readi :: "nat \<Rightarrow> nat \<Rightarrow> nat \<Rightarrow> ('z fsst_scheme, int \<times> bytes) kfun" where
  "readi i off n = bnd (rd id) (\<lambda>s. let ip = inode_at s i in
     if i_type ip = T_DEV then
       (if sint (i_major ip) < 0 \<or> NDEV \<le> sint (i_major ip) \<or>
           \<not> (sint (i_major ip) = CONSOLE \<and> devsw_cons s)
        then ret (-1, []) else consoleread i (to_int n))
     else if i_size ip < off \<or> (off + n) mod 2 ^ 32 < off then ret (-1, [])
     else let n = (if i_size ip < off + n then i_size ip - off else n) in
       bnd (readi_loop i off n) (\<lambda>bs. ret (to_int n, bs)))"

function writei_loop :: "nat \<Rightarrow> bytes \<Rightarrow> nat \<Rightarrow> nat \<Rightarrow> ('z fsst_scheme, unit) kfun" where
  "writei_loop i src off n =
     (if n = 0 then ret ()
      else let m = min n (BSIZE - off mod BSIZE) in
        bnd (rd (\<lambda>s. i_dev (inode_at s i))) (\<lambda>dev.
        bnd (bmap i (off div BSIZE)) (\<lambda>b.
        bnd (bread dev b) (\<lambda>bp.
        bnd (bdata bp) (\<lambda>d.
        thn (set_bdata bp (patch d (off mod BSIZE) (take m src)))
       (thn (log_write bp)
       (thn (brelse bp)
            (writei_loop i (drop m src) (off + m) (n - m)))))))))"
  by pat_completeness auto
termination by (relation "measure (\<lambda>(i, src, off, n). n)") auto

declare readi_loop.simps [simp del] writei_loop.simps [simp del]

definition writei :: "nat \<Rightarrow> bytes \<Rightarrow> nat \<Rightarrow> nat \<Rightarrow> ('z fsst_scheme, int) kfun" where
  "writei i src off n = bnd (rd id) (\<lambda>s. let ip = inode_at s i in
     if i_type ip = T_DEV then
       (if sint (i_major ip) < 0 \<or> NDEV \<le> sint (i_major ip) \<or>
           \<not> (sint (i_major ip) = CONSOLE \<and> devsw_cons s)
        then ret (-1) else consolewrite i src (to_int n))
     else if i_size ip < off \<or> (off + n) mod 2 ^ 32 < off then ret (-1)
     else if MAXFILE * BSIZE < off + n then ret (-1)
     else
       thn (writei_loop i src off n)
      (bnd (rd (\<lambda>s. i_size (inode_at s i))) (\<lambda>size.
       thn (whn (0 < n \<and> size < off + n)
         (thn (upd_inode i (\<lambda>ip. ip\<lparr>i_size := off + n\<rparr>)) (iupdate i)))
       (ret (to_int n)))))"

end
