(* ===== verification/Dir.thy ===== *)
theory Dir
  imports Inode CString
begin

text \<open>
  Directories and path names (\<open>fs.c\<close> from \<open>namecmp\<close> on).  A path is the byte string before the
  terminating zero; a name buffer is a list of \<open>DIRSIZ\<close> bytes.  The comparison and the copy
  of names use the models of \<open>strncmp\<close> and \<open>strncpy\<close> on a memory that holds the two arrays.
\<close>

abbreviation DIRSIZ :: nat where "DIRSIZ \<equiv> 14"
abbreviation DIRENT :: nat where "DIRENT \<equiv> 16"
abbreviation ROOTDEV :: nat where "ROOTDEV \<equiv> 1"
abbreviation ROOTINO :: nat where "ROOTINO \<equiv> 1"
abbreviation SLASH :: byte where "SLASH \<equiv> 47"

section \<open>Definitions\<close>

text \<open>The array \<open>x\<close> at address 0 and the array \<open>y\<close> at address 64; zero elsewhere.\<close>

definition two_arrays :: "bytes \<Rightarrow> bytes \<Rightarrow> mem" where
  "two_arrays x y a =
     (if a < 64 then (if a < length x then x ! a else 0)
      else (if a - 64 < length y then y ! (a - 64) else 0))"

definition namecmp :: "bytes \<Rightarrow> bytes \<Rightarrow> int" where
  "namecmp s t = strncmp (two_arrays s t) 0 64 DIRSIZ"

definition strncpy_name :: "bytes \<Rightarrow> bytes" where
  "strncpy_name name = map (strncpy (two_arrays [] name) 0 64 DIRSIZ) [0..<DIRSIZ]"

text \<open>The offsets of the entries of a directory of \<open>n\<close> bytes.\<close>

definition dir_offs :: "nat \<Rightarrow> nat list" where
  "dir_offs n = map (\<lambda>k. k * DIRENT) [0..<(n + DIRENT - 1) div DIRENT]"

definition de_inum :: "bytes \<Rightarrow> nat" where
  "de_inum de = unat (get16 (slice 0 2 de))"

definition de_name :: "bytes \<Rightarrow> bytes" where
  "de_name de = slice 2 DIRSIZ de"

text \<open>The result is the inode and the offset of the entry.\<close>

primrec dirlookup_loop :: "nat \<Rightarrow> bytes \<Rightarrow> nat list \<Rightarrow> ('z fsst_scheme, (nat \<times> nat) option) kfun" where
  "dirlookup_loop dp name [] = ret None"
| "dirlookup_loop dp name (off # offs) =
     bnd (readi dp off DIRENT) (\<lambda>(r, de).
     if r \<noteq> int DIRENT then stop (Panic ''dirlookup read'')
     else if de_inum de = 0 then dirlookup_loop dp name offs
     else if namecmp name (de_name de) = 0 then
       bnd (rd (\<lambda>s. i_dev (inode_at s dp))) (\<lambda>dev.
       bnd (iget dev (de_inum de)) (\<lambda>ip. ret (Some (ip, off))))
     else dirlookup_loop dp name offs)"

definition dirlookup :: "nat \<Rightarrow> bytes \<Rightarrow> ('z fsst_scheme, (nat \<times> nat) option) kfun" where
  "dirlookup dp name = bnd (rd (\<lambda>s. inode_at s dp)) (\<lambda>d.
     if i_type d \<noteq> T_DIR then stop (Panic ''dirlookup not DIR'')
     else dirlookup_loop dp name (dir_offs (i_size d)))"

text \<open>The search for an empty entry; the offset after the last entry when there is none.\<close>

primrec find_empty :: "nat \<Rightarrow> nat \<Rightarrow> nat list \<Rightarrow> ('z fsst_scheme, nat) kfun" where
  "find_empty dp eod [] = ret eod"
| "find_empty dp eod (off # offs) =
     bnd (readi dp off DIRENT) (\<lambda>(r, de).
     if r \<noteq> int DIRENT then stop (Panic ''dirlink read'')
     else if de_inum de = 0 then ret off
     else find_empty dp eod offs)"

definition dirlink :: "nat \<Rightarrow> bytes \<Rightarrow> nat \<Rightarrow> ('z fsst_scheme, int) kfun" where
  "dirlink dp name inum = bnd (dirlookup dp name) (\<lambda>found.
     case found of
       Some (ip, _) \<Rightarrow> thn (iput ip) (ret (-1))
     | None \<Rightarrow>
         bnd (rd (\<lambda>s. i_size (inode_at s dp))) (\<lambda>size.
         bnd (find_empty dp (length (dir_offs size) * DIRENT) (dir_offs size)) (\<lambda>off.
         bnd (writei dp (put16 (word_of_nat inum) @ strncpy_name name) off DIRENT) (\<lambda>r.
         if r \<noteq> int DIRENT then stop (Panic ''dirlink'') else ret 0))))"

definition skipelem :: "bytes \<Rightarrow> bytes \<Rightarrow> (bytes \<times> bytes) option" where
  "skipelem path name =
     (let p = dropWhile (\<lambda>c. c = SLASH) path in
      if p = [] then None
      else let elem = takeWhile (\<lambda>c. c \<noteq> SLASH) p; rest = dropWhile (\<lambda>c. c \<noteq> SLASH) p;
               name' = (if DIRSIZ \<le> length elem then patch name 0 (take DIRSIZ elem)
                        else patch name 0 (elem @ [0]))
           in Some (dropWhile (\<lambda>c. c = SLASH) rest, name'))"

lemma skipelem_shorter: "skipelem path name = Some (rest, name') \<Longrightarrow> length rest < length path"
proof -
  assume a: "skipelem path name = Some (rest, name')"
  let ?p = "dropWhile (\<lambda>c. c = SLASH) path"
  have p: "?p \<noteq> []" and rest: "rest = dropWhile (\<lambda>c. c = SLASH) (dropWhile (\<lambda>c. c \<noteq> SLASH) ?p)"
    using a by (auto simp: skipelem_def Let_def split: if_splits)
  have "hd ?p \<noteq> SLASH" using p hd_dropWhile by blast
  then obtain x xs where xs: "?p = x # xs" "x \<noteq> SLASH" using p by (cases ?p) auto
  have "length rest \<le> length (dropWhile (\<lambda>c. c \<noteq> SLASH) xs)"
    using rest xs by (simp add: length_dropWhile_le)
  also have "\<dots> \<le> length xs" by (rule length_dropWhile_le)
  also have "\<dots> < length ?p" using xs by simp
  also have "\<dots> \<le> length path" by (rule length_dropWhile_le)
  finally show ?thesis .
qed

text \<open>The loop of \<open>namex\<close>; the result is the inode and the name buffer.\<close>

function namex_loop :: "nat \<Rightarrow> bytes \<Rightarrow> bool \<Rightarrow> bytes \<Rightarrow> ('z fsst_scheme, nat option \<times> bytes) kfun" where
  "namex_loop ip path nameiparent name =
     (case skipelem path name of
        None \<Rightarrow> if nameiparent then thn (iput ip) (ret (None, name)) else ret (Some ip, name)
      | Some (path', name') \<Rightarrow>
          thn (ilock ip)
         (bnd (rd (\<lambda>s. i_type (inode_at s ip))) (\<lambda>ty.
          if ty \<noteq> T_DIR then thn (iunlockput ip) (ret (None, name'))
          else if nameiparent \<and> path' = [] then thn (iunlock ip) (ret (Some ip, name'))
          else bnd (dirlookup ip name') (\<lambda>found.
            case found of
              None \<Rightarrow> thn (iunlockput ip) (ret (None, name'))
            | Some (next, _) \<Rightarrow> thn (iunlockput ip) (namex_loop next path' nameiparent name')))))"
  by pat_completeness auto
termination
  by (relation "measure (\<lambda>(ip, path, np, name). length path)") (auto dest: skipelem_shorter)

declare namex_loop.simps [simp del]

definition namex :: "bytes \<Rightarrow> bool \<Rightarrow> bytes \<Rightarrow> ('z fsst_scheme, nat option \<times> bytes) kfun" where
  "namex path nameiparent name =
     bnd (if path \<noteq> [] \<and> hd path = SLASH then iget ROOTDEV ROOTINO else bnd (rd cwd) idup) (\<lambda>ip.
     namex_loop ip path nameiparent name)"

text \<open>The name buffers of the callers are uninitialised; \<open>namex\<close> never reads a name before
  \<open>skipelem\<close> has stored one.\<close>

definition namei :: "bytes \<Rightarrow> ('z fsst_scheme, nat option) kfun" where
  "namei path = bnd (namex path False (replicate DIRSIZ 0)) (\<lambda>(ip, _). ret ip)"

definition nameiparent :: "bytes \<Rightarrow> ('z fsst_scheme, nat option \<times> bytes) kfun" where
  "nameiparent path = namex path True (replicate DIRSIZ 0)"

end
