(* ===== verification/File.thy ===== *)
theory File
  imports Dir
begin

text \<open>
  Open files (\<open>file.c\<close>) and \<open>pipealloc\<close> (\<open>pipe.c\<close>).  A file pointer is an index in
  \<open>ftable.file\<close>.  Data moves as byte lists: a read returns the bytes it stores at the
  caller's address, a write is given the bytes found there.
\<close>

definition NFILE :: nat where "NFILE = 100"
abbreviation NOFILE :: nat where "NOFILE \<equiv> 16"

datatype fdtype = FD_NONE | FD_PIPE | FD_INODE

record file_t =
  f_type :: fdtype
  f_ref :: int
  f_readable :: bool
  f_writable :: bool
  f_pipe :: nat
  f_ip :: nat
  f_off :: nat

record filest = fsst +
  ftable :: "file_t list"
  ofile :: "nat option list"

section \<open>Definitions\<close>

abbreviation file_at :: "'z filest_scheme \<Rightarrow> nat \<Rightarrow> file_t" where
  "file_at s f \<equiv> ftable s ! f"

definition upd_file :: "nat \<Rightarrow> (file_t \<Rightarrow> file_t) \<Rightarrow> ('z filest_scheme, unit) kfun" where
  "upd_file f g = md (\<lambda>s. s\<lparr>ftable := (ftable s)[f := g (ftable s ! f)]\<rparr>)"

definition filealloc :: "('z filest_scheme, nat option) kfun" where
  "filealloc =
     thn (acq LFtable)
    (bnd (rd (\<lambda>s. find (\<lambda>f. f_ref (file_at s f) = 0) [0..<NFILE])) (\<lambda>r.
     case r of
       Some f \<Rightarrow> thn (upd_file f (\<lambda>x. x\<lparr>f_ref := 1\<rparr>)) (thn (rel LFtable) (ret (Some f)))
     | None \<Rightarrow> thn (rel LFtable) (ret None)))"

definition filedup :: "nat \<Rightarrow> ('z filest_scheme, nat) kfun" where
  "filedup f =
     thn (acq LFtable)
    (bnd (rd (\<lambda>s. file_at s f)) (\<lambda>x.
     if f_ref x < 1 then stop (Panic ''filedup'')
     else thn (upd_file f (\<lambda>x. x\<lparr>f_ref := f_ref x + 1\<rparr>)) (thn (rel LFtable) (ret f))))"

definition fileclose :: "nat \<Rightarrow> ('z filest_scheme, unit) kfun" where
  "fileclose f =
     thn (acq LFtable)
    (bnd (rd (\<lambda>s. file_at s f)) (\<lambda>x.
     if f_ref x < 1 then stop (Panic ''fileclose'')
     else
       thn (upd_file f (\<lambda>x. x\<lparr>f_ref := f_ref x - 1\<rparr>))
      (if 0 < f_ref x - 1 then rel LFtable
       else
         thn (upd_file f (\<lambda>x. x\<lparr>f_ref := 0, f_type := FD_NONE\<rparr>))
        (thn (rel LFtable)
        (case f_type x of
           FD_PIPE \<Rightarrow> pipeclose (f_pipe x) (f_writable x)
         | FD_INODE \<Rightarrow> thn begin_op (thn (iput (f_ip x)) end_op)
         | FD_NONE \<Rightarrow> ret ())))))"

definition filestat :: "nat \<Rightarrow> ('z filest_scheme, myStat option) kfun" where
  "filestat f = bnd (rd (\<lambda>s. file_at s f)) (\<lambda>x.
     if f_type x = FD_INODE then
       thn (ilock (f_ip x))
      (bnd (rd (\<lambda>s. stati (inode_at s (f_ip x)))) (\<lambda>st.
       thn (iunlock (f_ip x)) (ret (Some st))))
     else ret None)"

text \<open>A positive result of \<open>readi\<close> or \<open>writei\<close> advances the unsigned offset.\<close>

definition advance :: "nat \<Rightarrow> int \<Rightarrow> ('z filest_scheme, unit) kfun" where
  "advance f r = whn (0 < r) (upd_file f (\<lambda>x. x\<lparr>f_off := (f_off x + nat r) mod 2 ^ 32\<rparr>))"

definition fileread :: "nat \<Rightarrow> int \<Rightarrow> ('z filest_scheme, int \<times> bytes) kfun" where
  "fileread f n = bnd (rd (\<lambda>s. file_at s f)) (\<lambda>x.
     if \<not> f_readable x then ret (-1, [])
     else case f_type x of
       FD_PIPE \<Rightarrow> piperead (f_pipe x) n
     | FD_INODE \<Rightarrow>
         thn (ilock (f_ip x))
        (bnd (rd (\<lambda>s. f_off (file_at s f))) (\<lambda>off.
         bnd (readi (f_ip x) off (nat (n mod 2 ^ 32))) (\<lambda>(r, bs).
         thn (advance f r)
        (thn (iunlock (f_ip x))
             (ret (r, bs))))))
     | FD_NONE \<Rightarrow> stop (Panic ''fileread''))"

abbreviation MAXWRITE :: nat where "MAXWRITE \<equiv> 3 * 512"

text \<open>The loop of \<open>filewrite\<close>: \<open>n\<close> bytes are left; the result says whether all were written.\<close>

function filewrite_loop :: "nat \<Rightarrow> nat \<Rightarrow> bytes \<Rightarrow> nat \<Rightarrow> ('z filest_scheme, bool) kfun" where
  "filewrite_loop f ip addr n =
     (if n = 0 then ret True
      else let n1 = min n MAXWRITE in
        thn begin_op
       (thn (ilock ip)
       (bnd (rd (\<lambda>s. f_off (file_at s f))) (\<lambda>off.
        bnd (writei ip addr off n1) (\<lambda>r.
        thn (advance f r)
       (thn (iunlock ip)
       (thn end_op
       (if r < 0 then ret False
        else if r \<noteq> int n1 then stop (Panic ''short filewrite'')
        else filewrite_loop f ip (drop n1 addr) (n - n1)))))))))"
  by pat_completeness auto
termination by (relation "measure (\<lambda>(f, ip, addr, n). n)") auto

declare filewrite_loop.simps [simp del]

definition filewrite :: "nat \<Rightarrow> bytes \<Rightarrow> int \<Rightarrow> ('z filest_scheme, int) kfun" where
  "filewrite f addr n = bnd (rd (\<lambda>s. file_at s f)) (\<lambda>x.
     if \<not> f_writable x then ret (-1)
     else case f_type x of
       FD_PIPE \<Rightarrow> pipewrite (f_pipe x) addr n
     | FD_INODE \<Rightarrow>
         (if n < 0 then ret (-1)
          else bnd (filewrite_loop f (f_ip x) addr (nat n)) (\<lambda>all. ret (if all then n else -1)))
     | FD_NONE \<Rightarrow> stop (Panic ''filewrite''))"

text \<open>The ring of a new pipe holds what \<open>kfree\<close> left in the page.\<close>

definition pipealloc :: "('z filest_scheme, (nat \<times> nat) option) kfun" where
  "pipealloc =
     bnd filealloc (\<lambda>f0. case f0 of None \<Rightarrow> ret None | Some f0 \<Rightarrow>
     bnd filealloc (\<lambda>f1. case f1 of None \<Rightarrow> thn (fileclose f0) (ret None) | Some f1 \<Rightarrow>
     bnd kalloc (\<lambda>p.
     if p = 0 then thn (fileclose f0) (thn (fileclose f1) (ret None))
     else
       thn (md (\<lambda>s. s\<lparr>pipes := (pipes s)(p := Some \<lparr>p_data = replicate PIPESIZE 1, nread = 0, nwrite = 0,
              readopen = True, writeopen = True\<rparr>)\<rparr>))
      (thn (upd_file f0 (\<lambda>x. x\<lparr>f_type := FD_PIPE, f_readable := True, f_writable := False, f_pipe := p\<rparr>))
      (thn (upd_file f1 (\<lambda>x. x\<lparr>f_type := FD_PIPE, f_readable := False, f_writable := True, f_pipe := p\<rparr>))
           (ret (Some (f0, f1))))))))"

end
