(* ===== verification/Codec.thy ===== *)
theory Codec
  imports SCR
begin

text \<open>
  The on-disk form of a recording (\<open>memmove_and_increment\<close> and \<open>bidirectionalTransform\<close>
  of \<open>sysproc.c\<close>).  One routine both writes records to the global buffer and reads them
  back, depending on the two mode flags; the model keeps that structure.
\<close>

section \<open>Definitions\<close>

text \<open>\<open>memmove_and_increment dst obj n\<close>: \<open>dst\<close> is an offset in \<open>buffer\<close>, \<open>obj\<close> the bytes of the
  object \<open>src\<close> points to; the result is the object afterwards.  A copy that leaves the
  buffer or the object is undefined, and so is a negative length, which \<open>memmove\<close> takes as
  a huge unsigned one.\<close>

definition memmove_and_increment :: "int \<Rightarrow> bytes \<Rightarrow> int \<Rightarrow> (rrst, bytes) kfun" where
  "memmove_and_increment dst obj n = bnd (rd id) (\<lambda>s.
     thn (whn (replay_syscalls s = 1 \<or> record_syscalls s = 1)
       (chk (0 \<le> n \<and> 0 \<le> dst \<and> dst + n \<le> int MAX_FILE_SIZE \<and> nat n \<le> length obj) (UB ''buffer'')))
    (let obj' = (if replay_syscalls s = 1
                 then patch obj 0 (slice (nat dst) (nat n) (buffer s)) else obj)
     in thn (whn (record_syscalls s = 1)
          (md (\<lambda>s. s\<lparr>buffer := patch (buffer s) (nat dst) (take (nat n) obj')\<rparr>)))
       (thn (md (\<lambda>s. s\<lparr>buffer_pos := buffer_pos s + n\<rparr>))
        (ret obj'))))"

text \<open>The call sites pass \<open>&buffer[buffer_pos]\<close> and a member of the record.\<close>

definition xfer :: "bytes \<Rightarrow> int \<Rightarrow> (rrst, bytes) kfun" where
  "xfer obj n = bnd (rd buffer_pos) (\<lambda>p. memmove_and_increment p obj n)"

text \<open>Transfer of the member of \<open>k\<close> bytes at offset \<open>off\<close> of a union.\<close>

definition xfer_field :: "nat \<Rightarrow> nat \<Rightarrow> val \<Rightarrow> (rrst, val) kfun" where
  "xfer_field off k v =
     bnd (xfer (slice off k v) (int k)) (\<lambda>d. ret (patch v off d))"

definition xfer_val :: "byte \<Rightarrow> val \<Rightarrow> (rrst, val) kfun" where
  "xfer_val t v =
     (if t = INT_TYPE \<or> t = UINT_TYPE then xfer_field 0 4 v
      else if t = BYTE_TYPE then
        bnd (xfer_field 0 4 v) (\<lambda>v1.
        bnd (xfer (raw_data v1) (raw_size v1)) (\<lambda>d.
        ret (patch v1 4 d)))
      else if t = STAT_TYPE then
        bnd (xfer_field 0 2 v) (\<lambda>v1. bnd (xfer_field 4 4 v1) (\<lambda>v2.
        bnd (xfer_field 8 4 v2) (\<lambda>v3. bnd (xfer_field 12 2 v3) (\<lambda>v4.
        xfer_field 16 4 v4))))
      else thn RecRepErr (ret v))"

text \<open>The argument loop; the status \<open>-1\<close> is the early return on a null type.\<close>

primrec xfer_args :: "nat list \<Rightarrow> SCR \<Rightarrow> (rrst, int \<times> SCR) kfun" where
  "xfer_args [] scr = ret (1, scr)"
| "xfer_args (i # is) scr =
     bnd (get_arg scr (int i)) (\<lambda>a.
     bnd (rd record_syscalls) (\<lambda>rc.
     if rc = 1 \<and> arg_type a = NONE_TYPE then ret (-1, scr)
     else bnd (xfer [arg_type a] 1) (\<lambda>t.
       let a1 = a\<lparr>arg_type := hd t\<rparr>;
           scr1 = scr\<lparr>scr_args := (scr_args scr)[i := a1]\<rparr>
       in bnd (rd replay_syscalls) (\<lambda>rp.
          if rp = 1 \<and> arg_type a1 = NONE_TYPE then ret (-1, scr1)
          else bnd (xfer_val (arg_type a1) (arg_val a1)) (\<lambda>v.
            xfer_args is (scr1\<lparr>scr_args := (scr_args scr1)[i := a1\<lparr>arg_val := v\<rparr>]\<rparr>))))))"

definition bidirectionalTransform :: "SCR \<Rightarrow> int \<Rightarrow> (rrst, int \<times> SCR) kfun" where
  "bidirectionalTransform scr fileSize = bnd (rd id) (\<lambda>s.
     if int MAX_FILE_SIZE < buffer_pos s then ret (-1, scr)
     else if replay_syscalls s = 1 \<and> fileSize < buffer_pos s then ret (-1, scr)
     else if record_syscalls s = 1 \<and> uint (scr_syscall scr) = UNITIALIZED_SCR then ret (0, scr)
     else bnd (xfer [scr_syscall scr] 1) (\<lambda>b.
       let scr1 = scr\<lparr>scr_syscall := hd b\<rparr>
       in bnd (rd replay_syscalls) (\<lambda>rp.
          if rp = 1 \<and> uint (scr_syscall scr1) = UNITIALIZED_SCR then ret (0, scr1)
          else bnd (xfer [scr_argc scr1] 1) (\<lambda>c.
            let scr2 = scr1\<lparr>scr_argc := hd c\<rparr>
            in xfer_args [0..<unat (scr_argc scr2)] scr2))))"

section \<open>Reference encoding\<close>

text \<open>What a recording looks like as a byte string: one type byte and the value for each
  argument, after the system call number and the argument count.\<close>

fun enc_val :: "aarg \<Rightarrow> bytes" where
  "enc_val (AInt n) = put32 n"
| "enc_val (AUInt n) = put32 n"
| "enc_val (ABytes d) = put32 (word_of_int (int (length d))) @ d"
| "enc_val (AStat t) = put16 (st_type t) @ put32 (st_dev t) @ put32 (st_ino t) @
     put16 (st_nlink t) @ put32 (st_size t)"

fun type_of :: "aarg \<Rightarrow> byte" where
  "type_of (AInt n) = INT_TYPE"
| "type_of (AUInt n) = UINT_TYPE"
| "type_of (ABytes d) = BYTE_TYPE"
| "type_of (AStat t) = STAT_TYPE"

definition enc_arg :: "aarg \<Rightarrow> bytes" where
  "enc_arg a = type_of a # enc_val a"

definition enc_args :: "aarg list \<Rightarrow> bytes" where
  "enc_args as = concat (map enc_arg as)"

definition enc_scr :: "byte \<Rightarrow> aarg list \<Rightarrow> bytes" where
  "enc_scr n as = n # word_of_nat (length as) # enc_args as"

lemma enc_args_simps [simp]:
  "enc_args [] = []" "enc_args (a # as) = enc_arg a @ enc_args as"
  by (simp_all add: enc_args_def)

lemma type_of_neq_NONE [simp]: "type_of a \<noteq> NONE_TYPE"
  by (cases a) auto

section \<open>Writing: the transform appends the encoding\<close>

definition emit :: "bytes \<Rightarrow> rrst \<Rightarrow> rrst" where
  "emit bs s = s\<lparr>buffer := patch (buffer s) (nat (buffer_pos s)) bs,
     buffer_pos := buffer_pos s + int (length bs)\<rparr>"

definition can_emit :: "rrst \<Rightarrow> nat \<Rightarrow> bool" where
  "can_emit s k \<longleftrightarrow> record_syscalls s = 1 \<and> replay_syscalls s \<noteq> 1 \<and> 0 \<le> buffer_pos s \<and>
     length (buffer s) = MAX_FILE_SIZE \<and> buffer_pos s + int k \<le> int MAX_FILE_SIZE"

lemma can_emit_mono: "can_emit s k \<Longrightarrow> j \<le> k \<Longrightarrow> can_emit s j"
  by (simp add: can_emit_def)

lemma can_emit_fits: "can_emit s k \<Longrightarrow> nat (buffer_pos s) + k \<le> length (buffer s)"
  unfolding can_emit_def by linarith

lemma can_emit_emit [simp]:
  assumes "can_emit s (length bs + k)"
  shows "can_emit (emit bs s) k"
proof -
  from can_emit_fits [OF assms] have "nat (buffer_pos s) + length bs \<le> length (buffer s)" by simp
  with assms show ?thesis by (simp add: can_emit_def emit_def)
qed

lemma emit_emit:
  assumes "can_emit s (length xs + length ys)"
  shows "emit ys (emit xs s) = emit (xs @ ys) s"
proof -
  from can_emit_fits [OF assms] have "nat (buffer_pos s) + length xs + length ys \<le> length (buffer s)"
    by simp
  with assms show ?thesis
    by (simp add: can_emit_def emit_def patch_append nat_add_distrib add.assoc)
qed

lemma emit_Nil [simp]: "emit [] s = s"
  by (simp add: emit_def)

lemma xfer_emit:
  "can_emit s (length obj) \<Longrightarrow> n = int (length obj) \<Longrightarrow> xfer obj n s = Inr (obj, emit obj s)"
  by (simp add: xfer_def memmove_and_increment_def can_emit_def emit_def Let_def)

lemma xfer_emit_take:
  assumes "can_emit s k" "k \<le> length obj" "n = int k"
  shows "xfer obj n s = Inr (obj, emit (take k obj) s)"
  using assms
  by (simp add: xfer_def memmove_and_increment_def can_emit_def emit_def Let_def min_def)

lemma xfer_field_emit:
  "can_emit s k \<Longrightarrow> off + k \<le> length v \<Longrightarrow> xfer_field off k v s = Inr (v, emit (slice off k v) s)"
  by (simp add: xfer_field_def xfer_emit)

lemma slice_put32: "length v = VAL_SIZE \<Longrightarrow> off + 4 \<le> VAL_SIZE \<Longrightarrow>
    put32 (get32 (slice off 4 v)) = slice off 4 v"
  by simp

lemma slice_put16: "length v = VAL_SIZE \<Longrightarrow> off + 2 \<le> VAL_SIZE \<Longrightarrow>
    put16 (get16 (slice off 2 v)) = slice off 2 v"
  by simp

lemma raw_view_sizes:
  assumes "arg_view a = Some (ABytes d)" "arg_ok a"
  shows "raw_size (arg_val a) = int (length d)" "d = take (length d) (raw_data (arg_val a))"
    "length d \<le> MAX_RAW_SIZE" "slice 0 4 (arg_val a) = put32 (word_of_int (int (length d)))"
proof -
  from assms have sz: "0 \<le> raw_size (arg_val a)" "raw_size (arg_val a) \<le> int MAX_RAW_SIZE"
    and d: "d = take (nat (raw_size (arg_val a))) (raw_data (arg_val a))"
    by (auto simp: arg_view_def Let_def split: if_splits)
  from sz have len: "length (raw_data (arg_val a)) = MAX_RAW_SIZE"
    using assms by (simp add: raw_data_def arg_ok_def)
  from d sz len show eq: "raw_size (arg_val a) = int (length d)" by simp
  with d show "d = take (length d) (raw_data (arg_val a))" by simp
  from eq sz show "length d \<le> MAX_RAW_SIZE" by simp
  have "word_of_int (raw_size (arg_val a)) = get32 (slice 0 4 (arg_val a))"
    by (simp add: raw_size_def)
  with eq show "slice 0 4 (arg_val a) = put32 (word_of_int (int (length d)))"
    using assms by (simp add: arg_ok_def)
qed

lemma arg_view_type: "arg_view a = Some x \<Longrightarrow> arg_type a = type_of x"
  by (auto simp: arg_view_def Let_def split: if_splits)

lemma xfer_val_emit:
  assumes view: "arg_view a = Some x" and ok: "arg_ok a" and room: "can_emit s (length (enc_val x))"
  shows "xfer_val (arg_type a) (arg_val a) s = Inr (arg_val a, emit (enc_val x) s)"
proof (cases x)
  case (AInt n)
  with view ok have "enc_val x = slice 0 4 (arg_val a)" "arg_type a = INT_TYPE"
    by (auto simp: arg_view_def Let_def val_num_def arg_ok_def split: if_splits)
  with room ok AInt show ?thesis
    by (simp add: xfer_val_def xfer_field_emit arg_ok_def)
next
  case (AUInt n)
  with view ok have "enc_val x = slice 0 4 (arg_val a)" "arg_type a = UINT_TYPE"
    by (auto simp: arg_view_def Let_def val_unum_def arg_ok_def split: if_splits)
  with room ok AUInt show ?thesis
    by (simp add: xfer_val_def xfer_field_emit arg_ok_def)
next
  case (ABytes d)
  note sizes = raw_view_sizes [OF view [unfolded ABytes] ok]
  let ?v = "arg_val a"
  have t: "arg_type a = BYTE_TYPE" using arg_view_type [OF view] ABytes by simp
  have r1: "xfer_field 0 4 ?v s = Inr (?v, emit (slice 0 4 ?v) s)"
    using room ok ABytes by (intro xfer_field_emit can_emit_mono [OF room]) (simp_all add: arg_ok_def)
  have c2: "can_emit (emit (slice 0 4 ?v) s) (length d)"
    using room ok ABytes by (intro can_emit_emit) (simp add: arg_ok_def)
  have "length d \<le> length (raw_data ?v)"
    using sizes(3) ok by (simp add: raw_data_def arg_ok_def)
  from xfer_emit_take [OF c2 this sizes(1)] have
    "xfer (raw_data ?v) (raw_size ?v) (emit (slice 0 4 ?v) s)
     = Inr (raw_data ?v, emit d (emit (slice 0 4 ?v) s))"
    using sizes(2) by simp
  moreover have "emit d (emit (slice 0 4 ?v) s) = emit (enc_val x) s"
    using room ok ABytes sizes(4) by (subst emit_emit) (simp_all add: arg_ok_def)
  moreover have "patch ?v 4 (raw_data ?v) = ?v"
    by (simp add: raw_data_def)
  ultimately show ?thesis
    using t r1 by (simp add: xfer_val_def)
next
  case (AStat t)
  let ?v = "arg_val a"
  from view AStat have t: "arg_type a = STAT_TYPE" and st: "t = val_st ?v"
    by (auto simp: arg_view_def Let_def split: if_splits)
  have enc: "enc_val x = slice 0 2 ?v @ slice 4 4 ?v @ slice 8 4 ?v @ slice 12 2 ?v @ slice 16 4 ?v"
    using AStat st ok by (simp add: val_st_def arg_ok_def)
  have len: "length ?v = VAL_SIZE" using ok by (simp add: arg_ok_def)
  have room16: "can_emit s 16" using room enc len by simp
  show ?thesis
    using t enc len room16
    by (simp add: xfer_val_def xfer_field_emit can_emit_emit emit_emit
        can_emit_mono [OF room16])
qed

lemma get_arg_in [simp]: "i < MAX_ARGC \<Longrightarrow> get_arg r (int i) s = Inr (scr_args r ! i, s)"
  by (simp add: get_arg_def)

lemma scr_args_self [simp]: "r\<lparr>scr_args := scr_args r\<rparr> = r"
  by simp

lemma emit_flags [simp]:
  "record_syscalls (emit bs s) = record_syscalls s" "replay_syscalls (emit bs s) = replay_syscalls s"
  "buffer_pos (emit bs s) = buffer_pos s + int (length bs)"
  by (simp_all add: emit_def)

lemma xfer_args_emit:
  assumes "scr_shape r" "i + length as \<le> MAX_ARGC"
    and "\<And>j. j < length as \<Longrightarrow> arg_view (scr_args r ! (i + j)) = Some (as ! j)"
    and "can_emit s (length (enc_args as))"
  shows "xfer_args [i..<i + length as] r s = Inr ((1, r), emit (enc_args as) s)"
  using assms(2-)
proof (induction as arbitrary: i s)
  case Nil
  then show ?case by simp
next
  case (Cons x as)
  let ?a = "scr_args r ! i"
  have i: "i < MAX_ARGC" and upt: "[i..<i + length (x # as)] = i # [Suc i..<Suc i + length as]"
    using Cons.prems(1) by (simp_all add: upt_conv_Cons del: upt_Suc)
  have view: "arg_view ?a = Some x" using Cons.prems(2) [of 0] by simp
  have ok: "arg_ok ?a" using assms(1) i by (simp add: scr_shape_def)
  have flags: "record_syscalls s = 1" "replay_syscalls s \<noteq> 1"
    using Cons.prems(3) by (simp_all add: can_emit_def)
  note t = arg_view_type [OF view]
  have room: "can_emit s (length [type_of x] + length (enc_val x) + length (enc_args as))"
    using Cons.prems(3) by (simp add: enc_arg_def)
  have r1: "xfer [type_of x] 1 s = Inr ([type_of x], emit [type_of x] s)"
    using can_emit_mono [OF room, of 1] by (intro xfer_emit) simp_all
  have r2: "xfer_val (type_of x) (arg_val ?a) (emit [type_of x] s)
      = Inr (arg_val ?a, emit (enc_val x) (emit [type_of x] s))"
    unfolding t [symmetric]
    by (intro xfer_val_emit [OF view ok] can_emit_emit can_emit_mono [OF room]) (simp add: t)
  have e: "emit (enc_val x) (emit [type_of x] s) = emit (enc_arg x) s"
    using can_emit_mono [OF room] by (subst emit_emit) (simp_all add: enc_arg_def)
  have room': "can_emit (emit (enc_arg x) s) (length (enc_args as))"
    using Cons.prems(3) by (intro can_emit_emit) simp
  have "xfer_args [Suc i..<Suc i + length as] r (emit (enc_arg x) s)
      = Inr ((1, r), emit (enc_args as) (emit (enc_arg x) s))"
    using Cons.prems by (intro Cons.IH [OF _ _ room']) force+
  moreover have "emit (enc_args as) (emit (enc_arg x) s) = emit (enc_args (x # as)) s"
    using Cons.prems(3) by (subst emit_emit) simp_all
  moreover have upd: "?a\<lparr>arg_type := type_of x\<rparr> = ?a"
    by (simp add: t [symmetric])
  ultimately show ?case
    unfolding upt using i flags r1 r2 e t
    by (simp add: Let_def upd del: upt_Suc)
qed

lemma scr_is_view:
  assumes "scr_is r n as" "j < length as"
  shows "arg_view (scr_args r ! j) = Some (as ! j)"
proof -
  from assms have "scr_views r ! j = Some (as ! j)" by (simp add: scr_is_def)
  then show ?thesis using assms by (simp add: scr_views_def scr_is_def scr_shape_def)
qed

lemma bidirectionalTransform_record:
  assumes r: "scr_is r n as" and n: "n \<noteq> 0" and room: "can_emit s (length (enc_scr n as))"
  shows "bidirectionalTransform r fileSize s = Inr ((1, r), emit (enc_scr n as) s)"
proof -
  have room': "can_emit s (Suc (Suc (length (enc_args as))))" using room by (simp add: enc_scr_def)
  have flags: "record_syscalls s = 1" "replay_syscalls s \<noteq> 1" "buffer_pos s \<le> int MAX_FILE_SIZE"
    using room by (simp_all add: can_emit_def)
  have r_facts: "scr_syscall r = n" "unat (scr_argc r) = length as" "length as \<le> MAX_ARGC" "scr_shape r"
    using r by (simp_all add: scr_is_def)
  have "scr_argc r = word_of_nat (unat (scr_argc r))" by simp
  with r_facts have argc: "scr_argc r = word_of_nat (length as)" by metis
  have r1: "xfer [n] 1 s = Inr ([n], emit [n] s)"
    by (intro xfer_emit can_emit_mono [OF room']) simp_all
  have c1: "can_emit (emit [n] s) (Suc (length (enc_args as)))"
    by (intro can_emit_emit) (simp add: room')
  have r2: "xfer [word_of_nat (length as)] 1 (emit [n] s)
      = Inr ([word_of_nat (length as)], emit [word_of_nat (length as)] (emit [n] s))"
    by (intro xfer_emit can_emit_mono [OF c1]) simp_all
  let ?s2 = "emit [word_of_nat (length as)] (emit [n] s)"
  have c2: "can_emit ?s2 (length (enc_args as))"
    by (intro can_emit_emit) (simp add: room')
  have r3: "xfer_args [0..<length as] r ?s2 = Inr ((1, r), emit (enc_args as) ?s2)"
    using xfer_args_emit [OF r_facts(4), of 0 as ?s2] r_facts c2 scr_is_view [OF r] by simp
  have "emit (enc_args as) ?s2 = emit (enc_scr n as) s"
    using c1 room' by (simp add: emit_emit can_emit_mono enc_scr_def)
  moreover have "uint n \<noteq> 0" using n by (simp add: uint_0_iff)
  moreover have upd: "r\<lparr>scr_syscall := n, scr_argc := word_of_nat (length as)\<rparr> = r"
    using r_facts(1) argc by simp
  ultimately show ?thesis
    using flags r_facts(1,2) argc r1 r2 r3 by (simp add: bidirectionalTransform_def Let_def upd)
qed

section \<open>Reading: the transform inverts the encoding\<close>

definition consume :: "nat \<Rightarrow> rrst \<Rightarrow> rrst" where
  "consume k s = s\<lparr>buffer_pos := buffer_pos s + int k\<rparr>"

definition ahead :: "rrst \<Rightarrow> bytes \<Rightarrow> bool" where
  "ahead s bs \<longleftrightarrow> replay_syscalls s = 1 \<and> record_syscalls s \<noteq> 1 \<and> 0 \<le> buffer_pos s \<and>
     length (buffer s) = MAX_FILE_SIZE \<and> buffer_pos s + int (length bs) \<le> int MAX_FILE_SIZE \<and>
     slice (nat (buffer_pos s)) (length bs) (buffer s) = bs"

lemma consume_simps [simp]:
  "consume 0 s = s" "consume j (consume k s) = consume (k + j) s"
  "record_syscalls (consume k s) = record_syscalls s" "replay_syscalls (consume k s) = replay_syscalls s"
  "buffer_pos (consume k s) = buffer_pos s + int k" "buffer (consume k s) = buffer s"
  by (simp_all add: consume_def)

lemma ahead_append:
  "ahead s (xs @ ys) \<longleftrightarrow> ahead s xs \<and> ahead (consume (length xs) s) ys"
proof (cases "0 \<le> buffer_pos s \<and> length (buffer s) = MAX_FILE_SIZE \<and>
    buffer_pos s + int (length xs + length ys) \<le> int MAX_FILE_SIZE")
  case True
  then have fit: "nat (buffer_pos s) + length xs + length ys \<le> length (buffer s)" by linarith
  have "slice (nat (buffer_pos s)) (length xs + length ys) (buffer s) = xs @ ys \<longleftrightarrow>
      slice (nat (buffer_pos s)) (length xs) (buffer s) = xs \<and>
      slice (nat (buffer_pos s) + length xs) (length ys) (buffer s) = ys"
    using fit by (simp add: slice_append_split append_eq_append_conv)
  with True show ?thesis by (auto simp: ahead_def nat_add_distrib)
next
  case False
  then show ?thesis by (auto simp: ahead_def)
qed

lemma xfer_ahead:
  "ahead s bs \<Longrightarrow> length bs \<le> length obj \<Longrightarrow> n = int (length bs) \<Longrightarrow>
   xfer obj n s = Inr (patch obj 0 bs, consume (length bs) s)"
  by (simp add: xfer_def memmove_and_increment_def ahead_def consume_def Let_def)

lemma xfer_field_ahead:
  "ahead s bs \<Longrightarrow> length bs = k \<Longrightarrow> off + k \<le> length v \<Longrightarrow>
   xfer_field off k v s = Inr (patch v off bs, consume k s)"
  by (simp add: xfer_field_def xfer_ahead)

text \<open>The arguments that fit a record.\<close>

fun aarg_ok :: "aarg \<Rightarrow> bool" where
  "aarg_ok (ABytes d) \<longleftrightarrow> length d \<le> MAX_RAW_SIZE"
| "aarg_ok _ \<longleftrightarrow> True"

lemma raw_prefix:
  assumes "length v = VAL_SIZE" "length d \<le> MAX_RAW_SIZE"
  shows "take (length d) (raw_data (patch v 4 (patch (raw_data v) 0 d))) = d"
  using assms by (simp add: raw_data_def)

lemma xfer_val_ahead:
  assumes a: "ahead s (enc_val x)" and v: "length v = VAL_SIZE" and x: "aarg_ok x"
  shows "\<exists>v'. xfer_val (type_of x) v s = Inr (v', consume (length (enc_val x)) s) \<and>
     length v' = VAL_SIZE \<and> arg_view \<lparr>arg_type = type_of x, arg_val = v'\<rparr> = Some x"
proof (cases x)
  case (AInt n)
  with a v show ?thesis
    by (simp add: xfer_val_def xfer_field_ahead arg_view_def val_num_def)
next
  case (AUInt n)
  with a v show ?thesis
    by (simp add: xfer_val_def xfer_field_ahead arg_view_def val_unum_def)
next
  case (ABytes d)
  let ?h = "put32 (word_of_int (int (length d)))"
  let ?v1 = "patch v 0 ?h"
  from a ABytes have a1: "ahead s ?h" and a2: "ahead (consume 4 s) d"
    by (simp_all add: ahead_append)
  have sz: "raw_size ?v1 = int (length d)"
    using v x ABytes by (simp add: raw_size_def sint_small_nat)
  have r1: "xfer_field 0 4 v s = Inr (?v1, consume 4 s)"
    using a1 v by (simp add: xfer_field_ahead)
  have r2: "xfer (raw_data ?v1) (raw_size ?v1) (consume 4 s)
      = Inr (patch (raw_data ?v1) 0 d, consume (length d) (consume 4 s))"
    using x ABytes v by (intro xfer_ahead [OF a2 _ sz]) (simp add: raw_data_def)
  let ?v2 = "patch ?v1 4 (patch (raw_data ?v1) 0 d)"
  have len: "length (patch (raw_data ?v1) 0 d) = MAX_RAW_SIZE"
    using x ABytes v by (simp add: raw_data_def)
  have "raw_size ?v2 = int (length d)"
    using sz len v by (simp add: raw_size_def slice_patch_before)
  moreover have "take (length d) (raw_data ?v2) = d"
    using x ABytes v by (intro raw_prefix) simp_all
  ultimately show ?thesis
    using r1 r2 ABytes len v x by (simp add: xfer_val_def arg_view_def)
next
  case (AStat t)
  let ?v1 = "patch v 0 (put16 (st_type t))"
  let ?v2 = "patch ?v1 4 (put32 (st_dev t))"
  let ?v3 = "patch ?v2 8 (put32 (st_ino t))"
  let ?v4 = "patch ?v3 12 (put16 (st_nlink t))"
  let ?v5 = "patch ?v4 16 (put32 (st_size t))"
  from a AStat have as: "ahead s (put16 (st_type t))" "ahead (consume 2 s) (put32 (st_dev t))"
    "ahead (consume 6 s) (put32 (st_ino t))" "ahead (consume 10 s) (put16 (st_nlink t))"
    "ahead (consume 12 s) (put32 (st_size t))"
    by (simp_all add: ahead_append)
  have r: "xfer_val STAT_TYPE v s = Inr (?v5, consume 16 s)"
    using v xfer_field_ahead [OF as(1), of 2 0 v] xfer_field_ahead [OF as(2), of 4 4 ?v1]
      xfer_field_ahead [OF as(3), of 4 8 ?v2] xfer_field_ahead [OF as(4), of 2 12 ?v3]
      xfer_field_ahead [OF as(5), of 4 16 ?v4]
    by (simp add: xfer_val_def)
  have "val_st ?v5 = t"
    using v by (simp add: val_st_def slice_patch_before slice_patch_after)
  with r AStat v show ?thesis by (simp add: arg_view_def)
qed

lemma xfer_args_ahead:
  assumes "scr_shape r" "i + length as \<le> MAX_ARGC" "list_all aarg_ok as" "ahead s (enc_args as)"
  shows "\<exists>r'. xfer_args [i..<i + length as] r s = Inr ((1, r'), consume (length (enc_args as)) s) \<and>
     scr_shape r' \<and> scr_syscall r' = scr_syscall r \<and> scr_argc r' = scr_argc r \<and>
     take i (scr_args r') = take i (scr_args r) \<and>
     (\<forall>j < length as. arg_view (scr_args r' ! (i + j)) = Some (as ! j))"
  using assms
proof (induction as arbitrary: i s r)
  case Nil
  then show ?case by simp
next
  case (Cons x as)
  let ?a = "scr_args r ! i"
  have i: "i < MAX_ARGC" and upt: "[i..<i + length (x # as)] = i # [Suc i..<Suc i + length as]"
    using Cons.prems(2) by (simp_all add: upt_conv_Cons del: upt_Suc)
  have len: "length (scr_args r) = MAX_ARGC" and v: "length (arg_val ?a) = VAL_SIZE"
    using Cons.prems(1) i by (auto simp: scr_shape_def arg_ok_def)
  have a1: "ahead s [type_of x]" and a2: "ahead (consume 1 s) (enc_val x)"
    and a3: "ahead (consume (length (enc_arg x)) s) (enc_args as)"
    using Cons.prems(4) ahead_append [of s "enc_arg x" "enc_args as"]
      ahead_append [of s "[type_of x]" "enc_val x"]
    by (simp_all add: enc_arg_def)
  have flags: "record_syscalls s \<noteq> 1" "replay_syscalls s = 1" using a1 by (simp_all add: ahead_def)
  have r1: "xfer [arg_type ?a] 1 s = Inr ([type_of x], consume 1 s)"
    using xfer_ahead [OF a1, of "[arg_type ?a]" 1] by simp
  obtain v' where r2: "xfer_val (type_of x) (arg_val ?a) (consume 1 s)
      = Inr (v', consume (length (enc_val x)) (consume 1 s))" and v': "length v' = VAL_SIZE"
    and view: "arg_view \<lparr>arg_type = type_of x, arg_val = v'\<rparr> = Some x"
    using xfer_val_ahead [OF a2 v] Cons.prems(3) by auto
  let ?b = "\<lparr>arg_type = type_of x, arg_val = v'\<rparr>"
  let ?r = "r\<lparr>scr_args := (scr_args r)[i := ?b]\<rparr>"
  have b: "?a\<lparr>arg_type := type_of x, arg_val := v'\<rparr> = ?b" by (cases ?a) simp
  have shape: "scr_shape ?r"
    using Cons.prems(1) v' by (simp add: arg_ok_def)
  obtain r' where r3: "xfer_args [Suc i..<Suc i + length as] ?r (consume (length (enc_arg x)) s)
      = Inr ((1, r'), consume (length (enc_args as)) (consume (length (enc_arg x)) s))"
    and r': "scr_shape r'" "scr_syscall r' = scr_syscall r" "scr_argc r' = scr_argc r"
    and pre: "take (Suc i) (scr_args r') = take (Suc i) (scr_args ?r)"
    and views: "\<forall>j < length as. arg_view (scr_args r' ! (Suc i + j)) = Some (as ! j)"
    using Cons.IH [OF shape, of "Suc i" "consume (length (enc_arg x)) s"] Cons.prems a3 by auto
  have len': "length (scr_args r') = MAX_ARGC" using r'(1) by (simp add: scr_shape_def)
  have pre_i: "take i (scr_args r') = take i (scr_args r)"
    using arg_cong [OF pre, of "take i"] by (simp add: min_def)
  have "scr_args r' ! i = take (Suc i) (scr_args r') ! i" by simp
  also have "\<dots> = ?b" unfolding pre using i len by simp
  finally have at_i: "scr_args r' ! i = ?b" .
  have "arg_view (scr_args r' ! (i + j)) = Some ((x # as) ! j)" if "j < length (x # as)" for j
    using that at_i view views by (cases j) auto
  moreover have "xfer_args [i..<i + length (x # as)] r s
      = Inr ((1, r'), consume (length (enc_args (x # as))) s)"
    unfolding upt using i flags r1 r2 r3
    by (simp add: Let_def enc_arg_def b del: upt_Suc)
  ultimately show ?case using r' pre_i by blast
qed

lemma bidirectionalTransform_replay:
  assumes r: "scr_shape r" and n: "n \<noteq> 0" and as: "length as \<le> MAX_ARGC" "list_all aarg_ok as"
    and a: "ahead s (enc_scr n as)" and fs: "buffer_pos s \<le> fileSize"
  shows "\<exists>r'. bidirectionalTransform r fileSize s
       = Inr ((1, r'), consume (length (enc_scr n as)) s) \<and> scr_is r' n as"
proof -
  let ?c = "word_of_nat (length as) :: byte"
  from a have a1: "ahead s [n]" and a2: "ahead (consume 1 s) [?c]"
    and a3: "ahead (consume 2 s) (enc_args as)"
    using ahead_append [of s "[n]" "[?c] @ enc_args as"]
      ahead_append [of "consume 1 s" "[?c]" "enc_args as"]
    by (simp_all add: enc_scr_def numeral_2_eq_2)
  have flags: "record_syscalls s \<noteq> 1" "replay_syscalls s = 1" "buffer_pos s \<le> int MAX_FILE_SIZE"
    using a1 by (simp_all add: ahead_def)
  have r1: "xfer [scr_syscall r] 1 s = Inr ([n], consume 1 s)"
    using xfer_ahead [OF a1, of "[scr_syscall r]" 1] by simp
  have r2: "xfer [scr_argc r] 1 (consume 1 s) = Inr ([?c], consume 2 s)"
    using xfer_ahead [OF a2, of "[scr_argc r]" 1] by (simp add: numeral_2_eq_2)
  let ?r = "r\<lparr>scr_syscall := n, scr_argc := ?c\<rparr>"
  have c: "unat ?c = length as"
    using as(1) by (simp add: unsigned_of_nat take_bit_eq_mod)
  have shape: "scr_shape ?r" using r by (simp add: scr_shape_def)
  obtain r' where r3: "xfer_args [0..<length as] ?r (consume 2 s)
      = Inr ((1, r'), consume (length (enc_args as)) (consume 2 s))"
    and r': "scr_shape r'" "scr_syscall r' = n" "scr_argc r' = ?c"
    and views: "\<forall>j < length as. arg_view (scr_args r' ! j) = Some (as ! j)"
    using xfer_args_ahead [OF shape, of 0 as "consume 2 s"] as a3 by auto
  have "scr_views r' = map Some as"
    using views r' c as(1) by (intro nth_equalityI) (auto simp: scr_views_def scr_shape_def)
  then have "scr_is r' n as" using r' c as by (simp add: scr_is_def)
  moreover have "bidirectionalTransform r fileSize s
       = Inr ((1, r'), consume (length (enc_scr n as)) s)"
    using flags fs r1 r2 r3 c n
    by (simp add: bidirectionalTransform_def Let_def enc_scr_def uint_0_iff)
  ultimately show ?thesis by blast
qed

end
