(* ===== verification/Sysargs.thy ===== *)
theory Sysargs
  imports File Codec
begin

text \<open>
  The state of a system call in progress, user memory, and the functions that fetch
  arguments (\<open>syscall.c\<close>, and \<open>myargstr\<close>, \<open>myargint\<close>, \<open>argfd\<close>, \<open>fdalloc\<close> of \<open>sysfile.c\<close>).  The
  recorder's state \<open>rr\<close> is one field; \<open>rrdo\<close> runs an operation of the recorder on it.
\<close>

record sysst = filest +
  umem :: mem
  sz :: nat
  esp :: nat
  ticks :: u32
  rr :: rrst

section \<open>Definitions\<close>

text \<open>The recorder marks the process killed; there is one such flag.\<close>

definition rrdo :: "(rrst, 'a) kfun \<Rightarrow> ('z sysst_scheme, 'a) kfun" where
  "rrdo m = (\<lambda>s. case m ((rr s)\<lparr>killed := pkilled s\<rparr>) of
     Inl e \<Rightarrow> Inl e | Inr (x, r) \<Rightarrow> Inr (x, s\<lparr>rr := r, pkilled := killed r\<rparr>))"

definition umem_read :: "nat \<Rightarrow> nat \<Rightarrow> 'z sysst_scheme \<Rightarrow> bytes" where
  "umem_read a n s = map (umem s) [a..<a + n]"

definition umem_write :: "nat \<Rightarrow> bytes \<Rightarrow> ('z sysst_scheme, unit) kfun" where
  "umem_write a bs = md (\<lambda>s. s\<lparr>umem :=
     (\<lambda>x. if a \<le> x \<and> x < a + length bs then bs ! (x - a) else umem s x)\<rparr>)"

definition fetchint :: "nat \<Rightarrow> 'z sysst_scheme \<Rightarrow> i32 option" where
  "fetchint addr s =
     (if sz s \<le> addr \<or> sz s < (addr + 4) mod 2 ^ 32 then None
      else Some (get32 (umem_read addr 4 s)))"

text \<open>The string at \<open>addr\<close>, if a zero byte comes before the end of the process memory.\<close>

definition fetchstr :: "nat \<Rightarrow> 'z sysst_scheme \<Rightarrow> bytes option" where
  "fetchstr addr s =
     (if sz s \<le> addr then None
      else let m = umem_read addr (sz s - addr) s in
        if 0 \<in> set m then Some (takeWhile (\<lambda>c. c \<noteq> 0) m) else None)"

definition argint :: "nat \<Rightarrow> 'z sysst_scheme \<Rightarrow> i32 option" where
  "argint n s = fetchint ((esp s + 4 + 4 * n) mod 2 ^ 32) s"

definition argptr :: "nat \<Rightarrow> int \<Rightarrow> 'z sysst_scheme \<Rightarrow> nat option" where
  "argptr n len s = (case argint n s of None \<Rightarrow> None
     | Some i \<Rightarrow> if len < 0 \<or> sz s \<le> unat i \<or> sz s < (unat i + nat len) mod 2 ^ 32 then None
                else Some (unat i))"

definition argstr :: "nat \<Rightarrow> 'z sysst_scheme \<Rightarrow> bytes option" where
  "argstr n s = (case argint n s of None \<Rightarrow> None | Some a \<Rightarrow> fetchstr (unat a) s)"

definition myargstr :: "nat \<Rightarrow> ('z sysst_scheme, bytes) kfun" where
  "myargstr pos = bnd (rd (argstr pos)) (\<lambda>a.
     case a of None \<Rightarrow> thn (rrdo RecRepErr) (ret []) | Some v \<Rightarrow> ret v)"

definition myargint :: "nat \<Rightarrow> ('z sysst_scheme, i32) kfun" where
  "myargint pos = bnd (rd (argint pos)) (\<lambda>a.
     case a of None \<Rightarrow> thn (rrdo RecRepErr) (ret (-1)) | Some v \<Rightarrow> ret v)"

definition fd_file :: "int \<Rightarrow> 'z filest_scheme \<Rightarrow> nat option" where
  "fd_file fd s = (if fd < 0 \<or> int NOFILE \<le> fd then None else ofile s ! nat fd)"

definition argfd :: "nat \<Rightarrow> 'z sysst_scheme \<Rightarrow> (nat \<times> nat) option" where
  "argfd n s = (case argint n s of None \<Rightarrow> None
     | Some fd \<Rightarrow> map_option (\<lambda>f. (nat (sint fd), f)) (fd_file (sint fd) s))"

definition fdalloc :: "nat \<Rightarrow> ('z filest_scheme, int) kfun" where
  "fdalloc f = bnd (rd (\<lambda>s. find (\<lambda>fd. ofile s ! fd = None) [0..<NOFILE])) (\<lambda>r.
     case r of
       Some fd \<Rightarrow> thn (md (\<lambda>s. s\<lparr>ofile := (ofile s)[fd := Some f]\<rparr>)) (ret (int fd))
     | None \<Rightarrow> ret (-1))"

definition clear_fd :: "nat \<Rightarrow> ('z filest_scheme, unit) kfun" where
  "clear_fd fd = md (\<lambda>s. s\<lparr>ofile := (ofile s)[fd := None]\<rparr>)"

section \<open>Lemmas\<close>

lemma rrdo_Inr:
  "m ((rr s)\<lparr>killed := pkilled s\<rparr>) = Inr (x, r) \<Longrightarrow>
   rrdo m s = Inr (x, s\<lparr>rr := r, pkilled := killed r\<rparr>)"
  by (simp add: rrdo_def)

lemma rrdo_Inl: "m ((rr s)\<lparr>killed := pkilled s\<rparr>) = Inl e \<Longrightarrow> rrdo m s = Inl e"
  by (simp add: rrdo_def)

text \<open>A pointer that \<open>argptr\<close> accepts spans memory of the process only.\<close>

lemma argptr_bounds:
  assumes "argptr n len s = Some a" "sz s \<le> 2 ^ 31" "len < 2 ^ 31"
  shows "0 \<le> len \<and> a < sz s \<and> a + nat len \<le> sz s"
proof -
  obtain i where "argint n s = Some i"
    using assms(1) by (cases "argint n s") (simp_all only: argptr_def option.case option.distinct)
  then have "(if len < 0 \<or> sz s \<le> unat i \<or> sz s < (unat i + nat len) mod 2 ^ 32 then None
      else Some (unat i)) = Some a"
    using assms(1) by (simp only: argptr_def option.case)
  then have i: "0 \<le> len" "unat i < sz s" "(unat i + nat len) mod 2 ^ 32 \<le> sz s" "a = unat i"
    by (metis linorder_not_le option.distinct(1) option.inject)+
  have "nat len < 2 ^ 31" using assms(3) i(1) by (simp add: nat_less_iff)
  then have "unat i + nat len < 2 ^ 31 + 2 ^ 31" using i(2) assms(2) by (intro add_strict_mono) simp_all
  then have "unat i + nat len < 2 ^ 32" by simp
  then have "(unat i + nat len) mod 2 ^ 32 = unat i + nat len" by (rule mod_less)
  then show ?thesis using i by metis
qed

lemma fetchstr_no_zero: "fetchstr a s = Some v \<Longrightarrow> 0 \<notin> set v"
  by (auto simp: fetchstr_def Let_def split: if_splits dest: set_takeWhileD)

lemma fetchstr_bounds:
  assumes "fetchstr a s = Some v"
  shows "a + length v < sz s \<and> umem s (a + length v) = 0 \<and> v = umem_read a (length v) s"
proof -
  let ?m = "umem_read a (sz s - a) s"
  have lt: "a < sz s" and z: "0 \<in> set ?m" and v: "v = takeWhile (\<lambda>c. c \<noteq> 0) ?m"
    using assms by (auto simp: fetchstr_def Let_def split: if_splits)
  have len: "length v < length ?m" unfolding v using z by (intro length_takeWhile_less [of 0]) simp_all
  have "?m ! length v = 0"
    using nth_length_takeWhile [of "\<lambda>c. c \<noteq> 0" ?m] len unfolding v by blast
  moreover have "v = take (length v) ?m" unfolding v by (rule takeWhile_eq_take)
  ultimately show ?thesis using len lt by (auto simp: umem_read_def take_map)
qed

end
