(* ===== verification/Sysfile.thy ===== *)
theory Sysfile
  imports Sysargs
begin

text \<open>
  The file system calls (\<open>sysfile.c\<close>).  Every recorded call has three copies of its work in
  the source: the original one, one inside the recording branch, and the replay branch,
  which only consults the recording.  The first two are modelled separately here
  (\<open>..._orig\<close> and \<open>..._rec\<close>); the handlers themselves, with the recorder around them, are in
  theory Handlers.
\<close>

unbundle bit_operations_syntax

abbreviation O_RDONLY :: i32 where "O_RDONLY \<equiv> 0"
abbreviation O_WRONLY :: i32 where "O_WRONLY \<equiv> 1"
abbreviation O_RDWR :: i32 where "O_RDWR \<equiv> 2"
abbreviation O_CREATE :: i32 where "O_CREATE \<equiv> 0x200"

section \<open>Calls the recorder does not touch\<close>

definition sys_dup :: "('z sysst_scheme, int) kfun" where
  "sys_dup = bnd (rd (argfd 0)) (\<lambda>a. case a of None \<Rightarrow> ret (-1) | Some (_, f) \<Rightarrow>
     bnd (fdalloc f) (\<lambda>fd. if fd < 0 then ret (-1) else thn (filedup f) (ret fd)))"

text \<open>File, count and pointer of \<open>read\<close> and \<open>write\<close>, fetched in the order of the code.\<close>

definition io_args :: "'z sysst_scheme \<Rightarrow> (nat \<times> int \<times> nat) option" where
  "io_args s = (case argfd 0 s of None \<Rightarrow> None | Some (_, f) \<Rightarrow>
     (case argint 2 s of None \<Rightarrow> None | Some n \<Rightarrow>
       (case argptr 1 (sint n) s of None \<Rightarrow> None | Some p \<Rightarrow> Some (f, sint n, p))))"

definition sys_write :: "('z sysst_scheme, int) kfun" where
  "sys_write = bnd (rd io_args) (\<lambda>a. case a of None \<Rightarrow> ret (-1) | Some (f, n, p) \<Rightarrow>
     bnd (rd (umem_read p (nat n))) (\<lambda>bs. filewrite f bs n))"

definition sys_pipe :: "('z sysst_scheme, int) kfun" where
  "sys_pipe = bnd (rd (argptr 0 8)) (\<lambda>a. case a of None \<Rightarrow> ret (-1) | Some p \<Rightarrow>
     bnd pipealloc (\<lambda>r. case r of None \<Rightarrow> ret (-1) | Some (f0, f1) \<Rightarrow>
     bnd (fdalloc f0) (\<lambda>fd0.
     if fd0 < 0 then thn (fileclose f0) (thn (fileclose f1) (ret (-1)))
     else bnd (fdalloc f1) (\<lambda>fd1.
       if fd1 < 0 then thn (clear_fd (nat fd0)) (thn (fileclose f0) (thn (fileclose f1) (ret (-1))))
       else thn (umem_write p (put32 (word_of_int fd0) @ put32 (word_of_int fd1))) (ret 0)))))"

text \<open>The argument vector of \<open>exec\<close>: at most \<open>MAXARG\<close> words, the last one zero.\<close>

abbreviation MAXARG :: nat where "MAXARG \<equiv> 32"

primrec fetch_argv :: "nat \<Rightarrow> nat \<Rightarrow> nat \<Rightarrow> 'z sysst_scheme \<Rightarrow> bytes list option" where
  "fetch_argv 0 uargv i s = None"
| "fetch_argv (Suc k) uargv i s =
     (case fetchint ((uargv + 4 * i) mod 2 ^ 32) s of None \<Rightarrow> None | Some uarg \<Rightarrow>
      if uarg = 0 then Some []
      else (case fetchstr (unat uarg) s of None \<Rightarrow> None | Some a \<Rightarrow>
        map_option (Cons a) (fetch_argv k uargv (Suc i) s)))"

definition exec_args :: "'z sysst_scheme \<Rightarrow> (bytes \<times> bytes list) option" where
  "exec_args s = (case argstr 0 s of None \<Rightarrow> None | Some path \<Rightarrow>
     (case argint 1 s of None \<Rightarrow> None | Some uargv \<Rightarrow>
       map_option (Pair path) (fetch_argv MAXARG (unat uargv) 0 s)))"

section \<open>read, close and fstat\<close>

text \<open>The results are the return value and, where the recording branch goes on with it, the
  pointer the call has stored to.\<close>

definition read_orig :: "('z sysst_scheme, int) kfun" where
  "read_orig = bnd (rd io_args) (\<lambda>a. case a of None \<Rightarrow> ret (-1) | Some (f, n, p) \<Rightarrow>
     bnd (fileread f n) (\<lambda>(r, bs). thn (umem_write p bs) (ret r)))"

definition read_rec :: "('z sysst_scheme, int \<times> nat option) kfun" where
  "read_rec = bnd (rd io_args) (\<lambda>a. case a of
       None \<Rightarrow> ret (-1, None)
     | Some (f, n, p) \<Rightarrow> bnd (fileread f n) (\<lambda>(r, bs). thn (umem_write p bs) (ret (r, Some p))))"

definition close_orig :: "('z sysst_scheme, int) kfun" where
  "close_orig = bnd (rd (argfd 0)) (\<lambda>a. case a of None \<Rightarrow> ret (-1) | Some (fd, f) \<Rightarrow>
     thn (clear_fd fd) (thn (fileclose f) (ret 0)))"

definition close_rec :: "('z sysst_scheme, int) kfun" where
  "close_rec = bnd (rd (argfd 0)) (\<lambda>a. case a of None \<Rightarrow> ret (-1) | Some (fd, f) \<Rightarrow>
     thn (clear_fd fd) (thn (fileclose f) (ret 0)))"

text \<open>\<open>struct stat\<close> in user memory: the members are stored one by one, the padding stays.\<close>

abbreviation STAT_SIZE :: nat where "STAT_SIZE \<equiv> 20"

definition store_stat :: "nat \<Rightarrow> myStat \<Rightarrow> ('z sysst_scheme, unit) kfun" where
  "store_stat p st = bnd (rd (umem_read p STAT_SIZE)) (\<lambda>old. umem_write p (set_st st old))"

definition fstat_args :: "'z sysst_scheme \<Rightarrow> (nat \<times> nat) option" where
  "fstat_args s = (case argfd 0 s of None \<Rightarrow> None | Some (_, f) \<Rightarrow>
     (case argptr 1 (int STAT_SIZE) s of None \<Rightarrow> None | Some p \<Rightarrow> Some (f, p)))"

definition fstat_orig :: "('z sysst_scheme, int) kfun" where
  "fstat_orig = bnd (rd fstat_args) (\<lambda>a. case a of None \<Rightarrow> ret (-1) | Some (f, p) \<Rightarrow>
     bnd (filestat f) (\<lambda>r. case r of None \<Rightarrow> ret (-1) | Some st \<Rightarrow> thn (store_stat p st) (ret 0)))"

definition fstat_rec :: "('z sysst_scheme, int \<times> nat option) kfun" where
  "fstat_rec = bnd (rd fstat_args) (\<lambda>a. case a of None \<Rightarrow> ret (-1, None) | Some (f, p) \<Rightarrow>
     bnd (filestat f) (\<lambda>r. case r of
       None \<Rightarrow> ret (-1, Some p)
     | Some st \<Rightarrow> thn (store_stat p st) (ret (0, Some p))))"

section \<open>link\<close>

definition add_nlink :: "nat \<Rightarrow> u16 \<Rightarrow> ('z fsst_scheme, unit) kfun" where
  "add_nlink i d = upd_inode i (\<lambda>ip. ip\<lparr>i_nlink := i_nlink ip + d\<rparr>)"

definition link_args :: "'z sysst_scheme \<Rightarrow> (bytes \<times> bytes) option" where
  "link_args s = (case argstr 0 s of None \<Rightarrow> None | Some old \<Rightarrow> map_option (Pair old) (argstr 1 s))"

definition link_orig :: "('z sysst_scheme, int) kfun" where
  "link_orig = bnd (rd link_args) (\<lambda>a. case a of None \<Rightarrow> ret (-1) | Some (old, new) \<Rightarrow>
       thn begin_op
      (bnd (namei old) (\<lambda>ip. case ip of
         None \<Rightarrow> thn end_op (ret (-1))
       | Some ip \<Rightarrow>
         thn (ilock ip)
        (bnd (rd (\<lambda>s. i_type (inode_at s ip))) (\<lambda>ty.
         if ty = T_DIR then thn (iunlockput ip) (thn end_op (ret (-1)))
         else
           thn (add_nlink ip 1)
          (thn (iupdate ip)
          (thn (iunlock ip)
          (let bad = thn (ilock ip) (thn (add_nlink ip (-1)) (thn (iupdate ip) (thn (iunlockput ip)
                      (thn end_op (ret (-1))))))
           in bnd (nameiparent new) (\<lambda>(dp, name). case dp of
                None \<Rightarrow> bad
              | Some dp \<Rightarrow>
                thn (ilock dp)
               (bnd (rd id) (\<lambda>s.
                bnd (if i_dev (inode_at s dp) \<noteq> i_dev (inode_at s ip) then ret (-1)
                     else dirlink dp name (i_inum (inode_at s ip))) (\<lambda>r.
                if r < 0 then thn (iunlockput dp) bad
                else thn (iunlockput dp) (thn (iput ip) (thn end_op (ret 0)))))))))))))))"

text \<open>In the recording branch the code at the label \<open>bad\<close> is written out twice.\<close>

definition link_rec :: "('z sysst_scheme, int) kfun" where
  "link_rec = bnd (rd link_args) (\<lambda>a. case a of None \<Rightarrow> ret (-1) | Some (old, new) \<Rightarrow>
       thn begin_op
      (bnd (namei old) (\<lambda>ip. case ip of
         None \<Rightarrow> thn end_op (ret (-1))
       | Some ip \<Rightarrow>
         thn (ilock ip)
        (bnd (rd (\<lambda>s. i_type (inode_at s ip))) (\<lambda>ty.
         if ty = T_DIR then thn (iunlockput ip) (thn end_op (ret (-1)))
         else
           thn (add_nlink ip 1)
          (thn (iupdate ip)
          (thn (iunlock ip)
          (bnd (nameiparent new) (\<lambda>(dp, name). case dp of
             None \<Rightarrow> thn (ilock ip) (thn (add_nlink ip (-1)) (thn (iupdate ip) (thn (iunlockput ip)
                      (thn end_op (ret (-1))))))
           | Some dp \<Rightarrow>
             thn (ilock dp)
            (bnd (rd id) (\<lambda>s.
             bnd (if i_dev (inode_at s dp) \<noteq> i_dev (inode_at s ip) then ret (-1)
                  else dirlink dp name (i_inum (inode_at s ip))) (\<lambda>r.
             if r < 0 then thn (iunlockput dp) (thn (ilock ip) (thn (add_nlink ip (-1)) (thn (iupdate ip)
                      (thn (iunlockput ip) (thn end_op (ret (-1)))))))
             else thn (iunlockput dp) (thn (iput ip) (thn end_op (ret 0)))))))))))))))"

section \<open>unlink\<close>

primrec isdirempty_loop :: "nat \<Rightarrow> nat list \<Rightarrow> ('z fsst_scheme, bool) kfun" where
  "isdirempty_loop dp [] = ret True"
| "isdirempty_loop dp (off # offs) =
     bnd (readi dp off DIRENT) (\<lambda>(r, de).
     if r \<noteq> int DIRENT then stop (Panic ''isdirempty: readi'')
     else if de_inum de \<noteq> 0 then ret False
     else isdirempty_loop dp offs)"

definition isdirempty :: "nat \<Rightarrow> ('z fsst_scheme, bool) kfun" where
  "isdirempty dp = bnd (rd (\<lambda>s. i_size (inode_at s dp))) (\<lambda>n.
     isdirempty_loop dp (drop 2 (dir_offs n)))"

definition unlink_orig :: "('z sysst_scheme, int) kfun" where
  "unlink_orig = bnd (rd (argstr 0)) (\<lambda>path. case path of None \<Rightarrow> ret (-1) | Some path \<Rightarrow>
     thn begin_op
    (bnd (nameiparent path) (\<lambda>(dp, name). case dp of
       None \<Rightarrow> thn end_op (ret (-1))
     | Some dp \<Rightarrow>
       let bad = thn (iunlockput dp) (thn end_op (ret (-1))) in
       thn (ilock dp)
      (if namecmp name [46] = 0 \<or> namecmp name [46, 46] = 0 then bad
       else bnd (dirlookup dp name) (\<lambda>found. case found of
         None \<Rightarrow> bad
       | Some (ip, off) \<Rightarrow>
         thn (ilock ip)
        (bnd (rd (\<lambda>s. inode_at s ip)) (\<lambda>n.
         if sint (i_nlink n) < 1 then stop (Panic ''unlink: nlink < 1'')
         else
           bnd (if i_type n = T_DIR then isdirempty ip else ret True) (\<lambda>empty.
           if \<not> empty then thn (iunlockput ip) bad
           else
             bnd (writei dp (replicate DIRENT 0) off DIRENT) (\<lambda>r.
             if r \<noteq> int DIRENT then stop (Panic ''unlink: writei'')
             else
               thn (whn (i_type n = T_DIR) (thn (add_nlink dp (-1)) (iupdate dp)))
              (thn (iunlockput dp)
              (thn (add_nlink ip (-1))
              (thn (iupdate ip)
              (thn (iunlockput ip)
              (thn end_op (ret 0)))))))))))))))"

definition unlink_rec :: "('z sysst_scheme, int) kfun" where
  "unlink_rec = bnd (rd (argstr 0)) (\<lambda>path. case path of None \<Rightarrow> ret (-1) | Some path \<Rightarrow>
     thn begin_op
    (bnd (nameiparent path) (\<lambda>(dp, name). case dp of
       None \<Rightarrow> thn end_op (ret (-1))
     | Some dp \<Rightarrow>
       thn (ilock dp)
      (if namecmp name [46] = 0 \<or> namecmp name [46, 46] = 0
       then thn (iunlockput dp) (thn end_op (ret (-1)))
       else bnd (dirlookup dp name) (\<lambda>found. case found of
         None \<Rightarrow> thn (iunlockput dp) (thn end_op (ret (-1)))
       | Some (ip, off) \<Rightarrow>
         thn (ilock ip)
        (bnd (rd (\<lambda>s. inode_at s ip)) (\<lambda>n.
         if sint (i_nlink n) < 1 then stop (Panic ''unlink: nlink < 1'')
         else
           bnd (if i_type n = T_DIR then isdirempty ip else ret True) (\<lambda>empty.
           if \<not> empty then thn (iunlockput ip) (thn (iunlockput dp) (thn end_op (ret (-1))))
           else
             bnd (writei dp (replicate DIRENT 0) off DIRENT) (\<lambda>r.
             if r \<noteq> int DIRENT then stop (Panic ''unlink: writei'')
             else
               thn (whn (i_type n = T_DIR) (thn (add_nlink dp (-1)) (iupdate dp)))
              (thn (iunlockput dp)
              (thn (add_nlink ip (-1))
              (thn (iupdate ip)
              (thn (iunlockput ip)
              (thn end_op (ret 0)))))))))))))))"

section \<open>create and open\<close>

definition create :: "bytes \<Rightarrow> u16 \<Rightarrow> u16 \<Rightarrow> u16 \<Rightarrow> ('z fsst_scheme, nat option) kfun" where
  "create path ty major minor = bnd (nameiparent path) (\<lambda>(dp, name). case dp of
     None \<Rightarrow> ret None
   | Some dp \<Rightarrow>
     thn (ilock dp)
    (bnd (dirlookup dp name) (\<lambda>found. case found of
       Some (ip, _) \<Rightarrow>
         thn (iunlockput dp)
        (thn (ilock ip)
        (bnd (rd (\<lambda>s. i_type (inode_at s ip))) (\<lambda>t.
         if ty = T_FILE \<and> t = T_FILE then ret (Some ip)
         else thn (iunlockput ip) (ret None))))
     | None \<Rightarrow>
         bnd (rd (\<lambda>s. i_dev (inode_at s dp))) (\<lambda>dev.
         bnd (ialloc dev ty) (\<lambda>ip.
         thn (ilock ip)
        (thn (upd_inode ip (\<lambda>n. n\<lparr>i_major := major, i_minor := minor, i_nlink := 1\<rparr>))
        (thn (iupdate ip)
        (thn (whn (ty = T_DIR)
               (thn (add_nlink dp 1)
               (thn (iupdate dp)
               (bnd (rd id) (\<lambda>s.
                bnd (dirlink ip [46] (i_inum (inode_at s ip))) (\<lambda>r.
                if r < 0 then stop (Panic ''create dots'')
                else bnd (dirlink ip [46, 46] (i_inum (inode_at s dp))) (\<lambda>r.
                  whn (r < 0) (stop (Panic ''create dots'')))))))))
        (bnd (rd (\<lambda>s. i_inum (inode_at s ip))) (\<lambda>inum.
         bnd (dirlink dp name inum) (\<lambda>r.
         if r < 0 then stop (Panic ''create: dirlink'')
         else thn (iunlockput dp) (ret (Some ip)))))))))))))"

text \<open>The file structure of a newly opened inode.\<close>

definition set_opened :: "nat \<Rightarrow> nat \<Rightarrow> i32 \<Rightarrow> ('z filest_scheme, unit) kfun" where
  "set_opened f ip omode = upd_file f (\<lambda>x. x\<lparr>f_type := FD_INODE, f_ip := ip, f_off := 0,
     f_readable := (omode AND O_WRONLY = 0),
     f_writable := (omode AND O_WRONLY \<noteq> 0 \<or> omode AND O_RDWR \<noteq> 0)\<rparr>)"

definition open_args :: "'z sysst_scheme \<Rightarrow> (bytes \<times> i32) option" where
  "open_args s = (case argstr 0 s of None \<Rightarrow> None | Some path \<Rightarrow> map_option (Pair path) (argint 1 s))"

text \<open>The part of opening that yields the locked inode, and the part that makes the descriptor.\<close>

definition open_inode :: "bytes \<Rightarrow> i32 \<Rightarrow> ('z fsst_scheme, nat option) kfun" where
  "open_inode path omode =
     (if omode AND O_CREATE \<noteq> 0 then
        bnd (create path T_FILE 0 0) (\<lambda>ip. case ip of
          None \<Rightarrow> thn end_op (ret None)
        | Some ip \<Rightarrow> ret (Some ip))
      else
        bnd (namei path) (\<lambda>ip. case ip of
          None \<Rightarrow> thn end_op (ret None)
        | Some ip \<Rightarrow>
          thn (ilock ip)
         (bnd (rd (\<lambda>s. i_type (inode_at s ip))) (\<lambda>t.
          if t = T_DIR \<and> omode \<noteq> O_RDONLY
          then thn (iunlockput ip) (thn end_op (ret None))
          else ret (Some ip)))))"

definition open_fd :: "nat \<Rightarrow> i32 \<Rightarrow> ('z filest_scheme, int) kfun" where
  "open_fd ip omode = bnd filealloc (\<lambda>f. case f of
     None \<Rightarrow> thn (iunlockput ip) (thn end_op (ret (-1)))
   | Some f \<Rightarrow> bnd (fdalloc f) (\<lambda>fd.
       if fd < 0 then thn (fileclose f) (thn (iunlockput ip) (thn end_op (ret (-1))))
       else thn (iunlock ip) (thn end_op (thn (set_opened f ip omode) (ret fd)))))"

definition open_orig :: "('z sysst_scheme, int) kfun" where
  "open_orig = bnd (rd open_args) (\<lambda>a. case a of None \<Rightarrow> ret (-1) | Some (path, omode) \<Rightarrow>
     thn begin_op
    (bnd (open_inode path omode) (\<lambda>ip. case ip of None \<Rightarrow> ret (-1) | Some ip \<Rightarrow> open_fd ip omode)))"

definition open_rec :: "('z sysst_scheme, int) kfun" where
  "open_rec = bnd (rd open_args) (\<lambda>a. case a of None \<Rightarrow> ret (-1) | Some (path, omode) \<Rightarrow>
     thn begin_op
    (bnd (if omode AND O_CREATE \<noteq> 0 then
            bnd (create path T_FILE 0 0) (\<lambda>ip. case ip of
              None \<Rightarrow> thn end_op (ret None) | Some ip \<Rightarrow> ret (Some ip))
          else bnd (namei path) (\<lambda>ip. case ip of
            None \<Rightarrow> thn end_op (ret None)
          | Some ip \<Rightarrow> thn (ilock ip) (bnd (rd (\<lambda>s. i_type (inode_at s ip))) (\<lambda>t.
              if t = T_DIR \<and> omode \<noteq> O_RDONLY
              then thn (iunlockput ip) (thn end_op (ret None)) else ret (Some ip))))) (\<lambda>ip.
     case ip of None \<Rightarrow> ret (-1) | Some ip \<Rightarrow>
       bnd filealloc (\<lambda>f. case f of
         None \<Rightarrow> thn (iunlockput ip) (thn end_op (ret (-1)))
       | Some f \<Rightarrow> bnd (fdalloc f) (\<lambda>fd.
           if fd < 0 then thn (fileclose f) (thn (iunlockput ip) (thn end_op (ret (-1))))
           else thn (iunlock ip) (thn end_op (thn (set_opened f ip omode) (ret fd))))))))"

section \<open>mkdir, mknod and chdir\<close>

definition mkdir_orig :: "('z sysst_scheme, int) kfun" where
  "mkdir_orig =
     thn begin_op
    (bnd (rd (argstr 0)) (\<lambda>path. case path of
       None \<Rightarrow> thn end_op (ret (-1))
     | Some path \<Rightarrow> bnd (create path T_DIR 0 0) (\<lambda>ip. case ip of
         None \<Rightarrow> thn end_op (ret (-1))
       | Some ip \<Rightarrow> thn (iunlockput ip) (thn end_op (ret 0)))))"

definition mkdir_rec :: "('z sysst_scheme, int) kfun" where
  "mkdir_rec =
     thn begin_op
    (bnd (rd (argstr 0)) (\<lambda>path. case path of
       None \<Rightarrow> thn end_op (ret (-1))
     | Some path \<Rightarrow> bnd (create path T_DIR 0 0) (\<lambda>ip. case ip of
         None \<Rightarrow> thn end_op (ret (-1))
       | Some ip \<Rightarrow> thn (iunlockput ip) (thn end_op (ret 0)))))"

definition mknod_args :: "'z sysst_scheme \<Rightarrow> (bytes \<times> i32 \<times> i32) option" where
  "mknod_args s = (case argstr 0 s of None \<Rightarrow> None | Some path \<Rightarrow>
     (case argint 1 s of None \<Rightarrow> None | Some major \<Rightarrow>
       map_option (\<lambda>minor. (path, major, minor)) (argint 2 s)))"

definition mknod_orig :: "('z sysst_scheme, int) kfun" where
  "mknod_orig =
     thn begin_op
    (bnd (rd mknod_args) (\<lambda>a. case a of
       None \<Rightarrow> thn end_op (ret (-1))
     | Some (path, major, minor) \<Rightarrow> bnd (create path T_DEV (ucast major) (ucast minor)) (\<lambda>ip. case ip of
         None \<Rightarrow> thn end_op (ret (-1))
       | Some ip \<Rightarrow> thn (iunlockput ip) (thn end_op (ret 0)))))"

definition mknod_rec :: "('z sysst_scheme, int) kfun" where
  "mknod_rec =
     thn begin_op
    (bnd (rd mknod_args) (\<lambda>a. case a of
       None \<Rightarrow> thn end_op (ret (-1))
     | Some (path, major, minor) \<Rightarrow> bnd (create path T_DEV (ucast major) (ucast minor)) (\<lambda>ip. case ip of
         None \<Rightarrow> thn end_op (ret (-1))
       | Some ip \<Rightarrow> thn (iunlockput ip) (thn end_op (ret 0)))))"

definition chdir_orig :: "('z sysst_scheme, int) kfun" where
  "chdir_orig =
     thn begin_op
    (bnd (rd (argstr 0)) (\<lambda>path. case path of
       None \<Rightarrow> thn end_op (ret (-1))
     | Some path \<Rightarrow> bnd (namei path) (\<lambda>ip. case ip of
         None \<Rightarrow> thn end_op (ret (-1))
       | Some ip \<Rightarrow>
         thn (ilock ip)
        (bnd (rd (\<lambda>s. i_type (inode_at s ip))) (\<lambda>t.
         if t \<noteq> T_DIR then thn (iunlockput ip) (thn end_op (ret (-1)))
         else
           thn (iunlock ip)
          (bnd (rd cwd) (\<lambda>old.
           thn (iput old)
          (thn end_op
          (thn (md (\<lambda>s. s\<lparr>cwd := ip\<rparr>)) (ret 0))))))))))"

definition chdir_rec :: "('z sysst_scheme, int) kfun" where
  "chdir_rec =
     thn begin_op
    (bnd (rd (argstr 0)) (\<lambda>path. case path of
       None \<Rightarrow> thn end_op (ret (-1))
     | Some path \<Rightarrow> bnd (namei path) (\<lambda>ip. case ip of
         None \<Rightarrow> thn end_op (ret (-1))
       | Some ip \<Rightarrow>
         thn (ilock ip)
        (bnd (rd (\<lambda>s. i_type (inode_at s ip))) (\<lambda>t.
         if t \<noteq> T_DIR then thn (iunlockput ip) (thn end_op (ret (-1)))
         else
           thn (iunlock ip)
          (bnd (rd cwd) (\<lambda>old.
           thn (iput old)
          (thn end_op
          (thn (md (\<lambda>s. s\<lparr>cwd := ip\<rparr>)) (ret 0))))))))))"

section \<open>Files inside the kernel\<close>

text \<open>The recorder's own access to files, by descriptor and kernel buffer.\<close>

definition my_read :: "int \<Rightarrow> int \<Rightarrow> ('z filest_scheme, int \<times> bytes) kfun" where
  "my_read fd n = bnd (rd (fd_file fd)) (\<lambda>f. case f of None \<Rightarrow> ret (-1, []) | Some f \<Rightarrow> fileread f n)"

definition my_write :: "int \<Rightarrow> bytes \<Rightarrow> int \<Rightarrow> ('z filest_scheme, int) kfun" where
  "my_write fd p n = bnd (rd (fd_file fd)) (\<lambda>f. case f of None \<Rightarrow> ret (-1) | Some f \<Rightarrow> filewrite f p n)"

definition my_open :: "bytes \<Rightarrow> i32 \<Rightarrow> ('z filest_scheme, int) kfun" where
  "my_open path omode =
     thn begin_op
    (bnd (if omode AND O_CREATE \<noteq> 0 then
            bnd (create path T_FILE 0 0) (\<lambda>ip. case ip of
              None \<Rightarrow> thn end_op (ret None) | Some ip \<Rightarrow> ret (Some ip))
          else bnd (namei path) (\<lambda>ip. case ip of
            None \<Rightarrow> thn end_op (ret None)
          | Some ip \<Rightarrow> thn (ilock ip) (bnd (rd (\<lambda>s. i_type (inode_at s ip))) (\<lambda>t.
              if t = T_DIR \<and> omode \<noteq> O_RDONLY
              then thn (iunlockput ip) (thn end_op (ret None)) else ret (Some ip))))) (\<lambda>ip.
     case ip of None \<Rightarrow> ret (-1) | Some ip \<Rightarrow>
       bnd filealloc (\<lambda>f. case f of
         None \<Rightarrow> thn (iunlockput ip) (thn end_op (ret (-1)))
       | Some f \<Rightarrow> bnd (fdalloc f) (\<lambda>fd.
           if fd < 0 then thn (fileclose f) (thn (iunlockput ip) (thn end_op (ret (-1))))
           else thn (iunlock ip) (thn end_op (thn (set_opened f ip omode) (ret fd)))))))"

definition my_close :: "int \<Rightarrow> ('z filest_scheme, int) kfun" where
  "my_close fd = bnd (rd (fd_file fd)) (\<lambda>f. case f of None \<Rightarrow> ret (-1) | Some f \<Rightarrow>
     thn (clear_fd (nat fd)) (thn (fileclose f) (ret 0)))"

end
