(* ===== verification/Frames.thy ===== *)
theory Frames
  imports Sysfile
begin

text \<open>
  What the file system leaves alone.  The locale collects what is common to all invariants that do
  not look below the file table: the operations of locks, memory, pipes, console, disk, log,
  inodes and directories keep them.  Its first use: no operation of the file system changes the
  recorder's state, user memory, the stack pointer, the process size, the clock or the kill flag.
\<close>

section \<open>Rules\<close>

lemma keeps_option [keep_intros]:
  "keeps I n \<Longrightarrow> (\<And>x. keeps I (f x)) \<Longrightarrow> keeps I (case_option n f v)"
  by (cases v) auto

lemma keeps_prod [keep_intros]: "(\<And>a b. keeps I (f a b)) \<Longrightarrow> keeps I (case_prod f p)"
  by (cases p) auto

lemma keeps_list [keep_intros]:
  "keeps I n \<Longrightarrow> (\<And>x xs. keeps I (f x xs)) \<Longrightarrow> keeps I (case_list n f v)"
  by (cases v) auto

lemma keeps_fdtype [keep_intros]:
  "keeps I a \<Longrightarrow> keeps I b \<Longrightarrow> keeps I c \<Longrightarrow> keeps I (case_fdtype a b c t)"
  by (cases t) auto

lemma keeps_Inr [keep_intros]: "keeps I (\<lambda>s. Inr (x, s))"
  by (simp add: keeps_def)

lemma keeps_Let [keep_intros]: "keeps I (f x) \<Longrightarrow> keeps I (Let x f)"
  by simp

section \<open>Invariants above the file system\<close>

locale fs_frame =
  fixes I :: "'z fsst_scheme \<Rightarrow> bool"
  assumes upd: "I (s\<lparr>held := a\<rparr>) = I s" "I (s\<lparr>slocks := b\<rparr>) = I s"
    "I (s\<lparr>kfreelist := c\<rparr>) = I s" "I (s\<lparr>pages := d\<rparr>) = I s" "I (s\<lparr>pipes := e\<rparr>) = I s"
    "I (s\<lparr>input := f\<rparr>) = I s" "I (s\<lparr>cons_out := g\<rparr>) = I s" "I (s\<lparr>bufs := h\<rparr>) = I s"
    "I (s\<lparr>blru := i\<rparr>) = I s" "I (s\<lparr>idequeue := j\<rparr>) = I s" "I (s\<lparr>disk := k\<rparr>) = I s"
    "I (s\<lparr>dwrites := l\<rparr>) = I s" "I (s\<lparr>log_outstanding := m\<rparr>) = I s"
    "I (s\<lparr>log_committing := n\<rparr>) = I s" "I (s\<lparr>log_lh := o'\<rparr>) = I s" "I (s\<lparr>icache := p\<rparr>) = I s"
begin

lemma keep_md [keep_intros]: "(\<And>s. I (f s) = I s) \<Longrightarrow> keeps I (md f)"
  by (simp add: keeps_def)

subsection \<open>Locks, memory, pipes and console\<close>

lemma keep_locks [keep_intros]:
  "keeps I (acq l)" "keeps I (rel l)" "keeps I (acquiresleep k)" "keeps I (releasesleep k)"
  "keeps I (holdingsleep k)"
  unfolding acq_def rel_def set_slock_def acquiresleep_def releasesleep_def holdingsleep_def
  by (intro keep_intros; simp add: upd)+

lemma keep_kalloc [keep_intros]: "keeps I (kfree v)" "keeps I kalloc"
  unfolding kfree_def kalloc_def V2P_def by (intro keep_intros; simp add: upd)+

lemma keep_pipe [keep_intros]: "keeps I (get_pipe a)" "keeps I (set_pipe a p)" "keeps I (pipeclose a w)"
  unfolding get_pipe_def set_pipe_def pipeclose_def by (intro keep_intros; simp add: upd)+

lemma keep_pipe_loops [keep_intros]: "keeps I (pipewrite_loop a bs)" "keeps I (piperead_loop a n)"
proof -
  show "keeps I (pipewrite_loop a bs)" by (induction bs; unfold pipewrite_loop.simps; (intro keep_intros; simp add: upd))
  show "keeps I (piperead_loop a n)" by (induction n; unfold piperead_loop.simps; (intro keep_intros; simp add: upd))
qed

lemma keep_pipe_io [keep_intros]: "keeps I (pipewrite a d n)" "keeps I (piperead a n)"
  unfolding pipewrite_def piperead_def by (intro keep_intros)+

lemma keep_console [keep_intros]: "keeps I (consread_loop t n)" "keeps I (consputs bs)"
proof -
  show "keeps I (consread_loop t n)" by (induction n; unfold consread_loop.simps; (intro keep_intros; simp add: upd))
  show "keeps I (consputs bs)" by (induction bs; unfold consputc_def consputs.simps; (intro keep_intros; simp add: upd))
qed

subsection \<open>Disk, cache and log\<close>

lemma keep_ide [keep_intros]:
  "keeps I (upd_buf i f)" "keeps I (disk_write d b x)" "keeps I (idestart i)" "keeps I ideintr"
  unfolding upd_buf_def disk_write_def idestart_def ideintr_def by (intro keep_intros; simp add: upd)+

lemma keep_ide_wait [keep_intros]: "keeps I (ide_wait n i)"
  by (induction n; unfold ide_wait.simps; (intro keep_intros; simp add: upd))

lemma keep_bio [keep_intros]:
  "keeps I (iderw i)" "keeps I (bget d b)" "keeps I (bwrite i)" "keeps I (brelse i)"
  "keeps I (bdata i)" "keeps I (set_bdata i x)"
  unfolding iderw_def bget_def bwrite_def brelse_def bdata_def set_bdata_def
  by (intro keep_intros; simp add: upd)+

lemma keep_bread [keep_intros]: "keeps I (bread d b)"
  unfolding bread_def by (intro keep_intros)

lemma keep_log_loops [keep_intros]: "keeps I (install_loop ts)" "keeps I (write_log_loop ts)"
proof -
  show "keeps I (install_loop ts)" by (induction ts; unfold install_loop.simps; (intro keep_intros; simp add: upd))
  show "keeps I (write_log_loop ts)" by (induction ts; unfold write_log_loop.simps; (intro keep_intros; simp add: upd))
qed

lemma keep_log_steps [keep_intros]:
  "keeps I install_trans" "keeps I write_head" "keeps I clear_lh" "keeps I write_log"
  unfolding install_trans_def write_head_def clear_lh_def write_log_def
  by (intro keep_intros; simp add: upd)+

lemma keep_log_ops [keep_intros]:
  "keeps I begin_op" "keeps I end_op" "keeps I (log_write i)" "keeps I commit"
  unfolding begin_op_def end_op_def log_write_def commit_def
  by (intro keep_intros; simp add: Let_def upd)+

subsection \<open>Inodes, directories and files\<close>

lemma keep_balloc_loop [keep_intros]: "keeps I (balloc_loop d bs)"
  by (induction bs; unfold bzero_def balloc_loop.simps; (intro keep_intros; simp add: upd))

lemma keep_blocks [keep_intros]: "keeps I (balloc d)" "keeps I (bfree d b)" "keeps I (upd_inode i f)"
  unfolding balloc_def bfree_def upd_inode_def by (intro keep_intros; simp add: upd)+

lemma keep_iget [keep_intros]: "keeps I (iget d i)" "keeps I (idup i)" "keeps I (iupdate i)"
  unfolding iget_def idup_def iupdate_def by (intro keep_intros)+

lemma keep_ialloc_loop [keep_intros]: "keeps I (ialloc_loop d t is)"
  by (induction "is"; unfold ialloc_loop.simps; (intro keep_intros; simp add: upd))

lemma keep_trunc [keep_intros]: "keeps I (trunc_direct i ks)" "keeps I (trunc_indirect d b ks)"
proof -
  show "keeps I (trunc_direct i ks)" by (induction ks; unfold trunc_direct.simps; (intro keep_intros; simp add: upd))
  show "keeps I (trunc_indirect d b ks)" by (induction ks; unfold trunc_indirect.simps; (intro keep_intros; simp add: upd))
qed

lemma keep_inode [keep_intros]:
  "keeps I (ialloc d t)" "keeps I (ilock i)" "keeps I (iunlock i)" "keeps I (bmap i n)" "keeps I (itrunc i)"
  unfolding ialloc_def ilock_def iunlock_def bmap_def itrunc_def by (intro keep_intros)+

lemma keep_iput [keep_intros]: "keeps I (iput i)" "keeps I (iunlockput i)"
  unfolding iput_def iunlockput_def by (intro keep_intros)+

lemma keep_readi_loop [keep_intros]: "keeps I (readi_loop i off n)"
proof (induction i off n rule: readi_loop.induct)
  case (1 i off n)
  then show ?case by (subst readi_loop.simps) (auto intro!: keep_intros simp: Let_def)
qed

lemma keep_writei_loop [keep_intros]: "keeps I (writei_loop i src off n)"
proof (induction i src off n rule: writei_loop.induct)
  case (1 i src off n)
  then show ?case by (subst writei_loop.simps) (auto intro!: keep_intros simp: Let_def)
qed

lemma keep_io [keep_intros]: "keeps I (readi i off n)" "keeps I (writei i src off n)"
  unfolding readi_def writei_def consoleread_def consolewrite_def by (intro keep_intros)+

lemma keep_dir_loops [keep_intros]:
  "keeps I (dirlookup_loop d nm offs)" "keeps I (find_empty d e offs)" "keeps I (isdirempty_loop d offs)"
proof -
  show "keeps I (dirlookup_loop d nm offs)" by (induction offs; unfold dirlookup_loop.simps; (intro keep_intros; simp add: upd))
  show "keeps I (find_empty d e offs)" by (induction offs; unfold find_empty.simps; (intro keep_intros; simp add: upd))
  show "keeps I (isdirempty_loop d offs)" by (induction offs; unfold isdirempty_loop.simps; (intro keep_intros; simp add: upd))
qed

lemma keep_dir [keep_intros]: "keeps I (dirlookup d nm)" "keeps I (dirlink d nm i)" "keeps I (isdirempty d)"
  unfolding dirlookup_def dirlink_def isdirempty_def by (intro keep_intros)+

lemma keep_namex_loop [keep_intros]: "keeps I (namex_loop i path np nm)"
proof (induction i path np nm rule: namex_loop.induct)
  case (1 i path np nm)
  then show ?case
    by (subst namex_loop.simps) (auto intro!: keep_intros split: option.split)
qed

lemma keep_namei [keep_intros]: "keeps I (namei path)" "keeps I (nameiparent path)"
  unfolding namei_def nameiparent_def namex_def by (intro keep_intros)+

end

section \<open>The part of the user and the recorder\<close>

definition user_part ::
  "'z sysst_scheme \<Rightarrow> rrst \<times> mem \<times> nat \<times> nat \<times> u32 \<times> bool \<times> int" where
  "user_part s = (rr s, umem s, sz s, esp s, ticks s, pkilled s, mypid s)"

abbreviation frame :: "(rrst \<times> mem \<times> nat \<times> nat \<times> u32 \<times> bool \<times> int) \<Rightarrow> ('z sysst_scheme, 'a) kfun \<Rightarrow> bool" where
  "frame u m \<equiv> keeps (\<lambda>s. user_part s = u) m"

lemma frameD: "(\<And>u. frame u m) \<Longrightarrow> m s = Inr (x, s') \<Longrightarrow> user_part s' = user_part s"
  unfolding keeps_def by blast

lemma frame_md [keep_intros]: "(\<And>s. user_part (f s) = user_part s) \<Longrightarrow> frame u (md f)"
  by (simp add: keeps_def)

lemma user_part_upd [simp]:
  "user_part (s\<lparr>held := a\<rparr>) = user_part s" "user_part (s\<lparr>slocks := b\<rparr>) = user_part s"
  "user_part (s\<lparr>kfreelist := c\<rparr>) = user_part s" "user_part (s\<lparr>pages := d\<rparr>) = user_part s"
  "user_part (s\<lparr>pipes := e\<rparr>) = user_part s" "user_part (s\<lparr>input := f\<rparr>) = user_part s"
  "user_part (s\<lparr>cons_out := g\<rparr>) = user_part s" "user_part (s\<lparr>bufs := h\<rparr>) = user_part s"
  "user_part (s\<lparr>blru := i\<rparr>) = user_part s" "user_part (s\<lparr>idequeue := j\<rparr>) = user_part s"
  "user_part (s\<lparr>disk := k\<rparr>) = user_part s" "user_part (s\<lparr>dwrites := l\<rparr>) = user_part s"
  "user_part (s\<lparr>log_outstanding := m\<rparr>) = user_part s" "user_part (s\<lparr>log_committing := n\<rparr>) = user_part s"
  "user_part (s\<lparr>log_lh := o'\<rparr>) = user_part s" "user_part (s\<lparr>icache := p\<rparr>) = user_part s"
  "user_part (s\<lparr>cwd := q\<rparr>) = user_part s" "user_part (s\<lparr>ftable := r\<rparr>) = user_part s"
  "user_part (s\<lparr>ofile := t\<rparr>) = user_part s"
  by (simp_all add: user_part_def)

interpretation user: fs_frame "\<lambda>s. user_part s = u" for u
  by unfold_locales simp_all

lemma frame_file [keep_intros]:
  "frame u (upd_file f g)" "frame u filealloc" "frame u (filedup f)" "frame u (fileclose f)"
  "frame u (filestat f)" "frame u (advance f r)" "frame u (fdalloc f)" "frame u (clear_fd n)"
  unfolding upd_file_def filealloc_def filedup_def fileclose_def filestat_def advance_def fdalloc_def
    clear_fd_def
  by (intro keep_intros; simp)+

lemma frame_fileread [keep_intros]: "frame u (fileread f n)"
  unfolding fileread_def by (intro keep_intros)

lemma frame_filewrite_loop [keep_intros]: "frame u (filewrite_loop f ip d n)"
proof (induction f ip d n rule: filewrite_loop.induct)
  case (1 f ip d n)
  then show ?case by (subst filewrite_loop.simps) (auto intro!: keep_intros simp: Let_def)
qed

lemma frame_filewrite [keep_intros]: "frame u (filewrite f d n)"
  unfolding filewrite_def by (intro keep_intros)

section \<open>The work of the recorded calls\<close>

lemma frame_create [keep_intros]: "frame u (create path t a b)"
  unfolding create_def add_nlink_def by (intro keep_intros)

lemma frame_calls [keep_intros]:
  "frame u close_rec" "frame u link_rec" "frame u unlink_rec" "frame u open_rec" "frame u mkdir_rec"
  "frame u mknod_rec" "frame u chdir_rec"
  unfolding close_rec_def link_rec_def unlink_rec_def open_rec_def mkdir_rec_def mknod_rec_def
    chdir_rec_def add_nlink_def set_opened_def
  by (intro keep_intros; simp)+

lemma frame_my [keep_intros]:
  "frame u (my_open path m)" "frame u (my_read fd n)" "frame u (my_write fd d n)" "frame u (my_close fd)"
  unfolding my_open_def my_read_def my_write_def my_close_def set_opened_def by (intro keep_intros)+

end
