(* ===== verification/Session.thy ===== *)
theory Session
  imports Codec
begin

text \<open>
  A whole recording session on the recorder's state: the reset at the start of a session,
  the loops of \<open>sys_record_stop\<close> and \<open>sys_replay_start\<close> that write all records to the buffer
  and read them back, and what a replay of a recorded sequence of calls returns.  The
  system calls around them, with their file access, are in theory Handlers.
\<close>

section \<open>Definitions\<close>

text \<open>\<open>__strcpy\<close>: copies up to and including the terminating zero, at most \<open>maxlen\<close> bytes, and
  forces a zero at the end.  \<open>src\<close> is the string without its zero.\<close>

definition strcpy_name :: "bytes \<Rightarrow> bytes \<Rightarrow> nat \<Rightarrow> bytes" where
  "strcpy_name dest src maxlen = (patch dest 0 (take maxlen (src @ [0])))[maxlen - 1 := 0]"

definition reset_session :: "int \<Rightarrow> (rrst, unit) kfun" where
  "reset_session pid = md (\<lambda>s. s\<lparr>recorded_scrs := replicate MAX_SCRS (createSCR UNITIALIZED_SCR s),
     scrs_idx := 0, rr_pid := pid, buffer_pos := 0\<rparr>)"

text \<open>The transfer of the number of records, \<open>memmove_and_increment(buffer, &scrs_idx, 4)\<close>.\<close>

definition xfer_idx :: "(rrst, unit) kfun" where
  "xfer_idx = bnd (rd scrs_idx) (\<lambda>i.
     bnd (memmove_and_increment 0 (put32 (word_of_int i)) 4) (\<lambda>b.
     md (\<lambda>s. s\<lparr>scrs_idx := sint (get32 b)\<rparr>)))"

text \<open>One loop over the records serves both directions; the status \<open>0\<close> ends it early, \<open>-1\<close> is a
  failure.\<close>

primrec transform_loop :: "int \<Rightarrow> int list \<Rightarrow> (rrst, int) kfun" where
  "transform_loop fileSize [] = ret 1"
| "transform_loop fileSize (i # is) =
     bnd (get_scr i) (\<lambda>r.
     bnd (bidirectionalTransform r fileSize) (\<lambda>(st, r').
     thn (set_scr i r')
     (if st = -1 then ret (-1) else if st = 0 then ret 0 else transform_loop fileSize is)))"

definition record_pack :: "(rrst, int) kfun" where
  "record_pack =
     thn (md (\<lambda>s. s\<lparr>buffer_pos := 0\<rparr>))
    (thn xfer_idx
    (bnd (rd scrs_idx) (\<lambda>n.
     bnd (transform_loop (-1) [0..n - 1]) (\<lambda>st.
     if st = -1 then thn RecRepErr (ret (-1))
     else thn (md (\<lambda>s. s\<lparr>record_syscalls := 0\<rparr>)) (ret 0)))))"

definition replay_unpack :: "int \<Rightarrow> (rrst, int) kfun" where
  "replay_unpack fileSize =
     thn xfer_idx
    (bnd (rd scrs_idx) (\<lambda>n.
     bnd (transform_loop fileSize [0..n - 1]) (\<lambda>st.
     if st = -1 then ret (-1)
     else thn (md (\<lambda>s. s\<lparr>scrs_idx := 0\<rparr>)) (ret 0))))"

section \<open>The form of a recording file\<close>

type_synonym acall = "byte \<times> aarg list"

definition enc_calls :: "acall list \<Rightarrow> bytes" where
  "enc_calls cs = concat (map (\<lambda>(n, as). enc_scr n as) cs)"

definition enc_session :: "acall list \<Rightarrow> bytes" where
  "enc_session cs = put32 (word_of_nat (length cs)) @ enc_calls cs"

definition acall_ok :: "acall \<Rightarrow> bool" where
  "acall_ok = (\<lambda>(n, as). n \<noteq> 0 \<and> length as \<le> MAX_ARGC \<and> list_all aarg_ok as)"

text \<open>The records \<open>rs\<close> from position \<open>k\<close> on say \<open>cs\<close>.\<close>

definition holds_calls :: "SCR list \<Rightarrow> nat \<Rightarrow> acall list \<Rightarrow> bool" where
  "holds_calls rs k cs \<longleftrightarrow> (\<forall>i < length cs. scr_is (rs ! (k + i)) (fst (cs ! i)) (snd (cs ! i)))"

lemma enc_calls_simps [simp]:
  "enc_calls [] = []" "enc_calls ((n, as) # cs) = enc_scr n as @ enc_calls cs"
  by (simp_all add: enc_calls_def)

lemma holds_calls_Cons:
  "holds_calls rs k ((n, as) # cs) \<longleftrightarrow> scr_is (rs ! k) n as \<and> holds_calls rs (Suc k) cs"
  by (auto simp: holds_calls_def less_Suc_eq_0_disj)

lemma holds_calls_cong:
  "holds_calls rs k cs \<Longrightarrow> (\<And>i. i < length cs \<Longrightarrow> rs' ! (k + i) = rs ! (k + i)) \<Longrightarrow> holds_calls rs' k cs"
  by (simp add: holds_calls_def)

lemma upto_Suc: "[int k..int (k + Suc n) - 1] = int k # [int (Suc k)..int (Suc k + n) - 1]"
  by (simp add: upto_rec1 add.commute)

section \<open>Writing all records\<close>

lemma get_scr_in [simp]: "k < MAX_SCRS \<Longrightarrow> get_scr (int k) s = Inr (recorded_scrs s ! k, s)"
  by (simp add: get_scr_def)

lemma set_scr_in [simp]:
  "k < MAX_SCRS \<Longrightarrow> set_scr (int k) r s = Inr ((), s\<lparr>recorded_scrs := (recorded_scrs s)[k := r]\<rparr>)"
  by (simp add: set_scr_def)

lemma emit_fields [simp]:
  "recorded_scrs (emit bs s) = recorded_scrs s" "scrs_idx (emit bs s) = scrs_idx s"
  "killed (emit bs s) = killed s" "rr_pid (emit bs s) = rr_pid s" "junk (emit bs s) = junk s"
  by (simp_all add: emit_def)

lemma transform_loop_record:
  assumes "holds_calls (recorded_scrs s) k cs" "\<forall>c \<in> set cs. fst c \<noteq> 0" "k + length cs \<le> MAX_SCRS"
    "can_emit s (length (enc_calls cs))"
  shows "transform_loop fileSize [int k..int (k + length cs) - 1] s = Inr (1, emit (enc_calls cs) s)"
  using assms
proof (induction cs arbitrary: k s)
  case (Cons c cs)
  obtain n as where c: "c = (n, as)" by (cases c)
  let ?s = "emit (enc_scr n as) s"
  have room: "can_emit s (length (enc_scr n as) + length (enc_calls cs))" using Cons.prems(4) c by simp
  have t: "bidirectionalTransform (recorded_scrs s ! k) fileSize s
      = Inr ((1, recorded_scrs s ! k), ?s)"
    using Cons.prems(1,2) c can_emit_mono [OF room]
    by (intro bidirectionalTransform_record) (auto simp: holds_calls_Cons)
  have eq: "?s\<lparr>recorded_scrs := recorded_scrs s\<rparr> = ?s"
    by (simp add: emit_def)
  have "transform_loop fileSize [int (Suc k)..int (Suc k + length cs) - 1] ?s
      = Inr (1, emit (enc_calls cs) ?s)"
    using Cons.prems c room by (intro Cons.IH) (auto simp: holds_calls_Cons)
  moreover have "emit (enc_calls cs) ?s = emit (enc_calls (c # cs)) s"
    using emit_emit [OF room] c by simp
  ultimately show ?case
    using Cons.prems(3) t unfolding length_Cons upto_Suc by (simp add: eq)
qed simp

lemma xfer_idx_record:
  assumes "can_emit s 4" "buffer_pos s = 0" "scrs_idx s = int n" "n < 2 ^ 31"
  shows "xfer_idx s = Inr ((), emit (put32 (word_of_nat n)) s)"
proof -
  have "xfer (put32 (word_of_nat n)) 4 s = Inr (put32 (word_of_nat n), emit (put32 (word_of_nat n)) s)"
    using assms(1) by (intro xfer_emit) simp_all
  then have "memmove_and_increment 0 (put32 (word_of_nat n)) 4 s
      = Inr (put32 (word_of_nat n), emit (put32 (word_of_nat n)) s)"
    using assms(2) by (simp add: xfer_def)
  moreover have "scrs_idx (emit (put32 (word_of_nat n)) s) = int n" using assms(3) by (simp add: emit_def)
  ultimately show ?thesis
    using assms(3,4) by (simp add: xfer_idx_def sint_small_nat)
qed

text \<open>After \<open>record_pack\<close> the buffer starts with the encoded session.\<close>

lemma record_pack_spec:
  assumes "rr_ok s" "record_syscalls s = 1" "replay_syscalls s \<noteq> 1"
    and "scrs_idx s = int (length cs)" "length cs \<le> MAX_SCRS"
    and "holds_calls (recorded_scrs s) 0 cs" "\<forall>c \<in> set cs. fst c \<noteq> 0"
    and "length (enc_session cs) \<le> MAX_FILE_SIZE"
  shows "\<exists>s'. record_pack s = Inr (0, s') \<and> slice 0 (length (enc_session cs)) (buffer s') = enc_session cs \<and>
     buffer_pos s' = int (length (enc_session cs)) \<and> length (buffer s') = MAX_FILE_SIZE \<and>
     record_syscalls s' = 0 \<and> replay_syscalls s' = replay_syscalls s \<and> killed s' = killed s"
proof -
  let ?n = "length cs" let ?s0 = "s\<lparr>buffer_pos := 0\<rparr>"
  let ?s1 = "emit (put32 (word_of_nat ?n)) ?s0" and ?s2 = "emit (enc_session cs) ?s0"
  have c0: "can_emit ?s0 (4 + length (enc_calls cs))"
    using assms by (simp add: can_emit_def rr_ok_def enc_session_def)
  have r1: "xfer_idx ?s0 = Inr ((), ?s1)"
    using assms(4,5) can_emit_mono [OF c0] by (intro xfer_idx_record) simp_all
  have "can_emit ?s1 (length (enc_calls cs))" using c0 by (intro can_emit_emit) simp
  then have "transform_loop (-1) [int 0..int (0 + ?n) - 1] ?s1 = Inr (1, emit (enc_calls cs) ?s1)"
    using assms(5-7) by (intro transform_loop_record) (simp_all add: emit_def)
  moreover have "emit (enc_calls cs) ?s1 = ?s2"
    using emit_emit [of ?s0 "put32 (word_of_nat ?n)"] c0 by (simp add: enc_session_def)
  ultimately have "record_pack s = Inr (0, ?s2\<lparr>record_syscalls := 0\<rparr>)"
    using r1 assms(4) by (simp add: record_pack_def emit_def)
  moreover have "slice 0 (length (enc_session cs)) (buffer ?s2) = enc_session cs"
    using assms(1,8) by (simp add: emit_def rr_ok_def)
  ultimately show ?thesis using assms(1,8) by (simp add: emit_def rr_ok_def)
qed

section \<open>Reading all records\<close>

lemma consume_scrs:
  "(consume j s)\<lparr>recorded_scrs := rs\<rparr> = consume j (s\<lparr>recorded_scrs := rs\<rparr>)"
  "recorded_scrs (consume j s) = recorded_scrs s"
  by (cases s; simp add: consume_def)+

lemma transform_loop_replay:
  assumes "length (recorded_scrs s) = MAX_SCRS" "\<forall>r \<in> set (recorded_scrs s). scr_shape r"
    and "ahead s (enc_calls cs)" "\<forall>c \<in> set cs. acall_ok c" "k + length cs \<le> MAX_SCRS"
    and "buffer_pos s + int (length (enc_calls cs)) \<le> fileSize"
  shows "\<exists>rs. transform_loop fileSize [int k..int (k + length cs) - 1] s
       = Inr (1, consume (length (enc_calls cs)) (s\<lparr>recorded_scrs := rs\<rparr>)) \<and>
     length rs = MAX_SCRS \<and> (\<forall>r \<in> set rs. scr_shape r) \<and> holds_calls rs k cs \<and>
     (\<forall>i. i < k \<or> k + length cs \<le> i \<longrightarrow> rs ! i = recorded_scrs s ! i)"
  using assms
proof (induction cs arbitrary: k s)
  case Nil
  then show ?case by (intro exI [of _ "recorded_scrs s"]) (simp add: holds_calls_def)
next
  case (Cons c cs)
  obtain n as where c: "c = (n, as)" by (cases c)
  let ?r = "recorded_scrs s ! k" and ?m = "length (enc_scr n as)"
  have k: "k < MAX_SCRS" using Cons.prems(5) by simp
  have a: "ahead s (enc_scr n as)" "ahead (consume ?m s) (enc_calls cs)"
    using Cons.prems(3) c by (simp_all add: ahead_append)
  have "scr_shape ?r" using Cons.prems(1,2) k by simp
  then obtain r' where t: "bidirectionalTransform ?r fileSize s = Inr ((1, r'), consume ?m s)"
    and r': "scr_is r' n as"
    using bidirectionalTransform_replay [of ?r n as s fileSize] a(1) Cons.prems(4,6) c
    by (auto simp: acall_ok_def)
  let ?s = "consume ?m (s\<lparr>recorded_scrs := (recorded_scrs s)[k := r']\<rparr>)"
  have "\<forall>r \<in> set (recorded_scrs ?s). scr_shape r"
    using Cons.prems(2) r' set_list_update_subset [of "recorded_scrs s" scr_shape r' k]
    by (simp add: scr_is_def consume_def)
  moreover have "ahead ?s (enc_calls cs)" using a(2) by (simp add: ahead_def consume_def)
  ultimately obtain rs where rs: "transform_loop fileSize [int (Suc k)..int (Suc k + length cs) - 1] ?s
       = Inr (1, consume (length (enc_calls cs)) (?s\<lparr>recorded_scrs := rs\<rparr>))"
    "length rs = MAX_SCRS" "\<forall>r \<in> set rs. scr_shape r" "holds_calls rs (Suc k) cs"
    "\<forall>i. i < Suc k \<or> Suc k + length cs \<le> i \<longrightarrow> rs ! i = recorded_scrs ?s ! i"
    using Cons.IH [of ?s "Suc k"] Cons.prems c by (auto simp: consume_def)
  have at_k: "rs ! k = r'" using rs(5) k Cons.prems(1) by (simp add: consume_def)
  have "transform_loop fileSize [int k..int (k + length (c # cs)) - 1] s
      = Inr (1, consume (length (enc_calls (c # cs))) (s\<lparr>recorded_scrs := rs\<rparr>))"
    unfolding length_Cons upto_Suc using k t rs(1) c by (simp add: consume_scrs)
  moreover have "holds_calls rs k (c # cs)" using rs(4) at_k r' c by (simp add: holds_calls_Cons)
  moreover have "\<forall>i. i < k \<or> k + length (c # cs) \<le> i \<longrightarrow> rs ! i = recorded_scrs s ! i"
    using rs(5) by (auto simp: consume_def)
  ultimately show ?case using rs(2,3) by blast
qed

lemma xfer_idx_replay:
  assumes "ahead s (put32 (word_of_nat n))" "buffer_pos s = 0" "n < 2 ^ 31"
  shows "xfer_idx s = Inr ((), (consume 4 s)\<lparr>scrs_idx := int n\<rparr>)"
proof -
  have "xfer (put32 (word_of_int (scrs_idx s))) 4 s = Inr (put32 (word_of_nat n), consume 4 s)"
    using xfer_ahead [OF assms(1), of "put32 (word_of_int (scrs_idx s))" 4] by simp
  then have "memmove_and_increment 0 (put32 (word_of_int (scrs_idx s))) 4 s
      = Inr (put32 (word_of_nat n), consume 4 s)"
    using assms(2) by (simp add: xfer_def)
  then show ?thesis using assms(3) by (simp add: xfer_idx_def sint_small_nat)
qed

lemma replay_unpack_spec:
  assumes "rr_ok s" "replay_syscalls s = 1" "record_syscalls s \<noteq> 1" "buffer_pos s = 0"
    and "length cs \<le> MAX_SCRS" "\<forall>c \<in> set cs. acall_ok c"
    and "length (enc_session cs) \<le> MAX_FILE_SIZE" "int (length (enc_session cs)) \<le> fileSize"
    and "slice 0 (length (enc_session cs)) (buffer s) = enc_session cs"
  shows "\<exists>s'. replay_unpack fileSize s = Inr (0, s') \<and> rr_ok s' \<and> holds_calls (recorded_scrs s') 0 cs \<and>
     scrs_idx s' = 0 \<and> replay_syscalls s' = 1 \<and> record_syscalls s' = record_syscalls s \<and>
     killed s' = killed s \<and> rr_pid s' = rr_pid s \<and> (\<forall>i \<ge> length cs. recorded_scrs s' ! i = recorded_scrs s ! i)"
proof -
  let ?n = "length cs"
  have "ahead s (enc_session cs)" using assms by (simp add: ahead_def rr_ok_def)
  then have a: "ahead s (put32 (word_of_nat ?n))" "ahead (consume 4 s) (enc_calls cs)"
    by (simp_all add: enc_session_def ahead_append)
  let ?s1 = "(consume 4 s)\<lparr>scrs_idx := int ?n\<rparr>"
  have r1: "xfer_idx s = Inr ((), ?s1)" using a(1) assms(4,5) by (intro xfer_idx_replay) simp_all
  have a1: "ahead ?s1 (enc_calls cs)" using a(2) by (simp add: ahead_def)
  obtain rs where rs: "transform_loop fileSize [int 0..int (0 + ?n) - 1] ?s1
      = Inr (1, consume (length (enc_calls cs)) (?s1\<lparr>recorded_scrs := rs\<rparr>))"
    "length rs = MAX_SCRS" "\<forall>r \<in> set rs. scr_shape r" "holds_calls rs 0 cs"
    "\<forall>i. i < 0 \<or> 0 + ?n \<le> i \<longrightarrow> rs ! i = recorded_scrs ?s1 ! i"
    using transform_loop_replay [of ?s1 cs 0 fileSize] a1 assms
    by (auto simp: rr_ok_def consume_def enc_session_def)
  have "replay_unpack fileSize s
      = Inr (0, (consume (length (enc_calls cs)) (?s1\<lparr>recorded_scrs := rs\<rparr>))\<lparr>scrs_idx := 0\<rparr>)"
    using r1 rs(1) by (simp add: replay_unpack_def)
  then show ?thesis using rs assms(1,2) by (simp add: rr_ok_def consume_def)
qed

end
