(* ===== verification/Replay.thy ===== *)
theory Replay
  imports Session
begin

text \<open>
  Replaying: what \<open>compareSCRS\<close> decides, how the handlers build and store a record, and that
  a recorded sequence of calls, packed, unpacked and replayed, yields the recorded outputs.
\<close>

section \<open>Definitions\<close>

text \<open>The recorder's state after \<open>RecRepErr\<close>.\<close>

definition rr_failed :: "rrst \<Rightarrow> rrst" where
  "rr_failed s = s\<lparr>killed := True, replay_syscalls := -1, record_syscalls := -1\<rparr>"

text \<open>Inputs are integers or byte strings; a call gives them in the recorded order.\<close>

fun same_kind :: "aarg \<Rightarrow> aarg \<Rightarrow> bool" where
  "same_kind (AInt _) (AInt _) = True"
| "same_kind (ABytes _) (ABytes _) = True"
| "same_kind _ _ = False"

text \<open>Adding an argument of each kind, as the handlers do it.\<close>

fun add_arg :: "aarg \<Rightarrow> SCR \<Rightarrow> (rrst, SCR) kfun" where
  "add_arg (AInt v) scr = addInt scr v"
| "add_arg (AUInt v) scr = addUInt scr v"
| "add_arg (ABytes d) scr = addStr scr d"
| "add_arg (AStat t) scr = addStat scr t"

primrec add_args :: "aarg list \<Rightarrow> SCR \<Rightarrow> (rrst, SCR) kfun" where
  "add_args [] scr = ret scr"
| "add_args (a # as) scr = bnd (add_arg a scr) (add_args as)"

text \<open>The value a handler returns: \<open>args[get1stOutputPos(syscall)].val.num\<close>.\<close>

definition out_num :: "SCR \<Rightarrow> ('s, i32) kfun" where
  "out_num r = bnd (get_arg r (get1stOutputPos (uint (scr_syscall r)))) (\<lambda>a. ret (val_num (arg_val a)))"

text \<open>What the handlers do with the recorder for one call: \<open>as\<close> are the inputs followed by the
  outputs while recording, \<open>ins\<close> the inputs only while replaying.\<close>

definition record_call :: "byte \<Rightarrow> aarg list \<Rightarrow> (rrst, i32) kfun" where
  "record_call n as = bnd (rd (createSCR (uint n))) (\<lambda>scr.
     bnd (add_args as scr) (\<lambda>scr. thn (addSRC scr) (out_num scr)))"

definition replay_call :: "byte \<Rightarrow> aarg list \<Rightarrow> (rrst, SCR) kfun" where
  "replay_call n ins = bnd (rd (createSCR (uint n))) (\<lambda>scr.
     bnd (add_args ins scr) compareSCRS)"

primrec record_calls :: "acall list \<Rightarrow> (rrst, i32 list) kfun" where
  "record_calls [] = ret []"
| "record_calls (c # cs) =
     bnd (record_call (fst c) (snd c)) (\<lambda>v. bnd (record_calls cs) (\<lambda>vs. ret (v # vs)))"

primrec replay_calls :: "acall list \<Rightarrow> (rrst, SCR list) kfun" where
  "replay_calls [] = ret []"
| "replay_calls (c # cs) =
     bnd (replay_call (fst c) (snd c)) (\<lambda>r. bnd (replay_calls cs) (\<lambda>rs. ret (r # rs)))"

definition inputs :: "acall \<Rightarrow> aarg list" where
  "inputs c = take (nat (get1stOutputPos (uint (fst c)))) (snd c)"

fun num_of :: "aarg \<Rightarrow> i32 option" where
  "num_of (AInt v) = Some v"
| "num_of (AUInt v) = Some v"
| "num_of _ = None"

definition first_output :: "acall \<Rightarrow> i32" where
  "first_output c = the (num_of (snd c ! nat (get1stOutputPos (uint (fst c)))))"

text \<open>A call of a recorded system call: its inputs are comparable and a number, the
  return value, follows them.\<close>

definition replayable :: "acall \<Rightarrow> bool" where
  "replayable c \<longleftrightarrow> acall_ok c \<and> 0 \<le> get1stOutputPos (uint (fst c)) \<and>
     nat (get1stOutputPos (uint (fst c))) < length (snd c) \<and>
     num_of (snd c ! nat (get1stOutputPos (uint (fst c)))) \<noteq> None \<and>
     list_all (\<lambda>a. same_kind a a) (inputs c)"

section \<open>Building a record\<close>

lemma RecRepErr_apply [simp]: "RecRepErr s = Inr ((), rr_failed s)"
  by (simp add: RecRepErr_def rr_failed_def)

lemma add_arg_is:
  assumes "scr_is r n as" "length as < MAX_ARGC" "length (junk s) = VAL_SIZE" "aarg_ok a"
  shows "\<exists>r'. add_arg a r s = Inr (r', s) \<and> scr_is r' n (as @ [a])"
  using assms by (cases a) (auto intro: addInt_is addUInt_is addStr_is addStat_is)

lemma add_args_is:
  assumes "scr_is r n as" "length (as @ bs) \<le> MAX_ARGC" "length (junk s) = VAL_SIZE"
    "list_all aarg_ok bs"
  shows "\<exists>r'. add_args bs r s = Inr (r', s) \<and> scr_is r' n (as @ bs)"
  using assms
proof (induction bs arbitrary: r as)
  case (Cons b bs)
  obtain r1 where r1: "add_arg b r s = Inr (r1, s)" "scr_is r1 n (as @ [b])"
    using add_arg_is [of r n as s b] Cons.prems by auto
  show ?case using Cons.IH [OF r1(2)] Cons.prems r1(1) by auto
qed auto

lemma new_scr:
  assumes "rr_ok s" "length as \<le> MAX_ARGC" "list_all aarg_ok as"
  shows "\<exists>r. add_args as (createSCR (uint n) s) s = Inr (r, s) \<and> scr_is r n as"
proof -
  have "scr_is (createSCR (uint n) s) n []"
    using scr_is_createSCR [of s "uint n"] assms(1) by (simp add: rr_ok_def)
  from add_args_is [OF this, of as s] show ?thesis using assms by (simp add: rr_ok_def)
qed

lemma scr_is_nth:
  assumes "scr_is r n as" "i < length as"
  shows "arg_view (scr_args r ! i) = Some (as ! i)" "arg_ok (scr_args r ! i)"
proof -
  have len: "length (scr_args r) = MAX_ARGC" "unat (scr_argc r) = length as" "length as \<le> MAX_ARGC"
    using assms(1) by (simp_all add: scr_is_def scr_shape_def)
  have "map arg_view (take (length as) (scr_args r)) ! i = map Some as ! i"
    using assms(1) len by (simp add: scr_is_def scr_views_def)
  then show "arg_view (scr_args r ! i) = Some (as ! i)" using assms(2) len by simp
  have "\<forall>a \<in> set (scr_args r). arg_ok a" using assms(1) by (simp add: scr_is_def scr_shape_def)
  then show "arg_ok (scr_args r ! i)" using assms(2) len by simp
qed

lemma get_arg_nth [simp]: "i < MAX_ARGC \<Longrightarrow> get_arg r (int i) s = Inr (scr_args r ! i, s)"
  by (simp add: get_arg_def)

section \<open>Comparing\<close>

lemma same_data_apply:
  "\<forall>j \<in> set js. j < MAX_RAW_SIZE \<Longrightarrow> same_data x y js s = Inr (\<forall>j \<in> set js. x ! j = y ! j, s)"
  by (induction js) auto

lemma take_eq_iff_nth:
  "k \<le> length x \<Longrightarrow> k \<le> length y \<Longrightarrow> take k x = take k y \<longleftrightarrow> (\<forall>j < k. x ! j = y ! j)"
  by (auto simp: list_eq_iff_nth_eq)

lemma compare_arg_spec:
  assumes "arg_view r = Some x" "arg_ok r" "arg_view a = Some y" "arg_ok a" "same_kind x y"
  shows "compare_arg r a s = Inr (x = y, if x = y then s else rr_failed s)"
proof (cases x)
  case (AInt v)
  then obtain w where y: "y = AInt w" using assms(5) by (cases y) auto
  then show ?thesis
    using assms(1,3) AInt arg_view_type [OF assms(1)] arg_view_type [OF assms(3)]
    by (auto simp: compare_arg_def arg_view_def)
next
  case (ABytes d)
  then obtain e where y: "y = ABytes e" using assms(5) by (cases y) auto
  note r = raw_view_sizes [OF assms(1) [unfolded ABytes] assms(2)]
  note a = raw_view_sizes [OF assms(3) [unfolded y] assms(4)]
  have t: "arg_type r = BYTE_TYPE" using arg_view_type [OF assms(1)] ABytes by simp
  have len: "length (raw_data (arg_val r)) = MAX_RAW_SIZE" "length (raw_data (arg_val a)) = MAX_RAW_SIZE"
    using assms(2,4) by (simp_all add: raw_data_def arg_ok_def)
  show ?thesis
  proof (cases "length d = length e")
    case True
    have "same_data (raw_data (arg_val a)) (raw_data (arg_val r)) [0..<length e] s
        = Inr (\<forall>j < length e. raw_data (arg_val a) ! j = raw_data (arg_val r) ! j, s)"
      using a(3) by (subst same_data_apply) auto
    moreover have "(\<forall>j < length e. raw_data (arg_val a) ! j = raw_data (arg_val r) ! j) \<longleftrightarrow> d = e"
      using r(2) a(2,3) len True take_eq_iff_nth [of "length e" "raw_data (arg_val a)" "raw_data (arg_val r)"]
      by auto
    ultimately show ?thesis using t r(1) a(1) True ABytes y by (simp add: compare_arg_def)
  next
    case False
    then show ?thesis using t r(1) a(1) ABytes y by (auto simp: compare_arg_def)
  qed
qed (use assms in auto)

lemma compare_args_spec:
  assumes "scr_is r n as" "scr_is c m bs" "k + j \<le> length as" "k + j \<le> length bs"
    "\<forall>i < k + j. same_kind (as ! i) (bs ! i)"
  shows "compare_args r c [int k..int (k + j) - 1] s =
     Inr (\<forall>i. k \<le> i \<and> i < k + j \<longrightarrow> as ! i = bs ! i,
          if \<forall>i. k \<le> i \<and> i < k + j \<longrightarrow> as ! i = bs ! i then s else rr_failed s)"
  using assms
proof (induction j arbitrary: k)
  case (Suc j)
  have len: "length as \<le> MAX_ARGC" using assms(1) by (simp add: scr_is_def)
  have k: "k < length as" "k < length bs" "k < MAX_ARGC" using Suc.prems(3,4) len by simp_all
  have c: "compare_arg (scr_args r ! k) (scr_args c ! k) s
      = Inr (as ! k = bs ! k, if as ! k = bs ! k then s else rr_failed s)"
    using scr_is_nth [OF assms(1) k(1)] scr_is_nth [OF assms(2) k(2)] Suc.prems(5)
    by (intro compare_arg_spec) auto
  have all: "(\<forall>i. k \<le> i \<and> i < k + Suc j \<longrightarrow> as ! i = bs ! i)
      \<longleftrightarrow> as ! k = bs ! k \<and> (\<forall>i. Suc k \<le> i \<and> i < Suc k + j \<longrightarrow> as ! i = bs ! i)"
    by (metis Suc_leI add_Suc add_Suc_right le_add1 le_eq_less_or_eq less_add_Suc1 Suc_leD)
  have ih: "compare_args r c [int (Suc k)..int (Suc k + j) - 1] s =
     Inr (\<forall>i. Suc k \<le> i \<and> i < Suc k + j \<longrightarrow> as ! i = bs ! i,
          if \<forall>i. Suc k \<le> i \<and> i < Suc k + j \<longrightarrow> as ! i = bs ! i then s else rr_failed s)"
    using Suc.prems by (intro Suc.IH) auto
  show ?case unfolding upto_Suc all using k c ih by (cases "as ! k = bs ! k") simp_all
qed auto

lemma compareSCRS_spec:
  assumes "scrs_idx s = int i" "i < MAX_SCRS" "scr_is (recorded_scrs s ! i) n as" "n \<noteq> 0"
    "scr_is c m bs" "get1stOutputPos (uint n) = int (length bs)" "length bs \<le> length as"
    "list_all2 same_kind (take (length bs) as) bs"
  shows "compareSCRS c s = Inr (recorded_scrs s ! i,
     let s' = s\<lparr>scrs_idx := scrs_idx s + 1\<rparr>
     in if m = n \<and> take (length bs) as = bs then s' else rr_failed s')"
proof -
  let ?s = "s\<lparr>scrs_idx := scrs_idx s + 1\<rparr>" and ?r = "recorded_scrs s ! i" and ?p = "length bs"
  have r: "scr_syscall ?r = n" and c: "scr_syscall c = m" using assms(3,5) by (simp_all add: scr_is_def)
  have "\<forall>j < ?p. same_kind (as ! j) (bs ! j)"
    using assms(7,8) by (auto simp: list_all2_conv_all_nth)
  then have "compare_args ?r c [int 0..int (0 + ?p) - 1] ?s
      = Inr (\<forall>j. 0 \<le> j \<and> j < 0 + ?p \<longrightarrow> as ! j = bs ! j,
          if \<forall>j. 0 \<le> j \<and> j < 0 + ?p \<longrightarrow> as ! j = bs ! j then ?s else rr_failed ?s)"
    using assms(3,5,7) by (intro compare_args_spec) auto
  moreover have "(\<forall>j < ?p. as ! j = bs ! j) \<longleftrightarrow> take ?p as = bs"
    using take_eq_iff_nth [of ?p as bs] assms(7) by simp
  ultimately have ca: "compare_args ?r c [0..int ?p - 1] ?s
      = Inr (take ?p as = bs, if take ?p as = bs then ?s else rr_failed ?s)"
    by simp
  have "uint n \<noteq> 0" using assms(4) by (metis of_int_0 word_of_int_uint)
  then show ?thesis
    using assms(1,2,6) r c ca by (cases "m = n") (simp_all add: compareSCRS_def Let_def)
qed

section \<open>Recording and replaying a sequence of calls\<close>

lemma val_num_view: "arg_view a = Some x \<Longrightarrow> num_of x = Some v \<Longrightarrow> val_num (arg_val a) = v"
  by (cases x) (auto simp: arg_view_def Let_def val_num_def val_unum_def split: if_splits)

lemma out_num_is:
  assumes "scr_is r n as" "get1stOutputPos (uint n) = int p" "p < length as" "num_of (as ! p) = Some v"
  shows "out_num r s = Inr (v, s)"
proof -
  have r: "scr_syscall r = n" "p < MAX_ARGC" using assms(1,3) by (simp_all add: scr_is_def)
  have "arg_view (scr_args r ! p) = Some (as ! p)" by (rule scr_is_nth [OF assms(1,3)])
  then have "val_num (arg_val (scr_args r ! p)) = v" using assms(4) by (rule val_num_view)
  then show ?thesis using r assms(2) by (simp add: out_num_def)
qed

lemma rr_ok_store:
  assumes "rr_ok s" "scr_shape r" "0 \<le> j"
  shows "rr_ok (s\<lparr>recorded_scrs := (recorded_scrs s)[i := r], scrs_idx := j\<rparr>)"
  using assms set_list_update_subset [of "recorded_scrs s" scr_shape r i] by (simp add: rr_ok_def)

lemma record_call_spec:
  assumes "rr_ok s" "scrs_idx s = int i" "i < MAX_SCRS" "replayable (n, as)"
  shows "\<exists>r. record_call n as s = Inr (first_output (n, as),
       s\<lparr>recorded_scrs := (recorded_scrs s)[i := r], scrs_idx := int (Suc i)\<rparr>) \<and> scr_is r n as"
proof -
  obtain r where r: "add_args as (createSCR (uint n) s) s = Inr (r, s)" "scr_is r n as"
    using new_scr [of s as n] assms(1,4) by (auto simp: replayable_def acall_ok_def)
  let ?s = "s\<lparr>recorded_scrs := (recorded_scrs s)[i := r], scrs_idx := int (Suc i)\<rparr>"
  have a: "addSRC r s = Inr ((), ?s)" using assms(2,3) by (simp add: addSRC_def add.commute)
  let ?p = "nat (get1stOutputPos (uint n))"
  obtain v where v: "num_of (as ! ?p) = Some v" "first_output (n, as) = v"
    using assms(4) by (auto simp: replayable_def first_output_def)
  have "out_num r ?s = Inr (v, ?s)"
    using assms(4) v(1) by (intro out_num_is [OF r(2), of ?p]) (auto simp: replayable_def)
  then have "record_call n as s = Inr (v, ?s)" using r(1) a by (simp add: record_call_def)
  then show ?thesis using r(2) v(2) by blast
qed

lemma holds_calls_snoc:
  assumes "holds_calls rs 0 ds" "scr_is r n as" "length ds < length rs"
  shows "holds_calls (rs[length ds := r]) 0 (ds @ [(n, as)])"
  using assms by (auto simp: holds_calls_def nth_append less_Suc_eq)

lemma record_calls_spec:
  assumes "rr_ok s" "scrs_idx s = int (length ds)" "length ds + length cs \<le> MAX_SCRS"
    "holds_calls (recorded_scrs s) 0 ds" "\<forall>c \<in> set cs. replayable c"
  shows "\<exists>rs. record_calls cs s = Inr (map first_output cs,
       s\<lparr>recorded_scrs := rs, scrs_idx := int (length ds + length cs)\<rparr>) \<and>
     length rs = MAX_SCRS \<and> (\<forall>r \<in> set rs. scr_shape r) \<and> holds_calls rs 0 (ds @ cs)"
  using assms
proof (induction cs arbitrary: s ds)
  case Nil
  then show ?case by (intro exI [of _ "recorded_scrs s"]) (simp add: rr_ok_def)
next
  case (Cons c cs)
  obtain n as where c: "c = (n, as)" by (cases c)
  let ?d = "length ds"
  obtain r where r: "record_call n as s = Inr (first_output c,
       s\<lparr>recorded_scrs := (recorded_scrs s)[?d := r], scrs_idx := int (Suc ?d)\<rparr>)" "scr_is r n as"
    using record_call_spec [of s ?d n as] Cons.prems c by auto
  let ?s = "s\<lparr>recorded_scrs := (recorded_scrs s)[?d := r], scrs_idx := int (Suc ?d)\<rparr>"
  have ok: "rr_ok ?s" using r(2) Cons.prems(1) by (intro rr_ok_store) (simp_all add: scr_is_def)
  have "?d < length (recorded_scrs s)" using Cons.prems(1,3) by (simp add: rr_ok_def)
  then have h: "holds_calls (recorded_scrs ?s) 0 (ds @ [c])"
    using holds_calls_snoc [OF Cons.prems(4) r(2)] c by simp
  obtain rs where rs: "record_calls cs ?s = Inr (map first_output cs,
       ?s\<lparr>recorded_scrs := rs, scrs_idx := int (length (ds @ [c]) + length cs)\<rparr>)"
    "length rs = MAX_SCRS" "\<forall>r \<in> set rs. scr_shape r" "holds_calls rs 0 ((ds @ [c]) @ cs)"
    using Cons.IH [OF ok _ _ h] Cons.prems by auto
  then show ?case using r(1) c by (intro exI [of _ rs]) simp
qed

lemma replay_call_spec:
  assumes "rr_ok s" "scrs_idx s = int i" "i < MAX_SCRS" "scr_is (recorded_scrs s ! i) n as"
    "replayable (n, as)"
  shows "replay_call n (inputs (n, as)) s = Inr (recorded_scrs s ! i, s\<lparr>scrs_idx := int (Suc i)\<rparr>)"
proof -
  let ?ins = "inputs (n, as)" and ?p = "get1stOutputPos (uint n)"
  have p: "0 \<le> ?p" "nat ?p < length as" "n \<noteq> 0" "length as \<le> MAX_ARGC" "list_all aarg_ok as"
    using assms(5) by (auto simp: replayable_def acall_ok_def)
  have len: "length ?ins = nat ?p" using p(2) by (simp add: inputs_def)
  have "list_all aarg_ok ?ins" using p(5) by (auto simp: inputs_def list_all_iff dest: in_set_takeD)
  then obtain c where c: "add_args ?ins (createSCR (uint n) s) s = Inr (c, s)" "scr_is c n ?ins"
    using new_scr [of s ?ins n] assms(1) p(2,4) len by auto
  have "list_all2 same_kind ?ins ?ins"
    using assms(5) by (simp add: replayable_def list_all2_same list_all_iff)
  moreover have "take (length ?ins) as = ?ins" using p(2) by (simp add: inputs_def)
  ultimately have "compareSCRS c s = Inr (recorded_scrs s ! i, s\<lparr>scrs_idx := scrs_idx s + 1\<rparr>)"
    using compareSCRS_spec [OF assms(2-4) p(3) c(2)] p(1,2) len by (simp add: Let_def)
  then show ?thesis using c(1) assms(2) by (simp add: replay_call_def add.commute)
qed

lemma replay_calls_spec:
  assumes "rr_ok s" "scrs_idx s = int i" "i + length cs \<le> MAX_SCRS"
    "holds_calls (recorded_scrs s) i cs" "\<forall>c \<in> set cs. replayable c"
  shows "\<exists>rs. replay_calls (map (\<lambda>c. (fst c, inputs c)) cs) s
       = Inr (rs, s\<lparr>scrs_idx := int (i + length cs)\<rparr>) \<and>
     list_all2 (\<lambda>r c. scr_is r (fst c) (snd c)) rs cs"
  using assms
proof (induction cs arbitrary: s i)
  case (Cons c cs)
  obtain n as where c: "c = (n, as)" by (cases c)
  let ?s = "s\<lparr>scrs_idx := int (Suc i)\<rparr>"
  have h: "scr_is (recorded_scrs s ! i) n as" "holds_calls (recorded_scrs ?s) (Suc i) cs"
    using Cons.prems(4) c by (simp_all add: holds_calls_Cons)
  have 1: "replay_call n (inputs c) s = Inr (recorded_scrs s ! i, ?s)"
    using replay_call_spec [of s i n as] Cons.prems h(1) c by simp
  obtain rs where "replay_calls (map (\<lambda>c. (fst c, inputs c)) cs) ?s
       = Inr (rs, ?s\<lparr>scrs_idx := int (Suc i + length cs)\<rparr>)"
    "list_all2 (\<lambda>r c. scr_is r (fst c) (snd c)) rs cs"
    using Cons.IH [of ?s "Suc i"] Cons.prems h(2) by (auto simp: rr_ok_def)
  then show ?case using 1 h(1) c by simp
qed auto

section \<open>Record, pack, unpack, replay\<close>

text \<open>The bytes a session has written to the file, as \<open>sys_replay_start\<close> finds them in \<open>buffer\<close>
  after reading the file.\<close>

definition loaded :: "rrst \<Rightarrow> rrst \<Rightarrow> rrst" where
  "loaded s t = t\<lparr>buffer := patch (buffer t) 0 (slice 0 (nat (buffer_pos s)) (buffer s))\<rparr>"

lemma rr_ok_loaded [simp]:
  "rr_ok t \<Longrightarrow> length (buffer s) = MAX_FILE_SIZE \<Longrightarrow> 0 \<le> buffer_pos s \<Longrightarrow> buffer_pos s \<le> int MAX_FILE_SIZE \<Longrightarrow>
   rr_ok (loaded s t)"
  by (simp add: rr_ok_def loaded_def)

text \<open>C3: Deterministic replay.  A process records any sequence \<open>cs\<close> of recorded calls, at most
  1000 of them and no more than fit the file.  Then recording, packing, loading the packed
  bytes in a replaying process \<open>t\<close>, unpacking and replaying the calls with the same inputs
  all return; the recording returned each call's own result; every replayed call gets a
  record with exactly the recorded outputs; and the replaying process is not killed.\<close>

theorem session_roundtrip:
  assumes "rr_ok s" "scrs_idx s = 0" "record_syscalls s = 1" "replay_syscalls s \<noteq> 1"
    and "\<forall>c \<in> set cs. replayable c" "length cs \<le> MAX_SCRS" "length (enc_session cs) \<le> MAX_FILE_SIZE"
    and "rr_ok t" "replay_syscalls t = 1" "record_syscalls t \<noteq> 1" "buffer_pos t = 0"
  shows "\<exists>s1 s2 t1 t2 rs. record_calls cs s = Inr (map first_output cs, s1) \<and>
     record_pack s1 = Inr (0, s2) \<and>
     replay_unpack (buffer_pos s2) (loaded s2 t) = Inr (0, t1) \<and>
     replay_calls (map (\<lambda>c. (fst c, inputs c)) cs) t1 = Inr (rs, t2) \<and>
     list_all2 (\<lambda>r c. scr_is r (fst c) (snd c)) rs cs \<and> killed t2 = killed t"
proof -
  have c0: "\<forall>c \<in> set cs. fst c \<noteq> 0" "\<forall>c \<in> set cs. acall_ok c"
    using assms(5) by (auto simp: replayable_def acall_ok_def)
  obtain rs where rs: "record_calls cs s = Inr (map first_output cs,
      s\<lparr>recorded_scrs := rs, scrs_idx := int (length cs)\<rparr>)"
    "length rs = MAX_SCRS" "\<forall>r \<in> set rs. scr_shape r" "holds_calls rs 0 cs"
    using record_calls_spec [of s "[]" cs] assms(1,2,5,6) by (auto simp: holds_calls_def)
  let ?s1 = "s\<lparr>recorded_scrs := rs, scrs_idx := int (length cs)\<rparr>"
  have "rr_ok ?s1" using assms(1) rs(2,3) by (simp add: rr_ok_def)
  then obtain s2 where s2: "record_pack ?s1 = Inr (0, s2)"
    "slice 0 (length (enc_session cs)) (buffer s2) = enc_session cs"
    "buffer_pos s2 = int (length (enc_session cs))" "length (buffer s2) = MAX_FILE_SIZE"
    using record_pack_spec [of ?s1 cs] assms(3,4,6,7) rs(4) c0(1) by auto
  have "slice 0 (length (enc_session cs)) (buffer (loaded s2 t)) = enc_session cs"
    using s2(2-4) assms(7,8) by (simp add: loaded_def rr_ok_def)
  moreover have "rr_ok (loaded s2 t)" using s2(3,4) assms(7,8) by (intro rr_ok_loaded) simp_all
  ultimately obtain t1 where t1: "replay_unpack (buffer_pos s2) (loaded s2 t) = Inr (0, t1)" "rr_ok t1"
    "holds_calls (recorded_scrs t1) 0 cs" "scrs_idx t1 = 0" "killed t1 = killed t"
    using replay_unpack_spec [of "loaded s2 t" cs "buffer_pos s2"] s2(3) assms(6-11) c0(2)
    by (auto simp: loaded_def)
  obtain rs' where "replay_calls (map (\<lambda>c. (fst c, inputs c)) cs) t1
      = Inr (rs', t1\<lparr>scrs_idx := int (length cs)\<rparr>)" "list_all2 (\<lambda>r c. scr_is r (fst c) (snd c)) rs' cs"
    using replay_calls_spec [of t1 0 cs] t1 assms(5,6) by auto
  then show ?thesis using rs(1) s2(1) t1(1,5)
    by (intro exI [of _ ?s1] exI [of _ s2] exI [of _ t1] exI [of _ "t1\<lparr>scrs_idx := int (length cs)\<rparr>"]
        exI [of _ rs']) simp
qed

definition sample_rr :: "u32 \<Rightarrow> u32 \<Rightarrow> rrst" where
  "sample_rr rc rp = \<lparr>record_syscalls = rc, replay_syscalls = rp, record_filename = replicate 256 0,
     replay_filename = replicate 256 0,
     recorded_scrs = replicate MAX_SCRS \<lparr>scr_syscall = 0, scr_argc = 0,
       scr_args = replicate MAX_ARGC \<lparr>arg_type = NONE_TYPE, arg_val = replicate VAL_SIZE 0\<rparr>\<rparr>,
     scrs_idx = 0, buffer = replicate MAX_FILE_SIZE 0, buffer_pos = 0, rr_pid = 3, killed = False,
     junk = replicate VAL_SIZE 7\<rparr>"

lemma rr_ok_sample: "rr_ok (sample_rr rc rp)"
  by (simp add: rr_ok_def sample_rr_def scr_shape_def arg_ok_def)

lemma sample_fields [simp]:
  "scrs_idx (sample_rr rc rp) = 0" "record_syscalls (sample_rr rc rp) = rc"
  "replay_syscalls (sample_rr rc rp) = rp" "buffer_pos (sample_rr rc rp) = 0"
  "killed (sample_rr rc rp) = False"
  by (simp_all add: sample_rr_def)

text \<open>\<open>getpid\<close> returning 3 and \<open>open("a", 0)\<close> returning 4.\<close>

theorem session_roundtrip_witness:
  "\<exists>s1 s2 t1 t2 rs. record_calls [(11, [AInt 3]), (15, [ABytes [97], AInt 0, AInt 4])] (sample_rr 1 0)
       = Inr ([3, 4], s1) \<and>
     record_pack s1 = Inr (0, s2) \<and>
     replay_unpack (buffer_pos s2) (loaded s2 (sample_rr 0 1)) = Inr (0, t1) \<and>
     replay_calls [(11, []), (15, [ABytes [97], AInt 0])] t1 = Inr (rs, t2) \<and>
     list_all2 (\<lambda>r c. scr_is r (fst c) (snd c)) rs
       [(11, [AInt 3]), (15, [ABytes [97], AInt 0, AInt 4])] \<and> killed t2 = False"
  using session_roundtrip [of "sample_rr 1 0" "[(11, [AInt 3]), (15, [ABytes [97], AInt 0, AInt 4])]" "sample_rr 0 1"]
  by (simp add: rr_ok_sample replayable_def acall_ok_def inputs_def get1stOutputPos_def first_output_def
      enc_session_def enc_scr_def enc_arg_def)






end
