(* ===== verification/Handlers.thy ===== *)
theory Handlers
  imports Frames Replay
begin

text \<open>
  The system call handlers with the recorder around them (\<open>sysfile.c\<close>, \<open>sysproc.c\<close>): the
  nine calls with a uniform shape, \<open>read\<close> and \<open>fstat\<close> with their memory outputs, the four
  calls that start and stop a session, \<open>sleep\<close>, and the recorder's part of \<open>exit\<close>.
\<close>

unbundle bit_operations_syntax

section \<open>Recorded calls of uniform shape\<close>

definition replaying :: "'z sysst_scheme \<Rightarrow> bool" where
  "replaying s = isReplaying (mypid s) (rr s)"

definition recording :: "'z sysst_scheme \<Rightarrow> bool" where
  "recording s = isRecording (mypid s) (rr s)"

text \<open>The inputs of a call: which arguments are added, in order, as integers or as strings.\<close>

datatype inspec = IInt nat | IStr nat

fun add_inputs :: "inspec list \<Rightarrow> SCR \<Rightarrow> ('z sysst_scheme, SCR) kfun" where
  "add_inputs [] scr = ret scr"
| "add_inputs (IInt k # is) scr = bnd (myargint k) (\<lambda>v. bnd (rrdo (addInt scr v)) (add_inputs is))"
| "add_inputs (IStr k # is) scr = bnd (myargstr k) (\<lambda>v. bnd (rrdo (addStr scr v)) (add_inputs is))"

text \<open>\<open>return scr.args[get1stOutputPos(scr.syscall)].val.num\<close>.\<close>

definition ret_output :: "SCR \<Rightarrow> ('z sysst_scheme, int) kfun" where
  "ret_output r = bnd (out_num r) (\<lambda>v. ret (sint v))"

text \<open>The common shape: replay branch, recording branch with its copy of the work, original.\<close>

definition rr_call :: "int \<Rightarrow> inspec list \<Rightarrow> (SCR \<Rightarrow> i32 \<Rightarrow> (rrst, SCR) kfun) \<Rightarrow>
    ('z sysst_scheme, int) kfun \<Rightarrow> ('z sysst_scheme, int) kfun \<Rightarrow> ('z sysst_scheme, int) kfun" where
  "rr_call n ins add_out work_rec work_orig =
     bnd (rd (\<lambda>s. createSCR n (rr s))) (\<lambda>scr.
     bnd (rd replaying) (\<lambda>p.
     if p then
       bnd (add_inputs ins scr) (\<lambda>scr.
       bnd (rrdo (compareSCRS scr)) ret_output)
     else bnd (rd recording) (\<lambda>q.
     if q then
       bnd (add_inputs ins scr) (\<lambda>scr.
       bnd work_rec (\<lambda>v.
       bnd (rrdo (add_out scr (word_of_int v))) (\<lambda>scr.
       thn (rrdo (addSRC scr))
           (ret_output scr))))
     else work_orig)))"

definition sys_getpid :: "('z sysst_scheme, int) kfun" where
  "sys_getpid = rr_call SYS_getpid [] addInt (rd mypid) (rd mypid)"

definition read_ticks :: "('z sysst_scheme, int) kfun" where
  "read_ticks = thn (acq LTicks) (bnd (rd ticks) (\<lambda>x. thn (rel LTicks) (ret (sint x))))"

definition sys_uptime :: "('z sysst_scheme, int) kfun" where
  "sys_uptime = rr_call SYS_uptime [] addUInt read_ticks read_ticks"

definition sys_close :: "('z sysst_scheme, int) kfun" where
  "sys_close = rr_call SYS_close [IInt 0] addInt close_rec close_orig"

definition sys_link :: "('z sysst_scheme, int) kfun" where
  "sys_link = rr_call SYS_link [IStr 0, IStr 1] addInt link_rec link_orig"

definition sys_unlink :: "('z sysst_scheme, int) kfun" where
  "sys_unlink = rr_call SYS_unlink [IStr 0] addInt unlink_rec unlink_orig"

definition sys_open :: "('z sysst_scheme, int) kfun" where
  "sys_open = rr_call SYS_open [IStr 0, IInt 1] addInt open_rec open_orig"

definition sys_mkdir :: "('z sysst_scheme, int) kfun" where
  "sys_mkdir = rr_call SYS_mkdir [IStr 0] addInt mkdir_rec mkdir_orig"

definition sys_mknod :: "('z sysst_scheme, int) kfun" where
  "sys_mknod = rr_call SYS_mknod [IStr 0, IInt 1, IInt 2] addInt mknod_rec mknod_orig"

text \<open>\<open>sys_chdir\<close> makes its record with the number of \<open>mkdir\<close>.\<close>

definition sys_chdir :: "('z sysst_scheme, int) kfun" where
  "sys_chdir = rr_call SYS_mkdir [IStr 0] addInt chdir_rec chdir_orig"

section \<open>read and fstat\<close>

text \<open>The local variable \<open>n\<close> is left uninitialised when its argument cannot be fetched, and \<open>p\<close>
  (or \<open>st\<close>) when the descriptor or the pointer is bad; using them is undefined.\<close>

definition read_replay :: "SCR \<Rightarrow> ('z sysst_scheme, int) kfun" where
  "read_replay r = bnd (rd (argint 2)) (\<lambda>n. case n of None \<Rightarrow> stop (UB ''n'') | Some n \<Rightarrow>
     bnd (rd (argptr 1 (sint n))) (\<lambda>p. case p of
       None \<Rightarrow> thn (rrdo RecRepErr) (ret (-1))
     | Some p \<Rightarrow>
       let pos = get1stOutputPos (uint (scr_syscall r)) in
       bnd (get_arg r (pos + 1)) (\<lambda>d.
       bnd (get_arg r (pos - 1)) (\<lambda>l.
       let k = sint (val_num (arg_val l)) in
       bnd (rd sz) (\<lambda>z.
       thn (chk (0 \<le> k \<and> k \<le> int MAX_RAW_SIZE \<and> p + nat k \<le> z) (UB ''memmove''))
      (thn (umem_write p (take (nat k) (raw_data (arg_val d))))
           (ret_output r)))))))"

definition sys_read :: "('z sysst_scheme, int) kfun" where
  "sys_read =
     bnd (rd (\<lambda>s. createSCR SYS_read (rr s))) (\<lambda>scr.
     bnd (rd replaying) (\<lambda>rp.
     if rp then
       bnd (add_inputs [IInt 0, IInt 2] scr) (\<lambda>scr.
       bnd (rrdo (compareSCRS scr)) read_replay)
     else bnd (rd recording) (\<lambda>rc.
     if rc then
       bnd (add_inputs [IInt 0, IInt 2] scr) (\<lambda>scr.
       bnd (rd (argint 2)) (\<lambda>n.
       bnd read_rec (\<lambda>(v, p).
       bnd (rrdo (addInt scr (word_of_int v))) (\<lambda>scr.
       bnd (rd id) (\<lambda>s.
       case (p, n) of
         (Some p, Some n) \<Rightarrow>
           bnd (rrdo (addRaw scr (umem_read p (sz s - p) s) (sint n))) (\<lambda>scr.
           thn (rrdo (addSRC scr)) (ret_output scr))
       | _ \<Rightarrow> stop (UB ''p''))))))
     else read_orig)))"

definition fstat_replay :: "SCR \<Rightarrow> ('z sysst_scheme, int) kfun" where
  "fstat_replay r = bnd (rd (argptr 1 (int STAT_SIZE))) (\<lambda>p. case p of
       None \<Rightarrow> thn (rrdo RecRepErr) (ret (-1))
     | Some p \<Rightarrow>
       bnd (get_arg r (get1stOutputPos (uint (scr_syscall r)) + 1)) (\<lambda>a.
       thn (store_stat p (val_st (arg_val a)))
           (ret_output r)))"

definition sys_fstat :: "('z sysst_scheme, int) kfun" where
  "sys_fstat =
     bnd (rd (\<lambda>s. createSCR SYS_fstat (rr s))) (\<lambda>scr.
     bnd (rd replaying) (\<lambda>rp.
     if rp then
       bnd (add_inputs [IInt 0] scr) (\<lambda>scr.
       bnd (rrdo (compareSCRS scr)) fstat_replay)
     else bnd (rd recording) (\<lambda>rc.
     if rc then
       bnd (add_inputs [IInt 0] scr) (\<lambda>scr.
       bnd fstat_rec (\<lambda>(v, p).
       bnd (rrdo (addInt scr (word_of_int v))) (\<lambda>scr.
       case p of
         None \<Rightarrow> stop (UB ''st'')
       | Some p \<Rightarrow>
           bnd (rd (umem_read p STAT_SIZE)) (\<lambda>d.
           bnd (rrdo (addStat scr (val_st d))) (\<lambda>scr.
           thn (rrdo (addSRC scr)) (ret_output scr))))))
     else fstat_orig)))"

section \<open>Starting and stopping a session\<close>

definition name_of :: "bytes \<Rightarrow> bytes" where
  "name_of a = takeWhile (\<lambda>c. c \<noteq> 0) a"

definition ret_record :: "('z sysst_scheme, int) kfun" where
  "ret_record = rd (\<lambda>s. sint (record_syscalls (rr s)))"

definition ret_replay :: "('z sysst_scheme, int) kfun" where
  "ret_replay = rd (\<lambda>s. sint (replay_syscalls (rr s)))"

definition sys_record_start :: "('z sysst_scheme, int) kfun" where
  "sys_record_start = bnd (rd (argstr 0)) (\<lambda>f. case f of None \<Rightarrow> ret (-1) | Some f \<Rightarrow>
     thn (rrdo (md (\<lambda>r. r\<lparr>record_filename := strcpy_name (record_filename r) f 255, record_syscalls := 1\<rparr>)))
    (bnd (rd mypid) (\<lambda>pid.
     thn (rrdo (reset_session pid))
         ret_record)))"

definition record_io_err :: "('z sysst_scheme, int) kfun" where
  "record_io_err = thn (rrdo (md (\<lambda>r. r\<lparr>record_syscalls := -1\<rparr>))) (thn (rrdo RecRepErr) ret_record)"

definition sys_record_stop :: "('z sysst_scheme, int) kfun" where
  "sys_record_stop = bnd (rd recording) (\<lambda>q. if \<not> q then ret_record else
     bnd (rrdo record_pack) (\<lambda>st. if st = -1 then ret (-1) else
     bnd (rd rr) (\<lambda>r.
     bnd (my_open (name_of (record_filename r)) (O_CREATE OR O_RDWR)) (\<lambda>fd.
     if fd = -1 then record_io_err
     else bnd (my_write fd (buffer r) (buffer_pos r)) (\<lambda>w.
     if w = -1 then record_io_err
     else bnd (my_close fd) (\<lambda>c.
     if c = -1 then record_io_err else ret_record))))))"

definition replay_io_err :: "('z sysst_scheme, int) kfun" where
  "replay_io_err = thn (rrdo (md (\<lambda>r. r\<lparr>replay_syscalls := -1\<rparr>))) (thn (rrdo RecRepErr) ret_replay)"

definition sys_replay_start :: "('z sysst_scheme, int) kfun" where
  "sys_replay_start = bnd (rd (argstr 0)) (\<lambda>f. case f of None \<Rightarrow> ret (-1) | Some f \<Rightarrow>
     thn (rrdo (md (\<lambda>r. r\<lparr>replay_filename := strcpy_name (replay_filename r) f 255, replay_syscalls := 1\<rparr>)))
    (bnd (rd mypid) (\<lambda>pid.
     thn (rrdo (reset_session pid))
    (bnd (rd rr) (\<lambda>r.
     bnd (my_open (name_of (replay_filename r)) O_RDWR) (\<lambda>fd.
     if fd = -1 then replay_io_err
     else bnd (my_read fd (int MAX_FILE_SIZE)) (\<lambda>(n, bs).
       thn (rrdo (md (\<lambda>r. r\<lparr>buffer := patch (buffer r) 0 bs\<rparr>)))
      (if n = -1 then replay_io_err
       else bnd (my_close fd) (\<lambda>c.
       if c = -1 then replay_io_err
       else bnd (rrdo (replay_unpack n)) (\<lambda>st.
         if st = -1 then ret (-1) else ret_replay))))))))))"

definition sys_replay_stop :: "('z sysst_scheme, int) kfun" where
  "sys_replay_stop =
     bnd (rd replaying) (\<lambda>p. thn (whn p (rrdo (md (\<lambda>r. r\<lparr>replay_syscalls := 0\<rparr>)))) ret_replay)"

text \<open>What \<open>sys_exit\<close> does before it calls \<open>exit\<close>.\<close>

definition exit_session :: "('z sysst_scheme, int) kfun" where
  "exit_session = thn sys_replay_stop sys_record_stop"

section \<open>sleep\<close>

text \<open>\<open>seen\<close> are the values of \<open>ticks\<close> at the times the sleeping process is woken.  The comparison is
  unsigned.\<close>

primrec sleep_loop :: "u32 \<Rightarrow> i32 \<Rightarrow> u32 list \<Rightarrow> ('z sysst_scheme, int) kfun" where
  "sleep_loop ticks0 n [] = bnd (rd id) (\<lambda>s.
     if ticks s - ticks0 < n then (if pkilled s then ret (-1) else stop (Sleep ''ticks'')) else ret 0)"
| "sleep_loop ticks0 n (t # seen) = bnd (rd id) (\<lambda>s.
     if ticks s - ticks0 < n then
       (if pkilled s then ret (-1)
        else thn (md (\<lambda>s. s\<lparr>ticks := t\<rparr>)) (sleep_loop ticks0 n seen))
     else ret 0)"

definition sys_sleep :: "u32 list \<Rightarrow> ('z sysst_scheme, int) kfun" where
  "sys_sleep seen = bnd (rd (argint 0)) (\<lambda>n. case n of None \<Rightarrow> ret (-1) | Some n \<Rightarrow>
     thn (acq LTicks)
    (bnd (rd ticks) (\<lambda>ticks0.
     bnd (sleep_loop ticks0 n seen) (\<lambda>r.
     thn (rel LTicks) (ret r)))))"

end
