(* ===== verification/Determinism.thy ===== *)
theory Determinism
  imports Handlers
begin

text \<open>
  Deterministic replay at the level of system call handlers.  A user program is a function
  from the results of its calls so far to its next call with the user memory at that
  moment.  Run against a recording kernel it leaves a recording; run against a replaying
  kernel, whatever the state of that kernel's file system, it gets the same results.

  The locale \<open>recorded_calls\<close> states what a family of handlers must satisfy; it is
  interpreted on the nine handlers of uniform shape.
\<close>

section \<open>Definitions\<close>

text \<open>The input values a call finds in user memory.\<close>

fun input_vals :: "inspec list \<Rightarrow> 'z sysst_scheme \<Rightarrow> aarg list option" where
  "input_vals [] s = Some []"
| "input_vals (IInt k # is) s = (case argint k s of None \<Rightarrow> None
     | Some v \<Rightarrow> map_option (Cons (AInt v)) (input_vals is s))"
| "input_vals (IStr k # is) s = (case argstr k s of None \<Rightarrow> None
     | Some v \<Rightarrow> map_option (Cons (ABytes v)) (input_vals is s))"

text \<open>The two copies of the kill flag agree.\<close>

definition synced :: "'z sysst_scheme \<Rightarrow> bool" where
  "synced s \<longleftrightarrow> killed (rr s) = pkilled s"

type_synonym 'c program = "int list \<Rightarrow> ('c \<times> mem \<times> nat) option"

primrec run_prog :: "('c \<Rightarrow> ('z sysst_scheme, int) kfun) \<Rightarrow> nat \<Rightarrow> 'c program \<Rightarrow> int list \<Rightarrow>
    ('z sysst_scheme, int list) kfun" where
  "run_prog h 0 prog past = ret past"
| "run_prog h (Suc k) prog past = (case prog past of None \<Rightarrow> ret past | Some (c, m, e) \<Rightarrow>
     thn (md (\<lambda>s. s\<lparr>umem := m, esp := e\<rparr>))
    (bnd (h c) (\<lambda>v. run_prog h k prog (past @ [v]))))"

text \<open>The state of the recorder after storing \<open>r\<close> at position \<open>i\<close>.\<close>

definition stored :: "nat \<Rightarrow> SCR \<Rightarrow> rrst \<Rightarrow> rrst" where
  "stored i r s = s\<lparr>recorded_scrs := (recorded_scrs s)[i := r], scrs_idx := int (Suc i)\<rparr>"

text \<open>The states of a recording and of a replaying process: \<open>cs\<close> has been recorded so far, \<open>cs\<close> is
  still to be replayed from position \<open>i\<close> on.\<close>

definition rec_inv :: "'z sysst_scheme \<Rightarrow> acall list \<Rightarrow> bool" where
  "rec_inv s cs \<longleftrightarrow> recording s \<and> \<not> replaying s \<and> rr_ok (rr s) \<and> synced s \<and>
     scrs_idx (rr s) = int (length cs) \<and> length cs \<le> MAX_SCRS \<and>
     holds_calls (recorded_scrs (rr s)) 0 cs \<and> (\<forall>c \<in> set cs. replayable c)"

definition rep_inv :: "'z sysst_scheme \<Rightarrow> nat \<Rightarrow> acall list \<Rightarrow> bool" where
  "rep_inv s i cs \<longleftrightarrow> replaying s \<and> rr_ok (rr s) \<and> synced s \<and> scrs_idx (rr s) = int i \<and>
     i + length cs \<le> MAX_SCRS \<and> holds_calls (recorded_scrs (rr s)) i cs"

section \<open>Running the recorder inside a system call\<close>

lemma synced_rr: "synced s \<Longrightarrow> (rr s)\<lparr>killed := pkilled s\<rparr> = rr s"
  by (cases "rr s") (simp add: synced_def)

lemma rrdo_synced:
  "synced s \<Longrightarrow> m (rr s) = Inr (x, r) \<Longrightarrow> rrdo m s = Inr (x, s\<lparr>rr := r, pkilled := killed r\<rparr>)"
  by (rule rrdo_Inr) (simp add: synced_rr)

lemma rrdo_same: "synced s \<Longrightarrow> m (rr s) = Inr (x, rr s) \<Longrightarrow> rrdo m s = Inr (x, s)"
  by (cases s) (simp add: rrdo_synced synced_def)

lemma rrdo_keep_killed:
  assumes "synced s" "m (rr s) = Inr (x, r)" "killed r = killed (rr s)"
  shows "rrdo m s = Inr (x, s\<lparr>rr := r\<rparr>)"
proof -
  have "rrdo m s = Inr (x, s\<lparr>rr := r, pkilled := killed r\<rparr>)" using assms(1,2) by (rule rrdo_synced)
  moreover have "s\<lparr>rr := r, pkilled := killed r\<rparr> = s\<lparr>rr := r\<rparr>"
    using assms(1,3) by (cases s) (simp add: synced_def)
  ultimately show ?thesis by simp
qed

text \<open>Once the recorder has failed it stays so.\<close>

abbreviation failed :: "'z sysst_scheme \<Rightarrow> bool" where
  "failed s \<equiv> record_syscalls (rr s) = -1"

abbreviation rfailed :: "rrst \<Rightarrow> bool" where
  "rfailed r \<equiv> record_syscalls r = -1"

lemma rrdo_eq_InrE:
  assumes "rrdo m s = Inr (x, s')"
  obtains r where "m ((rr s)\<lparr>killed := pkilled s\<rparr>) = Inr (x, r)" "s' = s\<lparr>rr := r, pkilled := killed r\<rparr>"
  using assms by (auto simp: rrdo_def split: sum.splits)

lemma keeps_rrdo [keep_intros]:
  assumes "keeps rfailed m"
  shows "keeps failed (rrdo m :: ('z sysst_scheme, 'a) kfun)"
  unfolding keeps_def
proof (intro allI impI)
  fix s :: "'z sysst_scheme" and x s' assume f: "failed s" and ran: "rrdo m s = Inr (x, s')"
  from ran obtain r where r: "m ((rr s)\<lparr>killed := pkilled s\<rparr>) = Inr (x, r)"
    "s' = s\<lparr>rr := r, pkilled := killed r\<rparr>"
    by (rule rrdo_eq_InrE)
  have "rfailed ((rr s)\<lparr>killed := pkilled s\<rparr>)" using f by simp
  then have "rfailed r" using assms r(1) unfolding keeps_def by blast
  then show "failed s'" using r(2) by simp
qed

lemma rfailed_add [keep_intros]:
  "keeps rfailed RecRepErr" "keeps rfailed (addInt scr v)" "keeps rfailed (addUInt scr w)"
  "keeps rfailed (addStr scr d)" "keeps rfailed (addSRC scr)"
  unfolding RecRepErr_def addInt_def addUInt_def addStr_def addSRC_def put_arg_def set_scr_def
  by (intro keep_intros keeps_md; simp)+

lemma rfailed_compare [keep_intros]: "keeps rfailed (compare_args r scr is)"
proof -
  have "keeps rfailed (same_data x y js)" for x y js
    by (induction js; unfold same_data.simps; (intro keep_intros; simp))
  then have "keeps rfailed (compare_arg a b)" for a b
    unfolding compare_arg_def by (intro keep_intros)
  then show ?thesis
    by (induction "is"; unfold compare_args.simps get_arg_def; (intro keep_intros; simp))
qed

lemma rfailed_compareSCRS [keep_intros]: "keeps rfailed (compareSCRS scr)"
  unfolding compareSCRS_def get_scr_def by (intro keep_intros keeps_md; simp)

lemma failed_inputs [keep_intros]: "keeps failed (add_inputs specs scr)"
proof (induction specs arbitrary: scr)
  case (Cons i specs)
  show ?case
    by (cases i; simp only: add_inputs.simps myargint_def myargstr_def; (intro keep_intros Cons.IH))
qed (simp add: keep_intros)

lemma failed_ret_output [keep_intros]: "keeps failed (ret_output r)"
  unfolding ret_output_def out_num_def get_arg_def by (intro keep_intros)

lemma frame_failed: "(\<And>u. frame u m) \<Longrightarrow> keeps failed m"
  using frameD [of m] unfolding keeps_def user_part_def by (metis prod.inject)

section \<open>Inputs\<close>

lemma input_vals_cong:
  assumes "umem s = umem t" "esp s = esp t" "sz s = sz t"
  shows "input_vals specs s = input_vals specs t"
proof -
  have "umem_read a n s = umem_read a n t" for a n using assms(1) by (simp add: umem_read_def)
  then have i: "argint k s = argint k t" and c: "argstr k s = argstr k t" for k
    using assms(2,3) by (simp_all add: argint_def argstr_def fetchint_def fetchstr_def)
  show ?thesis
  proof (induction specs)
    case (Cons j specs)
    then show ?case by (cases j) (simp_all add: i c split: option.split)
  qed simp
qed

lemma length_input_vals: "input_vals specs s = Some ins \<Longrightarrow> length ins = length specs"
  by (induction specs s arbitrary: ins rule: input_vals.induct) (auto split: option.splits)

lemma input_vals_comparable:
  "input_vals specs s = Some ins \<Longrightarrow> list_all (\<lambda>a. same_kind a a) ins"
  by (induction specs s arbitrary: ins rule: input_vals.induct) (auto split: option.splits)

lemma add_inputs_add_args:
  assumes "input_vals specs s = Some ins" "synced s" "add_args ins scr (rr s) = Inr (scr', rr s)"
    "scr_is scr n as" "length as + length ins \<le> MAX_ARGC" "length (junk (rr s)) = VAL_SIZE"
    "list_all aarg_ok ins"
  shows "add_inputs specs scr s = Inr (scr', s)"
  using assms
proof (induction specs s arbitrary: ins scr as rule: input_vals.induct)
  case (2 k "is" s)
  obtain v ins' where v: "argint k s = Some v" "input_vals is s = Some ins'" "ins = AInt v # ins'"
    using 2 by (auto split: option.splits)
  obtain r where r: "addInt scr v (rr s) = Inr (r, rr s)" "scr_is r n (as @ [AInt v])"
    using addInt_is [OF 2(5), of "rr s" v] 2 v by auto
  have "add_inputs is r s = Inr (scr', s)"
    using 2 v r by (intro "2.IH" [of v ins' r "as @ [AInt v]"]) auto
  then show ?case using v(1) rrdo_same [of s "addInt scr v", OF 2(3) r(1)] by (simp add: myargint_def)
next
  case (3 k "is" s)
  obtain v ins' where v: "argstr k s = Some v" "input_vals is s = Some ins'" "ins = ABytes v # ins'"
    using 3 by (auto split: option.splits)
  obtain r where r: "addStr scr v (rr s) = Inr (r, rr s)" "scr_is r n (as @ [ABytes v])"
    using addStr_is [OF 3(5), of "rr s" v] 3 v by auto
  have "add_inputs is r s = Inr (scr', s)"
    using 3 v r by (intro "3.IH" [of v ins' r "as @ [ABytes v]"]) auto
  then show ?case using v(1) rrdo_same [of s "addStr scr v", OF 3(3) r(1)] by (simp add: myargstr_def)
qed simp

lemma new_inputs:
  assumes "input_vals specs s = Some ins" "synced s" "rr_ok (rr s)" "length specs \<le> MAX_ARGC"
    "list_all aarg_ok ins"
  shows "\<exists>scr. add_inputs specs (createSCR n (rr s)) s = Inr (scr, s) \<and> scr_is scr (word_of_int n) ins"
proof -
  have j: "length (junk (rr s)) = VAL_SIZE" using assms(3) by (simp add: rr_ok_def)
  have c: "scr_is (createSCR n (rr s)) (word_of_int n) []" by (rule scr_is_createSCR [OF j])
  obtain scr where scr: "add_args ins (createSCR n (rr s)) (rr s) = Inr (scr, rr s)"
    "scr_is scr (word_of_int n) ins"
    using add_args_is [OF c, of ins "rr s"] assms(4,5) length_input_vals [OF assms(1)] j by auto
  have "add_inputs specs (createSCR n (rr s)) s = Inr (scr, s)"
    using add_inputs_add_args [OF assms(1,2) scr(1) c] assms(4,5) length_input_vals [OF assms(1)] j
    by simp
  with scr(2) show ?thesis by blast
qed

text \<open>Conversely, when the inputs were added the recorder has failed or all inputs were there.\<close>

lemma keepsD: "keeps I m \<Longrightarrow> m s = Inr (x, s') \<Longrightarrow> I s \<Longrightarrow> I s'"
  unfolding keeps_def by blast

lemma rrdo_RecRepErr: "\<exists>s'. rrdo RecRepErr s = Inr ((), s') \<and> failed s'"
  by (simp add: rrdo_def rr_failed_def)

lemma addStr_long: "MAX_RAW_SIZE < length v \<Longrightarrow> rrdo (addStr scr v) s = Inl (UB ''raw.data'')"
  by (rule rrdo_Inl) (simp add: addStr_def)

lemma add_inputs_cases:
  assumes "add_inputs specs scr s = Inr (scr', s')" "synced s" "scr_is scr n as"
    "length as + length specs \<le> MAX_ARGC" "length (junk (rr s)) = VAL_SIZE"
  shows "failed s' \<or> (\<exists>ins. input_vals specs s = Some ins \<and> list_all aarg_ok ins)"
  using assms
proof (induction specs arbitrary: scr as)
  case (Cons i specs)
  have rest: "keeps failed (bnd (rrdo (addInt scr v)) (add_inputs specs))"
    "keeps failed (bnd (rrdo (addStr scr d)) (add_inputs specs))" for v d
    by (intro keep_intros)+
  obtain s1 where s1: "rrdo RecRepErr s = Inr ((), s1)" "failed s1" using rrdo_RecRepErr by blast
  show ?case
  proof (cases i)
    case (IInt k)
    show ?thesis
    proof (cases "argint k s")
      case None
      then show ?thesis
        using Cons.prems(1) IInt s1 keepsD [OF rest(1)] by (simp add: myargint_def)
    next
      case (Some v)
      obtain r where r: "addInt scr v (rr s) = Inr (r, rr s)" "scr_is r n (as @ [AInt v])"
        using addInt_is [OF Cons.prems(3), of "rr s" v] Cons.prems by auto
      have "add_inputs specs r s = Inr (scr', s')"
        using Cons.prems(1) IInt Some rrdo_same [of s "addInt scr v", OF Cons.prems(2) r(1)]
        by (simp add: myargint_def)
      from Cons.IH [OF this Cons.prems(2) r(2)] Cons.prems show ?thesis using IInt Some by auto
    qed
  next
    case (IStr k)
    show ?thesis
    proof (cases "argstr k s")
      case None
      then show ?thesis
        using Cons.prems(1) IStr s1 keepsD [OF rest(2)] by (simp add: myargstr_def)
    next
      case (Some v)
      have len: "length v \<le> MAX_RAW_SIZE"
        using Cons.prems(1) IStr Some addStr_long [of v scr s]
        by (cases "MAX_RAW_SIZE < length v") (simp_all add: myargstr_def)
      obtain r where r: "addStr scr v (rr s) = Inr (r, rr s)" "scr_is r n (as @ [ABytes v])"
        using addStr_is [OF Cons.prems(3), of "rr s" v] Cons.prems len by auto
      have "add_inputs specs r s = Inr (scr', s')"
        using Cons.prems(1) IStr Some rrdo_same [of s "addStr scr v", OF Cons.prems(2) r(1)]
        by (simp add: myargstr_def)
      from Cons.IH [OF this Cons.prems(2) r(2)] Cons.prems show ?thesis using IStr Some len by auto
    qed
  qed
qed simp

section \<open>The interface of a family of recorded calls\<close>

locale recorded_calls =
  fixes handler :: "'c \<Rightarrow> ('z sysst_scheme, int) kfun"
    and num :: "'c \<Rightarrow> int" and specs :: "'c \<Rightarrow> inspec list"
    and add_out :: "'c \<Rightarrow> SCR \<Rightarrow> i32 \<Rightarrow> (rrst, SCR) kfun" and out :: "'c \<Rightarrow> i32 \<Rightarrow> aarg"
    and work :: "'c \<Rightarrow> ('z sysst_scheme, int) kfun"
  assumes shape: "handler c = rr_call (num c) (specs c) (add_out c) (work c) (work c)"
    and number: "0 < num c" "num c < 256"
    and outpos: "get1stOutputPos (num c) = int (length (specs c))"
    and arity: "length (specs c) < MAX_ARGC"
    and adds: "scr_is r m as \<Longrightarrow> length as < MAX_ARGC \<Longrightarrow> length (junk q) = VAL_SIZE \<Longrightarrow>
      \<exists>r'. add_out c r w q = Inr (r', q) \<and> scr_is r' m (as @ [out c w])"
    and out_num: "num_of (out c w) = Some w"
    and sticky: "keeps rfailed (add_out c r w)"
    and frame: "keeps (\<lambda>s. user_part s = u) (work c)"
begin

definition call :: "'c \<Rightarrow> aarg list \<Rightarrow> i32 \<Rightarrow> acall" where
  "call c ins w = (word_of_int (num c), ins @ [out c w])"

lemma uint_num [simp]: "uint (word_of_int (num c) :: byte) = num c"
  using number [of c] by (simp add: uint_word_of_int)

lemma replayable_call:
  assumes "length ins = length (specs c)" "list_all (\<lambda>a. same_kind a a) ins" "list_all aarg_ok ins"
  shows "replayable (call c ins w)"
proof -
  have "(word_of_int (num c) :: byte) \<noteq> 0" using uint_num [of c] number [of c] by (metis uint_0_eq less_irrefl)
  moreover have "aarg_ok (out c w)" using out_num [of c w] by (cases "out c w") auto
  ultimately show ?thesis
    using assms arity [of c] outpos [of c] out_num [of c w]
    by (simp add: call_def replayable_def acall_ok_def inputs_def nth_append)
qed

lemma work_frame: "work c s = Inr (w, s1) \<Longrightarrow> user_part s1 = user_part s"
  by (rule frameD) (rule frame)

text \<open>Recording is transparent: the call does its work and one record is stored.\<close>

lemma records:
  assumes "recording s" "\<not> replaying s" "rr_ok (rr s)" "synced s" "scrs_idx (rr s) = int i" "i < MAX_SCRS"
    and ins: "input_vals (specs c) s = Some ins" "list_all aarg_ok ins" and w: "work c s = Inr (w, s1)"
  shows "\<exists>r. handler c s = Inr (sint (word_of_int w :: i32), s1\<lparr>rr := stored i r (rr s)\<rparr>) \<and>
     scr_is r (fst (call c ins (word_of_int w))) (snd (call c ins (word_of_int w)))"
proof -
  let ?w = "word_of_int w :: i32"
  obtain scr where scr: "add_inputs (specs c) (createSCR (num c) (rr s)) s = Inr (scr, s)"
    "scr_is scr (word_of_int (num c)) ins"
    using new_inputs [OF ins(1) assms(4,3) _ ins(2)] arity [of c] by auto
  have up: "rr s1 = rr s" "pkilled s1 = pkilled s" using work_frame [OF w] by (simp_all add: user_part_def)
  have sy: "synced s1" using assms(4) up by (simp add: synced_def)
  obtain r where r: "add_out c scr ?w (rr s) = Inr (r, rr s)"
    "scr_is r (word_of_int (num c)) (ins @ [out c ?w])"
    using adds [OF scr(2), of "rr s" c ?w] arity [of c] length_input_vals [OF ins(1)] assms(3)
    by (auto simp: rr_ok_def)
  have 1: "rrdo (add_out c scr ?w) s1 = Inr (r, s1)"
    using rrdo_same [of s1 "add_out c scr ?w", OF sy] r(1) up(1) by simp
  have "addSRC r (rr s) = Inr ((), stored i r (rr s))"
    using assms(5,6) by (simp add: addSRC_def stored_def add.commute)
  then have 2: "rrdo (addSRC r) s1 = Inr ((), s1\<lparr>rr := stored i r (rr s)\<rparr>)"
    using up(1) by (intro rrdo_keep_killed [OF sy]) (simp_all add: stored_def)
  have "out_num r t = Inr (?w, t)" for t :: "'z sysst_scheme"
    using out_num_is [OF r(2), of "length ins" ?w] outpos [of c] length_input_vals [OF ins(1)]
      local.out_num [of c ?w] by (simp add: nth_append)
  then have "handler c s = Inr (sint ?w, s1\<lparr>rr := stored i r (rr s)\<rparr>)"
    using assms(1,2) scr(1) w 1 2 by (simp add: shape rr_call_def ret_output_def)
  then show ?thesis using r(2) by (auto simp: call_def)
qed

text \<open>Whatever happens, the recorder has failed afterwards or one record was stored.\<close>

lemma handler_sticky: "keeps failed (handler c)"
proof -
  have "keeps failed (work c)" by (rule frame_failed) (rule frame)
  then show ?thesis unfolding shape rr_call_def by (intro keep_intros sticky)
qed

lemma records_or_fails:
  assumes "handler c s = Inr (v, s')" "\<not> failed s'"
    and "recording s" "\<not> replaying s" "rr_ok (rr s)" "synced s" "scrs_idx (rr s) = int i"
  obtains ins w s1 r where "input_vals (specs c) s = Some ins" "list_all aarg_ok ins" "i < MAX_SCRS"
    "work c s = Inr (w, s1)" "v = sint (word_of_int w :: i32)" "s' = s1\<lparr>rr := stored i r (rr s)\<rparr>"
    "scr_is r (fst (call c ins (word_of_int w))) (snd (call c ins (word_of_int w)))"
proof -
  let ?scr0 = "createSCR (num c) (rr s)"
  have j: "length (junk (rr s)) = VAL_SIZE" using assms(5) by (simp add: rr_ok_def)
  have wf: "keeps failed (work c)" by (rule frame_failed) (rule frame)
  from assms(1,3,4) obtain scr s0 where a: "add_inputs (specs c) ?scr0 s = Inr (scr, s0)"
    and b: "bnd (work c) (\<lambda>v. bnd (rrdo (add_out c scr (word_of_int v))) (\<lambda>scr.
       thn (rrdo (addSRC scr)) (ret_output scr))) s0 = Inr (v, s')"
    by (auto simp: shape rr_call_def elim: bnd_eq_InrE)
  have "keeps failed (bnd (work c) (\<lambda>v. bnd (rrdo (add_out c scr (word_of_int v))) (\<lambda>scr.
       thn (rrdo (addSRC scr)) (ret_output scr))))"
    by (intro keep_intros sticky wf)
  from keepsD [OF this b] assms(2) have "\<not> failed s0" by blast
  then obtain ins where ins: "input_vals (specs c) s = Some ins" "list_all aarg_ok ins"
    using add_inputs_cases [OF a assms(6) scr_is_createSCR [OF j]] arity [of c] j by auto
  then obtain scr' where scr': "add_inputs (specs c) ?scr0 s = Inr (scr', s)"
    "scr_is scr' (word_of_int (num c)) ins"
    using new_inputs [OF ins(1) assms(6,5) _ ins(2)] arity [of c] by auto
  with a have eq: "scr' = scr" "s0 = s" by simp_all
  with b obtain w s1 where w: "work c s = Inr (w, s1)" by (auto elim: bnd_eq_InrE)
  have up: "rr s1 = rr s" "pkilled s1 = pkilled s" using work_frame [OF w] by (simp_all add: user_part_def)
  have i: "i < MAX_SCRS"
  proof (rule ccontr)
    assume "\<not> i < MAX_SCRS"
    then have full: "addSRC r (rr s) = Inr ((), rr_failed (rr s))" for r
      using assms(7) by (simp add: addSRC_def)
    obtain r where "add_out c scr (word_of_int w) (rr s) = Inr (r, rr s)"
      using adds [OF scr'(2), of "rr s" c "word_of_int w"] arity [of c] length_input_vals [OF ins(1)] j eq
      by auto
    then have 1: "rrdo (add_out c scr (word_of_int w)) s1 = Inr (r, s1)"
      using rrdo_same [of s1 "add_out c scr (word_of_int w)"] up assms(6) by (simp add: synced_def)
    have 2: "rrdo (addSRC r) s1 = Inr ((), s1\<lparr>rr := rr_failed (rr s), pkilled := True\<rparr>)"
      using rrdo_synced [of s1 "addSRC r"] full up assms(6) by (simp add: synced_def rr_failed_def)
    have "ret_output r (s1\<lparr>rr := rr_failed (rr s), pkilled := True\<rparr>) = Inr (v, s')"
      using b eq(2) w 1 2 by simp
    from keepsD [OF failed_ret_output this] assms(2) show False by (simp add: rr_failed_def)
  qed
  obtain r where "handler c s = Inr (sint (word_of_int w :: i32), s1\<lparr>rr := stored i r (rr s)\<rparr>)"
    "scr_is r (fst (call c ins (word_of_int w))) (snd (call c ins (word_of_int w)))"
    using records [OF assms(3-7) i ins w] by blast
  with assms(1) ins i w that show ?thesis by auto
qed

text \<open>Replaying gives the recorded result and changes nothing but the position in the recording.\<close>

lemma replays:
  assumes "replaying s" "rr_ok (rr s)" "synced s" "scrs_idx (rr s) = int i" "i < MAX_SCRS"
    and ins: "input_vals (specs c) s = Some ins" "list_all aarg_ok ins"
    and r: "scr_is (recorded_scrs (rr s) ! i) (fst (call c ins w)) (snd (call c ins w))"
  shows "handler c s = Inr (sint w, s\<lparr>rr := (rr s)\<lparr>scrs_idx := int (Suc i)\<rparr>\<rparr>)"
proof -
  let ?r = "recorded_scrs (rr s) ! i" and ?n = "word_of_int (num c) :: byte"
  have len: "length ins = length (specs c)" by (rule length_input_vals [OF ins(1)])
  obtain scr where scr: "add_inputs (specs c) (createSCR (num c) (rr s)) s = Inr (scr, s)"
    "scr_is scr ?n ins"
    using new_inputs [OF ins(1) assms(3,2) _ ins(2)] arity [of c] by auto
  have rr: "scr_is ?r ?n (ins @ [out c w])" using r by (simp add: call_def)
  have "?n \<noteq> 0" using replayable_call [OF len input_vals_comparable [OF ins(1)] ins(2)]
    by (simp add: replayable_def acall_ok_def call_def)
  moreover have "list_all2 same_kind ins ins"
    using input_vals_comparable [OF ins(1)] by (simp add: list_all2_same list_all_iff)
  ultimately have "compareSCRS scr (rr s) = Inr (?r, (rr s)\<lparr>scrs_idx := int (Suc i)\<rparr>)"
    using compareSCRS_spec [OF assms(4,5) rr _ scr(2)] outpos [of c] len assms(4)
    by (simp add: Let_def add.commute)
  then have 1: "rrdo (compareSCRS scr) s = Inr (?r, s\<lparr>rr := (rr s)\<lparr>scrs_idx := int (Suc i)\<rparr>\<rparr>)"
    by (intro rrdo_keep_killed [OF assms(3)]) simp_all
  have "out_num ?r t = Inr (w, t)" for t :: "'z sysst_scheme"
    using out_num_is [OF rr, of "length ins" w] outpos [of c] len local.out_num [of c w]
    by (simp add: nth_append)
  then show ?thesis using assms(1) scr(1) 1 by (simp add: shape rr_call_def ret_output_def)
qed

subsection \<open>Whole programs\<close>

text \<open>\<open>trace s0 prog k past ds vs\<close>: after the results \<open>past\<close> the program makes the calls \<open>ds\<close> in
  its next \<open>k\<close> steps and ends with the results \<open>vs\<close>.\<close>

inductive trace :: "'z sysst_scheme \<Rightarrow> 'c program \<Rightarrow> nat \<Rightarrow> int list \<Rightarrow> acall list \<Rightarrow> int list \<Rightarrow> bool"
  for s0 prog where
  out_of_steps: "trace s0 prog 0 past [] past"
| halt: "prog past = None \<Longrightarrow> trace s0 prog (Suc k) past [] past"
| step: "prog past = Some (c, m, e) \<Longrightarrow> input_vals (specs c) (s0\<lparr>umem := m, esp := e\<rparr>) = Some ins \<Longrightarrow>
    list_all aarg_ok ins \<Longrightarrow> trace s0 prog k (past @ [sint w]) ds vs \<Longrightarrow>
    trace s0 prog (Suc k) past (call c ins w # ds) vs"

lemma run_sticky: "keeps failed (run_prog handler k prog past)"
proof (induction k arbitrary: past)
  case (Suc k)
  have "keeps failed (md (\<lambda>s. s\<lparr>umem := m, esp := e\<rparr>))" for m e by (rule keeps_md) simp
  then show ?case unfolding run_prog.simps by (intro keep_intros handler_sticky Suc.IH)
qed (simp add: keep_intros)

lemma rec_inv_stored:
  assumes "rec_inv s cs" "work c s = Inr (w, s1)" "input_vals (specs c) s = Some ins" "list_all aarg_ok ins"
    "length cs < MAX_SCRS" "scr_is r (fst (call c ins v)) (snd (call c ins v))"
  shows "rec_inv (s1\<lparr>rr := stored (length cs) r (rr s)\<rparr>) (cs @ [call c ins v])"
proof -
  have up: "rr s1 = rr s" "pkilled s1 = pkilled s" "mypid s1 = mypid s"
    using work_frame [OF assms(2)] by (simp_all add: user_part_def)
  have len: "length (recorded_scrs (rr s)) = MAX_SCRS" using assms(1) by (simp add: rec_inv_def rr_ok_def)
  have "holds_calls ((recorded_scrs (rr s))[length cs := r]) 0 (cs @ [call c ins v])"
    using holds_calls_snoc [of "recorded_scrs (rr s)" cs r "fst (call c ins v)" "snd (call c ins v)"]
      assms(1,5,6) len by (simp add: rec_inv_def)
  moreover have "rr_ok (stored (length cs) r (rr s))"
    using rr_ok_store [of "rr s" r "int (Suc (length cs))" "length cs"] assms(1,6)
    by (simp add: rec_inv_def stored_def scr_is_def)
  moreover have "replayable (call c ins v)"
    using replayable_call length_input_vals [OF assms(3)] input_vals_comparable [OF assms(3)] assms(4) by blast
  ultimately show ?thesis
    using assms(1,5) up
    by (auto simp: rec_inv_def stored_def synced_def recording_def replaying_def isRecording_def isReplaying_def)
qed

lemma run_records:
  assumes "run_prog handler k prog past s = Inr (vs, s')" "\<not> failed s'" "rec_inv s cs" "sz s = sz s0"
  shows "\<exists>ds. trace s0 prog k past ds vs \<and> rec_inv s' (cs @ ds)"
  using assms
proof (induction k arbitrary: past s cs)
  case 0
  then show ?case by (auto intro: out_of_steps)
next
  case (Suc k)
  show ?case
  proof (cases "prog past")
    case None
    then show ?thesis using Suc.prems by (auto intro: halt)
  next
    case (Some x)
    obtain c m e where p: "prog past = Some (c, m, e)" using Some by (cases x) auto
    let ?s = "s\<lparr>umem := m, esp := e\<rparr>"
    obtain v s1 where v: "handler c ?s = Inr (v, s1)"
      and rest: "run_prog handler k prog (past @ [v]) s1 = Inr (vs, s')"
      using Suc.prems(1) p by (auto elim: bnd_eq_InrE)
    have inv: "rec_inv ?s cs" using Suc.prems(3) by (simp add: rec_inv_def synced_def recording_def replaying_def)
    have nf: "\<not> failed s1" using keepsD [OF run_sticky rest] Suc.prems(2) by blast
    have f: "recording ?s" "\<not> replaying ?s" "rr_ok (rr ?s)" "synced ?s" "scrs_idx (rr ?s) = int (length cs)"
      using inv by (simp_all add: rec_inv_def)
    obtain ins w s2 r where i: "input_vals (specs c) ?s = Some ins" "list_all aarg_ok ins"
      "length cs < MAX_SCRS" "work c ?s = Inr (w, s2)" "v = sint (word_of_int w :: i32)"
      "s1 = s2\<lparr>rr := stored (length cs) r (rr ?s)\<rparr>"
      "scr_is r (fst (call c ins (word_of_int w))) (snd (call c ins (word_of_int w)))"
      by (rule records_or_fails [OF v nf f])
    let ?c = "call c ins (word_of_int w)"
    have inv1: "rec_inv s1 (cs @ [?c])"
      unfolding i(6) using rec_inv_stored [OF inv i(4,1,2,3,7)] by simp
    have "sz s1 = sz s0" using work_frame [OF i(4)] i(6) Suc.prems(4) by (simp add: user_part_def)
    then obtain ds where ds: "trace s0 prog k (past @ [v]) ds vs" "rec_inv s' ((cs @ [?c]) @ ds)"
      using Suc.IH [OF rest Suc.prems(2) inv1] by blast
    have "input_vals (specs c) (s0\<lparr>umem := m, esp := e\<rparr>) = Some ins"
      using i(1) input_vals_cong [of "s0\<lparr>umem := m, esp := e\<rparr>" ?s] Suc.prems(4) by simp
    then have "trace s0 prog (Suc k) past (?c # ds) vs"
      using ds(1) i(2,5) by (intro step [where prog = prog, OF p]) simp_all
    then show ?thesis using ds(2) by auto
  qed
qed

lemma run_replays:
  assumes "trace s0 prog k past ds vs" "rep_inv t i ds" "sz t = sz s0"
  shows "\<exists>m e. run_prog handler k prog past t
     = Inr (vs, t\<lparr>umem := m, esp := e, rr := (rr t)\<lparr>scrs_idx := int (i + length ds)\<rparr>\<rparr>)"
  using assms
proof (induction arbitrary: t i)
  case (out_of_steps past)
  then show ?case by (intro exI [of _ "umem t"] exI [of _ "esp t"]) (simp add: rep_inv_def)
next
  case (halt past k)
  then show ?case by (intro exI [of _ "umem t"] exI [of _ "esp t"]) (simp add: rep_inv_def)
next
  case (step past c m e ins k w ds vs)
  let ?t = "t\<lparr>umem := m, esp := e\<rparr>" and ?c = "call c ins w"
  let ?u = "?t\<lparr>rr := (rr t)\<lparr>scrs_idx := int (Suc i)\<rparr>\<rparr>"
  have "input_vals (specs c) ?t = Some ins"
    using step.hyps(2) input_vals_cong [of "s0\<lparr>umem := m, esp := e\<rparr>" ?t] step.prems(2) by simp
  then have h: "handler c ?t = Inr (sint w, ?u)"
    using replays [of ?t i c ins w] step.prems(1) step.hyps(3)
    by (cases ?c) (simp add: rep_inv_def replaying_def synced_def holds_calls_Cons)
  have "rep_inv ?u (Suc i) ds"
    using step.prems(1) by (cases ?c) (simp add: rep_inv_def replaying_def isReplaying_def synced_def holds_calls_Cons rr_ok_def)
  then obtain m' e' where "run_prog handler k prog (past @ [sint w]) ?u
      = Inr (vs, ?u\<lparr>umem := m', esp := e', rr := (rr ?u)\<lparr>scrs_idx := int (Suc i + length ds)\<rparr>\<rparr>)"
    using step.IH [of ?u "Suc i"] step.prems(2) by auto
  then show ?case using h step.hyps(1) by (intro exI [of _ m'] exI [of _ e']) simp
qed

end

end
