(* ===== verification/Recorder.thy ===== *)
theory Recorder
  imports Determinism
begin

text \<open>
  The recorder's guarantees for the system calls of uniform shape: the recording branches do
  the work of the original code, recording is transparent, and a program replayed from the
  recording of an earlier run gets the results of that run.
\<close>

section \<open>The two copies of the work\<close>

lemma link_rec_orig: "link_rec = link_orig"
  unfolding link_rec_def link_orig_def Let_def by (rule refl)

lemma unlink_rec_orig: "unlink_rec = unlink_orig"
  unfolding unlink_rec_def unlink_orig_def Let_def by (rule refl)

lemma open_rec_orig: "open_rec = open_orig"
  unfolding open_rec_def open_orig_def open_inode_def open_fd_def by (rule refl)

lemmas rec_orig = link_rec_orig unlink_rec_orig open_rec_orig
  close_rec_def [folded close_orig_def] mkdir_rec_def [folded mkdir_orig_def]
  mknod_rec_def [folded mknod_orig_def] chdir_rec_def [folded chdir_orig_def]


section \<open>The nine handlers as a family\<close>

datatype rcall = CGetpid | CUptime | CClose | CLink | CUnlink | COpen | CMkdir | CMknod | CChdir

primrec sys_of :: "rcall \<Rightarrow> ('z sysst_scheme, int) kfun" where
  "sys_of CGetpid = sys_getpid" | "sys_of CUptime = sys_uptime" | "sys_of CClose = sys_close"
| "sys_of CLink = sys_link" | "sys_of CUnlink = sys_unlink" | "sys_of COpen = sys_open"
| "sys_of CMkdir = sys_mkdir" | "sys_of CMknod = sys_mknod" | "sys_of CChdir = sys_chdir"

primrec call_num :: "rcall \<Rightarrow> int" where
  "call_num CGetpid = SYS_getpid" | "call_num CUptime = SYS_uptime" | "call_num CClose = SYS_close"
| "call_num CLink = SYS_link" | "call_num CUnlink = SYS_unlink" | "call_num COpen = SYS_open"
| "call_num CMkdir = SYS_mkdir" | "call_num CMknod = SYS_mknod" | "call_num CChdir = SYS_mkdir"

primrec call_ins :: "rcall \<Rightarrow> inspec list" where
  "call_ins CGetpid = []" | "call_ins CUptime = []" | "call_ins CClose = [IInt 0]"
| "call_ins CLink = [IStr 0, IStr 1]" | "call_ins CUnlink = [IStr 0]" | "call_ins COpen = [IStr 0, IInt 1]"
| "call_ins CMkdir = [IStr 0]" | "call_ins CMknod = [IStr 0, IInt 1, IInt 2]" | "call_ins CChdir = [IStr 0]"

definition call_add :: "rcall \<Rightarrow> SCR \<Rightarrow> i32 \<Rightarrow> (rrst, SCR) kfun" where
  "call_add c = (if c = CUptime then addUInt else addInt)"

definition call_out :: "rcall \<Rightarrow> i32 \<Rightarrow> aarg" where
  "call_out c = (if c = CUptime then AUInt else AInt)"

text \<open>The system call as it is without a recorder.\<close>

primrec orig_of :: "rcall \<Rightarrow> ('z sysst_scheme, int) kfun" where
  "orig_of CGetpid = rd mypid" | "orig_of CUptime = read_ticks" | "orig_of CClose = close_orig"
| "orig_of CLink = link_orig" | "orig_of CUnlink = unlink_orig" | "orig_of COpen = open_orig"
| "orig_of CMkdir = mkdir_orig" | "orig_of CMknod = mknod_orig" | "orig_of CChdir = chdir_orig"

lemma frame_orig: "frame u (orig_of c)"
proof -
  have "frame u read_ticks" unfolding read_ticks_def by (intro keep_intros)
  then show ?thesis
    using frame_calls [of u] by (cases c) (simp_all add: rec_orig keep_intros)
qed

interpretation rcs: recorded_calls sys_of call_num call_ins call_add call_out orig_of
proof
  fix c :: rcall and r m as and q :: rrst and w u
  show "sys_of c = rr_call (call_num c) (call_ins c) (call_add c) (orig_of c) (orig_of c)"
    by (cases c) (simp_all add: call_add_def rec_orig sys_getpid_def sys_uptime_def sys_close_def
        sys_link_def sys_unlink_def sys_open_def sys_mkdir_def sys_mknod_def sys_chdir_def)
  show "0 < call_num c" "call_num c < 256" "length (call_ins c) < MAX_ARGC"
    "get1stOutputPos (call_num c) = int (length (call_ins c))"
    by (cases c; simp add: get1stOutputPos_def)+
  show "scr_is r m as \<Longrightarrow> length as < MAX_ARGC \<Longrightarrow> length (junk q) = VAL_SIZE \<Longrightarrow>
      \<exists>r'. call_add c r w q = Inr (r', q) \<and> scr_is r' m (as @ [call_out c w])"
    using addInt_is addUInt_is by (simp add: call_add_def call_out_def)
  show "num_of (call_out c w) = Some w" by (simp add: call_out_def)
  show "keeps rfailed (call_add c r w)" unfolding call_add_def by (simp add: keep_intros)
  show "keeps (\<lambda>s. user_part s = u) (orig_of c)" by (rule frame_orig)
qed


section \<open>A sample machine\<close>

text \<open>A machine just booted, as far as the recorder is concerned.\<close>

definition sample_sys :: "rrst \<Rightarrow> sysst" where
  "sample_sys r = \<lparr>held = {}, slocks = (\<lambda>_. \<lparr>sl_locked = False, sl_pid = 0\<rparr>), mypid = rr_pid r, pkilled = False,
     kend = 0, kuse_lock = True, kfreelist = 0, pages = (\<lambda>_. []), pipes = (\<lambda>_. None),
     input = \<lparr>in_buf = replicate INPUT_BUF 0, in_r = 0, in_w = 0, in_e = 0\<rparr>, cons_out = [],
     bufs = [], blru = [], idequeue = [], havedisk1 = True, disk = (\<lambda>_ _. []), dwrites = [],
     log_start = 2, log_size = 30, log_outstanding = 0, log_committing = False, log_dev = 1, log_lh = [],
     sb = \<lparr>sb_size = 0, sb_nblocks = 0, sb_ninodes = 0, sb_nlog = 0, sb_logstart = 0, sb_inodestart = 0,
       sb_bmapstart = 0\<rparr>,
     icache = [], cwd = 0, devsw_cons = True, ftable = [], ofile = replicate NOFILE None,
     umem = (\<lambda>_. 7), sz = 4096, esp = 0, ticks = 5, rr = r\<rparr>"

lemma sample_sys_fields [simp]:
  "mypid (sample_sys r) = rr_pid r" "pkilled (sample_sys r) = False" "sz (sample_sys r) = 4096"
  "rr (sample_sys r) = r"
  by (simp_all add: sample_sys_def)

text \<open>\<open>getpid()\<close> and then \<open>close\<close> of a number that is no descriptor.\<close>

definition sample_prog :: "rcall program" where
  "sample_prog past = (if past = [] then Some (CGetpid, \<lambda>_. 7, 0)
     else if past = [3] then Some (CClose, \<lambda>_. 7, 0) else None)"

section \<open>Transparency\<close>

text \<open>C2: Recording is transparent.  A recording process whose arguments can be fetched and fit a
  record gets from each of the nine calls exactly what the call without a recorder gives: the
  same result (as the 32-bit integer it returns), and the same state but for the one record
  stored, which says the call, its inputs and its result.\<close>

theorem recording_transparent:
  assumes "recording s" "\<not> replaying s" "rr_ok (rr s)" "synced s" "scrs_idx (rr s) = int i" "i < MAX_SCRS"
    and "input_vals (call_ins c) s = Some ins" "list_all aarg_ok ins" and "orig_of c s = Inr (w, s1)"
  shows "\<exists>r. sys_of c s = Inr (sint (word_of_int w :: i32), s1\<lparr>rr := stored i r (rr s)\<rparr>) \<and>
     scr_is r (word_of_int (call_num c)) (ins @ [call_out c (word_of_int w)])"
  using rcs.records [OF assms] by (simp add: rcs.call_def)

lemma sample_close:
  assumes "umem s = (\<lambda>_. 7)" "esp s = 0" "sz s = 4096"
  shows "input_vals (call_ins CClose) s = Some [AInt 0x07070707]" "orig_of CClose s = Inr (-1, s)"
proof -
  have "umem_read 4 4 s = [7, 7, 7, 7]" using assms(1) by (simp add: umem_read_def)
  then have m: "get32 (umem_read 4 4 s) = 0x07070707" by (simp add: get32_def)
  have "argint 0 s = fetchint 4 s" using assms(2) by (simp add: argint_def)
  also have "\<dots> = Some (get32 (umem_read 4 4 s))" using assms(3) by (simp add: fetchint_def)
  finally have a: "argint 0 s = Some 0x07070707" unfolding m .
  then show "input_vals (call_ins CClose) s = Some [AInt 0x07070707]" by simp
  show "orig_of CClose s = Inr (-1, s)"
    using a by (simp add: close_orig_def argfd_def fd_file_def)
qed

theorem recording_transparent_witness:
  "\<exists>r. sys_of CClose (sample_sys (sample_rr 1 0))
       = Inr (-1, (sample_sys (sample_rr 1 0))\<lparr>rr := stored 0 r (sample_rr 1 0)\<rparr>) \<and>
     scr_is r 21 [AInt 0x07070707, AInt (-1)]"
proof -
  let ?s = "sample_sys (sample_rr 1 0)"
  have u: "umem ?s = (\<lambda>_. 7)" "esp ?s = 0" "sz ?s = 4096" by (simp_all add: sample_sys_def)
  show ?thesis
    using recording_transparent [of ?s 0 CClose "[AInt 0x07070707]" "-1" ?s] sample_close [OF u]
    by (simp add: recording_def isRecording_def replaying_def isReplaying_def rr_ok_sample synced_def
        call_out_def)
qed

section \<open>Deterministic replay\<close>

text \<open>The size of a recording in its file.\<close>

definition scr_bytes :: "SCR \<Rightarrow> nat" where
  "scr_bytes r = 2 + (\<Sum>a \<leftarrow> take (unat (scr_argc r)) (scr_args r).
     case arg_view a of None \<Rightarrow> 1 | Some x \<Rightarrow> length (enc_arg x))"

definition session_bytes :: "rrst \<Rightarrow> nat" where
  "session_bytes s = 4 + (\<Sum>r \<leftarrow> take (nat (scrs_idx s)) (recorded_scrs s). scr_bytes r)"

lemma scr_bytes_is:
  assumes "scr_is r n as"
  shows "scr_bytes r = length (enc_scr n as)"
proof -
  let ?f = "\<lambda>v. case v of None \<Rightarrow> 1 | Some x \<Rightarrow> length (enc_arg x)"
  have "map arg_view (take (unat (scr_argc r)) (scr_args r)) = map Some as"
    using assms by (auto simp: scr_is_def scr_views_def)
  then have "map (?f \<circ> arg_view) (take (unat (scr_argc r)) (scr_args r)) = map (?f \<circ> Some) as"
    by (metis map_map)
  then show ?thesis by (simp add: scr_bytes_def enc_scr_def enc_args_def length_concat comp_def)
qed

lemma session_bytes_calls:
  assumes "holds_calls (recorded_scrs s) 0 cs" "scrs_idx s = int (length cs)" "length cs \<le> length (recorded_scrs s)"
  shows "session_bytes s = length (enc_session cs)"
proof -
  have "map scr_bytes (take (length cs) (recorded_scrs s)) = map (\<lambda>c. length (enc_scr (fst c) (snd c))) cs"
    using assms(1,3) by (auto simp: list_eq_iff_nth_eq holds_calls_def scr_bytes_is)
  then show ?thesis
    using assms(2) by (simp add: session_bytes_def enc_session_def enc_calls_def length_concat comp_def case_prod_beta)
qed

text \<open>C1: Deterministic replay.  A program runs against a recording kernel (freshly started), making
  up to \<open>k\<close> of the nine recorded calls; its calls may depend on all earlier results.  If the
  recorder did not give up and the recording fits its file, then packing it succeeds, and any
  process \<open>t\<close> of the same size that loads and unpacks it and runs the same program in replay
  mode gets exactly the same results.  The replaying kernel's state does not matter and is not
  touched: only the position in the recording and the user's own memory change.\<close>

theorem deterministic_replay:
  fixes s t :: "'z sysst_scheme"
  assumes "recording s" "\<not> replaying s" "rr_ok (rr s)" "synced s" "scrs_idx (rr s) = 0"
    and "run_prog sys_of k prog [] s = Inr (vs, s')" "record_syscalls (rr s') \<noteq> -1"
    and "session_bytes (rr s') \<le> MAX_FILE_SIZE"
    and "replaying t" "record_syscalls (rr t) \<noteq> 1" "rr_ok (rr t)" "synced t" "buffer_pos (rr t) = 0" "sz t = sz s"
  shows "\<exists>r2 t1 m e i. record_pack (rr s') = Inr (0, r2) \<and>
     replay_unpack (buffer_pos r2) (loaded r2 (rr t)) = Inr (0, t1) \<and>
     run_prog sys_of k prog [] (t\<lparr>rr := t1\<rparr>) = Inr (vs, t\<lparr>umem := m, esp := e, rr := t1\<lparr>scrs_idx := i\<rparr>\<rparr>)"
proof -
  have "rec_inv s []" using assms(1-5) by (simp add: rec_inv_def holds_calls_def)
  then obtain cs where cs: "rcs.trace s prog k [] cs vs" "rec_inv s' cs"
    using rcs.run_records [OF assms(6,7), of "[]" s] by auto
  have inv: "rr_ok (rr s')" "scrs_idx (rr s') = int (length cs)" "length cs \<le> MAX_SCRS"
    "holds_calls (recorded_scrs (rr s')) 0 cs" "\<forall>c \<in> set cs. replayable c"
    "record_syscalls (rr s') = 1" "replay_syscalls (rr s') \<noteq> 1"
    using cs(2) by (auto simp: rec_inv_def recording_def replaying_def isRecording_def isReplaying_def)
  have ok: "\<forall>c \<in> set cs. fst c \<noteq> 0" "\<forall>c \<in> set cs. acall_ok c"
    using inv(5) by (auto simp: replayable_def acall_ok_def)
  have size: "length (enc_session cs) \<le> MAX_FILE_SIZE"
    using session_bytes_calls [OF inv(4,2)] inv(1,3) assms(8) by (simp add: rr_ok_def)
  obtain r2 where r2: "record_pack (rr s') = Inr (0, r2)"
    "slice 0 (length (enc_session cs)) (buffer r2) = enc_session cs"
    "buffer_pos r2 = int (length (enc_session cs))" "length (buffer r2) = MAX_FILE_SIZE"
    using record_pack_spec [OF inv(1,6,7,2,3,4) ok(1) size] by blast
  have rp: "replay_syscalls (rr t) = 1" "rr_pid (rr t) = mypid t"
    using assms(9) by (simp_all add: replaying_def isReplaying_def)
  have "slice 0 (length (enc_session cs)) (buffer (loaded r2 (rr t))) = enc_session cs"
    using r2(2-4) size assms(11) by (simp add: loaded_def rr_ok_def)
  moreover have "rr_ok (loaded r2 (rr t))" using r2(3,4) size assms(11) by (intro rr_ok_loaded) simp_all
  ultimately obtain t1 where t1: "replay_unpack (buffer_pos r2) (loaded r2 (rr t)) = Inr (0, t1)" "rr_ok t1"
    "holds_calls (recorded_scrs t1) 0 cs" "scrs_idx t1 = 0" "killed t1 = killed (rr t)"
    "replay_syscalls t1 = 1" "rr_pid t1 = rr_pid (rr t)"
    using replay_unpack_spec [of "loaded r2 (rr t)" cs "buffer_pos r2"] r2(3) inv(3) ok(2) size assms(10,13) rp
    by (auto simp: loaded_def)
  have "rep_inv (t\<lparr>rr := t1\<rparr>) 0 cs"
    using t1 inv(3) rp assms(12) by (simp add: rep_inv_def replaying_def isReplaying_def synced_def)
  from rcs.run_replays [OF cs(1) this] obtain m e where
    "run_prog sys_of k prog [] (t\<lparr>rr := t1\<rparr>)
      = Inr (vs, t\<lparr>umem := m, esp := e, rr := t1\<lparr>scrs_idx := int (length cs)\<rparr>\<rparr>)"
    using assms(14) by auto
  then show ?thesis using r2(1) t1(1) by blast
qed

lemma sample_getpid: "input_vals (call_ins CGetpid) s = Some []" "orig_of CGetpid s = Inr (mypid s, s)"
  by simp_all

lemma sample_run:
  "\<exists>s'. run_prog sys_of 2 sample_prog [] (sample_sys (sample_rr 1 0)) = Inr ([3, -1], s') \<and>
     record_syscalls (rr s') \<noteq> -1 \<and> session_bytes (rr s') \<le> MAX_FILE_SIZE"
proof -
  let ?s = "(sample_sys (sample_rr 1 0))\<lparr>umem := \<lambda>_. 7, esp := 0\<rparr>"
  note simps = recording_def isRecording_def replaying_def isReplaying_def synced_def sample_rr_def
  obtain r where r: "sys_of CGetpid ?s = Inr (3, ?s\<lparr>rr := stored 0 r (sample_rr 1 0)\<rparr>)"
    "scr_is r 11 [AInt 3]"
    using rcs.records [of ?s 0 CGetpid "[]" 3 ?s] sample_getpid [of ?s] rr_ok_sample [of 1 0]
    by (auto simp: simps rcs.call_def call_out_def)
  let ?q = "stored 0 r (sample_rr 1 0)"
  let ?t = "(?s\<lparr>rr := ?q\<rparr>)\<lparr>umem := \<lambda>_. 7, esp := 0\<rparr>"
  have ok: "rr_ok ?q"
    using rr_ok_store [OF rr_ok_sample [of 1 0], of r 1 0] r(2) by (simp add: stored_def scr_is_def)
  have t: "umem ?t = (\<lambda>_. 7)" "esp ?t = 0" "sz ?t = 4096" by simp_all
  obtain r' where r': "sys_of CClose ?t = Inr (-1, ?t\<lparr>rr := stored 1 r' ?q\<rparr>)"
    "scr_is r' 21 [AInt 0x07070707, AInt (-1)]"
    using rcs.records [of ?t 1 CClose "[AInt 0x07070707]" "-1" ?t] sample_close [OF t] ok
    by (auto simp: simps rcs.call_def call_out_def stored_def)
  let ?s' = "?t\<lparr>rr := stored 1 r' ?q\<rparr>"
  have run: "run_prog sys_of 2 sample_prog [] (sample_sys (sample_rr 1 0)) = Inr ([3, -1], ?s')"
    using r(1) r'(1) by (simp add: numeral_2_eq_2 sample_prog_def)
  have len: "length (recorded_scrs (sample_rr 1 0)) = MAX_SCRS" by (simp add: sample_rr_def)
  have "holds_calls (recorded_scrs (rr ?s')) 0 [(11, [AInt 3]), (21, [AInt 0x07070707, AInt (-1)])]"
    using r(2) r'(2) len by (simp add: holds_calls_Cons stored_def) (simp add: holds_calls_def)
  from session_bytes_calls [OF this] len have "session_bytes (rr ?s') \<le> MAX_FILE_SIZE"
    by (simp add: stored_def enc_session_def enc_scr_def enc_arg_def)
  moreover have "record_syscalls (rr ?s') \<noteq> -1" by (simp add: stored_def)
  ultimately show ?thesis using run by blast
qed

text \<open>The replaying process has another process number and another clock, and still sees the
  recorded number.\<close>

theorem deterministic_replay_witness:
  "\<exists>s' r2 t1 t'. run_prog sys_of 2 sample_prog [] (sample_sys (sample_rr 1 0)) = Inr ([3, -1], s') \<and>
     record_pack (rr s') = Inr (0, r2) \<and>
     replay_unpack (buffer_pos r2) (loaded r2 ((sample_rr 0 1)\<lparr>rr_pid := 9\<rparr>)) = Inr (0, t1) \<and>
     run_prog sys_of 2 sample_prog [] ((sample_sys t1)\<lparr>mypid := 9, ticks := 77\<rparr>) = Inr ([3, -1], t')"
proof -
  let ?s = "sample_sys (sample_rr 1 0)" and ?r = "(sample_rr 0 1)\<lparr>rr_pid := 9\<rparr>"
  let ?t = "(sample_sys ?r)\<lparr>ticks := 77\<rparr>"
  obtain s' where s': "run_prog sys_of 2 sample_prog [] ?s = Inr ([3, -1], s')"
    "record_syscalls (rr s') \<noteq> -1" "session_bytes (rr s') \<le> MAX_FILE_SIZE"
    using sample_run by blast
  note simps = recording_def isRecording_def replaying_def isReplaying_def synced_def
  have "rr_ok ?r" using rr_ok_sample [of 0 1] by (simp add: rr_ok_def)
  then obtain r2 t1 m e i where "record_pack (rr s') = Inr (0, r2)"
    "replay_unpack (buffer_pos r2) (loaded r2 ?r) = Inr (0, t1)"
    "run_prog sys_of 2 sample_prog [] (?t\<lparr>rr := t1\<rparr>) = Inr ([3, -1], ?t\<lparr>umem := m, esp := e, rr := t1\<lparr>scrs_idx := i\<rparr>\<rparr>)"
    using deterministic_replay [of ?s 2 sample_prog "[3, -1]" s' ?t] s' rr_ok_sample [of 1 0]
    by (auto simp: simps)
  moreover have "?t\<lparr>rr := t1\<rparr> = (sample_sys t1)\<lparr>mypid := 9, ticks := 77\<rparr>" by (simp add: sample_sys_def)
  ultimately show ?thesis using s'(1) by auto
qed

end
