(* ===== verification/Readcall.thy ===== *)
theory Readcall
  imports Recorder
begin

text \<open>
  The calls with memory outputs: what \<open>read\<close> and \<open>fstat\<close> record and what their replay stores in
  user memory, and the two ways in which recording a \<open>read\<close> leaves its objects.
\<close>

section \<open>read\<close>

lemma read_rec_frame:
  assumes "read_rec s = Inr ((v, q), s1)"
  shows "rr s1 = rr s \<and> pkilled s1 = pkilled s \<and> sz s1 = sz s \<and> esp s1 = esp s \<and>
     q = map_option (snd \<circ> snd) (io_args s)"
proof (cases "io_args s")
  case None
  then show ?thesis using assms by (simp add: read_rec_def)
next
  case (Some a)
  obtain f n p where a: "io_args s = Some (f, n, p)" using Some by (cases a) auto
  from assms a obtain r bs s2 where f: "fileread f n s = Inr ((r, bs), s2)"
    and s1: "s1 = s2\<lparr>umem := (\<lambda>x. if p \<le> x \<and> x < p + length bs then bs ! (x - p) else umem s2 x)\<rparr>"
    and q: "q = Some p"
    by (auto simp: read_rec_def umem_write_def elim!: bnd_eq_InrE)
  have "user_part s2 = user_part s" using f by (intro frameD [where m = "fileread f n"] frame_fileread)
  then show ?thesis using s1 q a by (simp add: user_part_def)
qed

lemma io_args_inputs:
  assumes "input_vals [IInt 0, IInt 2] s = Some [AInt fd, AInt n]" "fd_file (sint fd) s = Some f"
    "argptr 1 (sint n) s = Some p"
  shows "io_args s = Some (f, sint n, p)" "argint 0 s = Some fd" "argint 2 s = Some n"
proof -
  show a: "argint 0 s = Some fd" "argint 2 s = Some n" using assms(1) by (auto split: option.splits)
  show "io_args s = Some (f, sint n, p)" using a assms(2,3) by (simp add: io_args_def argfd_def)
qed

lemma args_rr [simp]: "argint k (s\<lparr>rr := r\<rparr>) = argint k s" "argptr k l (s\<lparr>rr := r\<rparr>) = argptr k l s"
  by (simp_all add: argptr_def argint_def fetchint_def umem_read_def cong: option.case_cong)

definition replay_ready :: "'z sysst_scheme \<Rightarrow> nat \<Rightarrow> bool" where
  "replay_ready t j \<longleftrightarrow> replaying t \<and> rr_ok (rr t) \<and> synced t \<and> scrs_idx (rr t) = int j \<and> j < MAX_SCRS \<and>
     sz t \<le> 2 ^ 31"

lemma read_pos: "get1stOutputPos (uint (5 :: byte)) = 2"
  by (simp add: get1stOutputPos_def)

abbreviation read_record :: "SCR \<Rightarrow> i32 \<Rightarrow> i32 \<Rightarrow> i32 \<Rightarrow> bytes \<Rightarrow> bool" where
  "read_record r fd n v d \<equiv> scr_is r 5 [AInt fd, AInt n, AInt v, ABytes d]"

lemma read_records:
  assumes "recording s" "\<not> replaying s" "rr_ok (rr s)" "synced s" "scrs_idx (rr s) = int i" "i < MAX_SCRS"
    and ins: "input_vals [IInt 0, IInt 2] s = Some [AInt fd, AInt n]"
    and p: "argptr 1 (sint n) s = Some p" "0 \<le> sint n" "sint n \<le> int MAX_RAW_SIZE" "p + nat (sint n) \<le> sz s"
    and v: "read_rec s = Inr ((v, Some p), s1)"
  shows "\<exists>r. sys_read s = Inr (sint (word_of_int v :: i32), s1\<lparr>rr := stored i r (rr s)\<rparr>) \<and>
     read_record r fd n (word_of_int v) (umem_read p (nat (sint n)) s1)"
proof -
  let ?v = "word_of_int v :: i32" and ?k = "nat (sint n)"
  have up: "rr s1 = rr s" "pkilled s1 = pkilled s" "sz s1 = sz s" using read_rec_frame [OF v] by auto
  have sy: "synced s1" using assms(4) up by (simp add: synced_def)
  have j: "length (junk (rr s)) = VAL_SIZE" using assms(3) by (simp add: rr_ok_def)
  obtain scr where scr: "add_inputs [IInt 0, IInt 2] (createSCR SYS_read (rr s)) s = Inr (scr, s)"
    "scr_is scr 5 [AInt fd, AInt n]"
    using new_inputs [OF ins assms(4,3), of SYS_read] by auto
  obtain r1 where r1: "addInt scr ?v (rr s) = Inr (r1, rr s)" "scr_is r1 5 [AInt fd, AInt n, AInt ?v]"
    using addInt_is [OF scr(2) _ j, of ?v] by auto
  let ?mem = "umem_read p (sz s - p) s1"
  have "take ?k ?mem = umem_read p ?k s1" using p(4) by (simp add: umem_read_def take_map)
  moreover have "?k \<le> MAX_RAW_SIZE" "?k \<le> length ?mem" "int ?k = sint n"
    using p(2-4) by (simp_all add: umem_read_def)
  ultimately obtain r where r: "addRaw r1 ?mem (sint n) (rr s) = Inr (r, rr s)"
    "read_record r fd n ?v (umem_read p ?k s1)"
    using addRaw_is [OF r1(2) _ j, of ?k ?mem] by auto
  have 1: "rrdo (addInt scr ?v) s1 = Inr (r1, s1)" "rrdo (addRaw r1 ?mem (sint n)) s1 = Inr (r, s1)"
    using rrdo_same [of s1 "addInt scr ?v", OF sy] rrdo_same [of s1 "addRaw r1 ?mem (sint n)", OF sy] r1(1) r(1) up(1)
    by simp_all
  have 2: "rrdo (addSRC r) s1 = Inr ((), s1\<lparr>rr := stored i r (rr s)\<rparr>)"
    using up(1) assms(5,6)
    by (intro rrdo_keep_killed [OF sy]) (simp_all add: addSRC_def stored_def add.commute)
  have 3: "out_num r t = Inr (?v, t)" for t :: "'a sysst_scheme"
    using out_num_is [OF r(2), of 2 ?v] by (simp add: get1stOutputPos_def)
  have "argint 2 s = Some n" using ins by (auto split: option.splits)
  then have "sys_read s = Inr (sint ?v, s1\<lparr>rr := stored i r (rr s)\<rparr>)"
    using assms(1,2) scr(1) v 1 2 3 up(3) by (simp add: sys_read_def ret_output_def)
  with r(2) show ?thesis by blast
qed

lemma read_replays:
  assumes "replaying t" "rr_ok (rr t)" "synced t" "scrs_idx (rr t) = int i" "i < MAX_SCRS"
    and ins: "input_vals [IInt 0, IInt 2] t = Some [AInt fd, AInt n]"
    and p: "argptr 1 (sint n) t = Some p" "0 \<le> sint n" "p + nat (sint n) \<le> sz t"
    and r: "read_record (recorded_scrs (rr t) ! i) fd n v d" "length d = nat (sint n)"
  shows "sys_read t = Inr (sint v, t\<lparr>rr := (rr t)\<lparr>scrs_idx := int (Suc i)\<rparr>,
     umem := (\<lambda>x. if p \<le> x \<and> x < p + length d then d ! (x - p) else umem t x)\<rparr>)"
proof -
  let ?r = "recorded_scrs (rr t) ! i" and ?t = "t\<lparr>rr := (rr t)\<lparr>scrs_idx := int (Suc i)\<rparr>\<rparr>"
  obtain scr where scr: "add_inputs [IInt 0, IInt 2] (createSCR SYS_read (rr t)) t = Inr (scr, t)"
    "scr_is scr 5 [AInt fd, AInt n]"
    using new_inputs [OF ins assms(3,2), of SYS_read] by auto
  have five: "(5 :: byte) \<noteq> 0" by simp
  have "compareSCRS scr (rr t) = Inr (?r, (rr t)\<lparr>scrs_idx := int (Suc i)\<rparr>)"
    using compareSCRS_spec [OF assms(4,5) r(1) five scr(2)] assms(4) read_pos
    by (simp only: Let_def) (simp add: add.commute)
  then have c: "rrdo (compareSCRS scr) t = Inr (?r, ?t)"
    by (intro rrdo_keep_killed [OF assms(3)]) simp_all
  have n: "argint 2 t = Some n" using ins by (auto split: option.splits)
  have n': "argint 2 ?t = Some n" "argptr 1 (sint n) ?t = Some p" using n p(1) by simp_all
  have sys: "scr_syscall ?r = 5" using r(1) by (simp add: scr_is_def)
  have d: "length d \<le> MAX_RAW_SIZE" "take (length d) (raw_data (arg_val (scr_args ?r ! 3))) = d"
    using raw_view_sizes [of "scr_args ?r ! 3" d] scr_is_nth [OF r(1), of 3] by simp_all
  have l: "val_num (arg_val (scr_args ?r ! 1)) = n"
    using val_num_view [of "scr_args ?r ! 1" "AInt n"] scr_is_nth [OF r(1), of 1] by simp
  have o: "out_num ?r u = Inr (v, u)" for u :: "'a sysst_scheme"
    using out_num_is [OF r(1), of 2 v] by (simp add: get1stOutputPos_def)
  have g: "get_arg ?r 3 u = Inr (scr_args ?r ! 3, u)" "get_arg ?r 1 u = Inr (scr_args ?r ! 1, u)"
    for u :: "'a sysst_scheme" by (simp_all add: get_arg_def)
  have "take (nat (sint n)) (raw_data (arg_val (scr_args ?r ! 3))) = d" using d(2) unfolding r(2) .
  moreover have "sint n \<le> 200" using d(1) r(2) by simp
  moreover have "umem_write p d ?t = Inr ((), ?t\<lparr>umem :=
      (\<lambda>x. if p \<le> x \<and> x < p + length d then d ! (x - p) else umem t x)\<rparr>)"
    by (simp add: umem_write_def cong: if_cong)
  ultimately have "read_replay ?r ?t = Inr (sint v, ?t\<lparr>umem :=
      (\<lambda>x. if p \<le> x \<and> x < p + length d then d ! (x - p) else umem t x)\<rparr>)"
    using n' sys g l p(2,3) o
    by (simp add: read_replay_def get1stOutputPos_def ret_output_def Let_def)
  then show ?thesis using assms(1) scr(1) c by (simp add: sys_read_def)
qed

text \<open>C5: \<open>read\<close> is recorded with the bytes it delivered, and its replay delivers them.  A recording
  process calls \<open>read\<close> with at most 200 bytes and gets the result of the work; if another process
  replays the call with the same descriptor and count and finds this record next, it gets the same
  result and the same bytes at its own buffer address, and nothing else of it changes but the
  position in the recording.\<close>

theorem read_roundtrip:
  fixes s :: "'z sysst_scheme"
  assumes "recording s" "\<not> replaying s" "rr_ok (rr s)" "synced s" "scrs_idx (rr s) = int i" "i < MAX_SCRS"
    and "input_vals [IInt 0, IInt 2] s = Some [AInt fd, AInt n]" "argptr 1 (sint n) s = Some p"
    and "sint n \<le> int MAX_RAW_SIZE" "sz s \<le> 2 ^ 31" "read_rec s = Inr ((v, Some p), s1)"
  shows "\<exists>r. sys_read s = Inr (sint (word_of_int v :: i32), s1\<lparr>rr := stored i r (rr s)\<rparr>) \<and>
     read_record r fd n (word_of_int v) (umem_read p (nat (sint n)) s1) \<and>
     (\<forall>(t :: 'z sysst_scheme) j a. replay_ready t j \<longrightarrow> recorded_scrs (rr t) ! j = r \<longrightarrow>
        input_vals [IInt 0, IInt 2] t = Some [AInt fd, AInt n] \<longrightarrow> argptr 1 (sint n) t = Some a \<longrightarrow>
      sys_read t = Inr (sint (word_of_int v :: i32), t\<lparr>rr := (rr t)\<lparr>scrs_idx := int (Suc j)\<rparr>,
        umem := (\<lambda>x. if a \<le> x \<and> x < a + nat (sint n) then umem s1 (p + (x - a)) else umem t x)\<rparr>))"
proof -
  have b: "0 \<le> sint n" "p + nat (sint n) \<le> sz s" using argptr_bounds [OF assms(8,10)] assms(9) by simp_all
  obtain r where r: "sys_read s = Inr (sint (word_of_int v :: i32), s1\<lparr>rr := stored i r (rr s)\<rparr>)"
    "read_record r fd n (word_of_int v) (umem_read p (nat (sint n)) s1)"
    using read_records [OF assms(1-8) b(1) assms(9) b(2) assms(11)] by blast
  let ?d = "umem_read p (nat (sint n)) s1"
  have len: "length ?d = nat (sint n)" by (simp add: umem_read_def)
  have nth: "?d ! k = umem s1 (p + k)" if "k < nat (sint n)" for k using that by (simp add: umem_read_def)
  have "sys_read t = Inr (sint (word_of_int v :: i32), t\<lparr>rr := (rr t)\<lparr>scrs_idx := int (Suc j)\<rparr>,
      umem := (\<lambda>x. if a \<le> x \<and> x < a + nat (sint n) then umem s1 (p + (x - a)) else umem t x)\<rparr>)"
    if t: "replay_ready t j" "recorded_scrs (rr t) ! j = r"
      "input_vals [IInt 0, IInt 2] t = Some [AInt fd, AInt n]" "argptr 1 (sint n) t = Some a"
    for t :: "'z sysst_scheme" and j a
  proof -
    have eq: "(\<lambda>x. if a \<le> x \<and> x < a + length ?d then ?d ! (x - a) else umem t x)
        = (\<lambda>x. if a \<le> x \<and> x < a + nat (sint n) then umem s1 (p + (x - a)) else umem t x)"
      using len nth by (intro ext if_cong) auto
    have ok: "replaying t" "rr_ok (rr t)" "synced t" "scrs_idx (rr t) = int j" "j < MAX_SCRS" "sz t \<le> 2 ^ 31"
      using t(1) by (simp_all add: replay_ready_def)
    have "a + nat (sint n) \<le> sz t" using argptr_bounds [OF t(4) ok(6)] assms(9) by simp
    then show ?thesis
      using read_replays [OF ok(1-5) t(3,4) b(1) _ _ len] r(2) t(2) unfolding eq by blast
  qed
  then show ?thesis using r by blast
qed

text \<open>The two bytes come from a pipe.  The argument words are 0 (the descriptor), 100 (the buffer) and
  2 (the count).\<close>

definition sample_umem :: "nat \<Rightarrow> byte" where
  "sample_umem a = (if a = 8 then 100 else if a = 12 then 2 else 0)"

definition sample_reader :: sysst where
  "sample_reader = (sample_sys (sample_rr 1 0))\<lparr>umem := sample_umem,
     ftable := [\<lparr>f_type = FD_PIPE, f_ref = 1, f_readable = True, f_writable = False, f_pipe = 7, f_ip = 0, f_off = 0\<rparr>],
     ofile := (replicate NOFILE None)[0 := Some 0],
     pipes := (\<lambda>_. Some \<lparr>p_data = [65, 66] @ replicate 510 0, nread = 0, nwrite = 2, readopen = True,
       writeopen = True\<rparr>)\<rparr>"

lemma sample_args:
  assumes "umem s = sample_umem" "esp s = 0" "sz s = 4096"
  shows "argint 0 s = Some 0" "argint 1 s = Some 100" "argint 2 s = Some 2" "argptr 1 2 s = Some 100"
proof -
  have m: "umem_read 4 4 s = [0, 0, 0, 0]" "umem_read 8 4 s = [100, 0, 0, 0]" "umem_read 12 4 s = [2, 0, 0, 0]"
    using assms(1) by (simp_all add: umem_read_def sample_umem_def)
  have "argint 0 s = fetchint 4 s" "argint 1 s = fetchint 8 s" "argint 2 s = fetchint 12 s"
    using assms(2) by (simp_all add: argint_def)
  moreover have "fetchint 4 s = Some (get32 (umem_read 4 4 s))" "fetchint 8 s = Some (get32 (umem_read 8 4 s))"
    "fetchint 12 s = Some (get32 (umem_read 12 4 s))"
    using assms(3) by (simp_all add: fetchint_def)
  ultimately show a: "argint 0 s = Some 0" "argint 1 s = Some 100" "argint 2 s = Some 2"
    unfolding m by (simp_all add: get32_def)
  show "argptr 1 2 s = Some 100" using a(2) assms(3) by (simp add: argptr_def)
qed

lemma sample_reader_work:
  "\<exists>s1. read_rec sample_reader = Inr ((2, Some 100), s1) \<and> umem s1 100 = 65 \<and> umem s1 101 = 66"
proof -
  have u: "umem sample_reader = sample_umem" "esp sample_reader = 0" "sz sample_reader = 4096"
    by (simp_all add: sample_reader_def sample_sys_def)
  have "fd_file 0 sample_reader = Some 0" by (simp add: fd_file_def sample_reader_def)
  then have io: "io_args sample_reader = Some (0, 2, 100)"
    using sample_args [OF u] by (simp add: io_args_def argfd_def)
  have "\<exists>s2. fileread 0 2 sample_reader = Inr ((2, [65, 66]), s2)"
    by (simp add: fileread_def piperead_def sample_reader_def acq_def rel_def get_pipe_def set_pipe_def
        pipe_empty_def pipe_get_def sample_sys_def numeral_2_eq_2 bnd_def)
  then show ?thesis using io by (auto simp: read_rec_def umem_write_def)
qed

lemma sample_inputs:
  assumes "umem s = sample_umem" "esp s = 0" "sz s = 4096"
  shows "input_vals [IInt 0, IInt 2] s = Some [AInt 0, AInt 2]"
  using sample_args [OF assms] by simp

text \<open>The replaying process has no open file at all and reads the same two bytes.\<close>

theorem read_roundtrip_witness:
  "\<exists>s1 r t'. sys_read sample_reader = Inr (2, s1\<lparr>rr := stored 0 r (sample_rr 1 0)\<rparr>) \<and>
     sys_read ((sample_sys ((sample_rr 0 1)\<lparr>recorded_scrs := (replicate MAX_SCRS r)\<rparr>))\<lparr>umem := sample_umem\<rparr>)
       = Inr (2, t') \<and> umem t' 100 = 65 \<and> umem t' 101 = 66"
proof -
  let ?s = sample_reader
  have u: "umem ?s = sample_umem" "esp ?s = 0" "sz ?s = 4096" "rr ?s = sample_rr 1 0" "mypid ?s = 3" "\<not> pkilled ?s"
    by (simp_all add: sample_reader_def sample_sys_def sample_rr_def)
  note simps = recording_def isRecording_def replaying_def isReplaying_def synced_def
  have r0: "rr_pid (sample_rr a b) = 3" for a b by (simp add: sample_rr_def)
  obtain s1 where s1: "read_rec ?s = Inr ((2, Some 100), s1)" "umem s1 100 = 65" "umem s1 101 = 66"
    using sample_reader_work by blast
  obtain r where r: "sys_read ?s = Inr (2, s1\<lparr>rr := stored 0 r (sample_rr 1 0)\<rparr>)"
    "scr_shape r" "\<And>(t :: sysst) j a. replay_ready t j \<Longrightarrow> recorded_scrs (rr t) ! j = r \<Longrightarrow>
        input_vals [IInt 0, IInt 2] t = Some [AInt 0, AInt 2] \<Longrightarrow> argptr 1 2 t = Some a \<Longrightarrow>
      sys_read t = Inr (2, t\<lparr>rr := (rr t)\<lparr>scrs_idx := int (Suc j)\<rparr>,
        umem := (\<lambda>x. if a \<le> x \<and> x < a + nat 2 then umem s1 (100 + (x - a)) else umem t x)\<rparr>)"
    using read_roundtrip [of ?s 0 0 2 100 2 s1] sample_inputs [OF u(1-3)] sample_args [OF u(1-3)] s1(1) u r0
    by (auto simp: simps rr_ok_sample scr_is_def simp del: input_vals.simps)
  let ?q = "(sample_rr 0 1)\<lparr>recorded_scrs := replicate MAX_SCRS r\<rparr>"
  let ?t = "(sample_sys ?q)\<lparr>umem := sample_umem\<rparr>"
  have t: "umem ?t = sample_umem" "esp ?t = 0" "sz ?t = 4096" by (simp_all add: sample_sys_def)
  have "rr_ok ?q" using r(2) rr_ok_sample [of 0 1] by (simp add: rr_ok_def)
  then have "replay_ready ?t 0" using r0 by (simp add: replay_ready_def simps)
  moreover have "recorded_scrs (rr ?t) ! 0 = r" by simp
  ultimately have "sys_read ?t = Inr (2, ?t\<lparr>rr := (rr ?t)\<lparr>scrs_idx := int (Suc 0)\<rparr>,
      umem := (\<lambda>x. if 100 \<le> x \<and> x < 100 + nat 2 then umem s1 (100 + (x - 100)) else umem ?t x)\<rparr>)"
    by (rule r(3) [OF _ _ sample_inputs [OF t] sample_args(4) [OF t]])
  with r(1) s1(2,3) show ?thesis
    by (intro exI [of _ s1] exI [of _ r] exI conjI) (assumption | simp)+
qed

section \<open>Recording leaves its objects\<close>

text \<open>C7: Recording a \<open>read\<close> from a descriptor that is not open uses the uninitialised local \<open>p\<close>: the
  call returns nothing, whereas the original code returns -1.\<close>

theorem read_bad_descriptor:
  assumes "recording s" "\<not> replaying s" "rr_ok (rr s)" "synced s"
    and "argint 0 s = Some fd" "argint 2 s = Some n" "fd_file (sint fd) s = None"
  shows "sys_read s = Inl (UB ''p'') \<and> read_orig s = Inr (-1, s)"
proof -
  have ins: "input_vals [IInt 0, IInt 2] s = Some [AInt fd, AInt n]" using assms(5,6) by simp
  obtain scr where scr: "add_inputs [IInt 0, IInt 2] (createSCR SYS_read (rr s)) s = Inr (scr, s)"
    "scr_is scr 5 [AInt fd, AInt n]"
    using new_inputs [OF ins assms(4,3), of SYS_read] by auto
  have io: "io_args s = None" using assms(5,7) by (simp add: io_args_def argfd_def)
  obtain r where "addInt scr (-1) (rr s) = Inr (r, rr s)"
    using addInt_is [OF scr(2), of "rr s" "-1"] assms(3) by (auto simp: rr_ok_def)
  then have "rrdo (addInt scr (-1)) s = Inr (r, s)"
    using rrdo_same [of s "addInt scr (-1)", OF assms(4)] by simp
  then show ?thesis
    using assms(1,2,6) scr(1) io by (simp add: sys_read_def read_rec_def read_orig_def)
qed

theorem read_bad_descriptor_witness:
  "sys_read (sample_reader\<lparr>ofile := replicate NOFILE None\<rparr>) = Inl (UB ''p'') \<and>
   read_orig (sample_reader\<lparr>ofile := replicate NOFILE None\<rparr>) = Inr (-1, sample_reader\<lparr>ofile := replicate NOFILE None\<rparr>)"
proof -
  let ?s = "sample_reader\<lparr>ofile := replicate NOFILE None\<rparr>"
  have u: "umem ?s = sample_umem" "esp ?s = 0" "sz ?s = 4096" "rr ?s = sample_rr 1 0" "mypid ?s = 3" "\<not> pkilled ?s"
    by (simp_all add: sample_reader_def sample_sys_def sample_rr_def)
  have "rr_pid (sample_rr 1 0) = 3" by (simp add: sample_rr_def)
  moreover have "fd_file 0 ?s = None" by (simp add: fd_file_def)
  ultimately show ?thesis
    using read_bad_descriptor [of ?s 0 2] sample_args [OF u(1-3)] u
    by (simp add: recording_def isRecording_def replaying_def isReplaying_def synced_def rr_ok_sample)
qed

text \<open>C8: A path longer than 200 bytes makes the recorder write past the end of a record, although
  it has just reported the error: every call with a string argument is undefined then.\<close>

theorem long_path_overflows:
  assumes "recording s \<or> replaying s" "c \<in> {CLink, CUnlink, COpen, CMkdir, CMknod, CChdir}"
    and "argstr 0 s = Some path" "MAX_RAW_SIZE < length path"
  shows "sys_of c s = Inl (UB ''raw.data'')"
proof -
  have "rrdo (addStr scr path) s = Inl (UB ''raw.data'')" for scr
    using assms(4) by (rule addStr_long)
  then have "add_inputs (IStr 0 # is) scr s = Inl (UB ''raw.data'')" for "is" scr
    using assms(3) by (simp add: myargstr_def)
  moreover have "\<exists>is. call_ins c = IStr 0 # is" using assms(2) by auto
  ultimately show ?thesis using assms(1) by (auto simp: rcs.shape rr_call_def)
qed

text \<open>The path starts at address 300 and is 201 bytes long.\<close>

definition long_umem :: "nat \<Rightarrow> byte" where
  "long_umem a = (if a = 4 then 44 else if a = 5 then 1 else if 300 \<le> a \<and> a < 501 then 97 else 0)"

lemma long_path:
  assumes "umem s = long_umem" "esp s = 0" "sz s = 4096"
  shows "argstr 0 s = Some (replicate 201 97)"
proof -
  have m: "umem_read 4 4 s = [44, 1, 0, 0]" using assms(1) by (simp add: umem_read_def long_umem_def)
  have "argint 0 s = fetchint 4 s" using assms(2) by (simp add: argint_def)
  also have "\<dots> = Some (get32 (umem_read 4 4 s))" using assms(3) by (simp add: fetchint_def)
  also have "get32 (umem_read 4 4 s) = 300" unfolding m by (simp add: get32_def)
  finally have a: "argint 0 s = Some 300" .
  let ?m = "umem_read 300 3796 s"
  have "?m = map (umem s) [300..<501] @ map (umem s) [501..<4096]"
    using upt_add_eq_append [of 300 501 3595] by (simp add: umem_read_def del: upt_rec_numeral)
  moreover have "map (umem s) [300..<501] = replicate 201 97"
    using assms(1) by (intro replicate_eqI) (auto simp: long_umem_def simp del: upt_rec_numeral)
  moreover have "map (umem s) [501..<4096] = 0 # map (umem s) [502..<4096]"
    using assms(1) by (subst upt_conv_Cons) (simp_all add: long_umem_def del: upt_rec_numeral)
  ultimately obtain rest where m: "?m = replicate 201 97 @ 0 # rest" by (simp only:)
  have "fetchstr 300 s = Some (replicate 201 97)"
    using assms(3) m by (simp add: fetchstr_def Let_def takeWhile_append)
  then show ?thesis using a by (simp add: argstr_def)
qed

theorem long_path_overflows_witness:
  "sys_of COpen ((sample_sys (sample_rr 1 0))\<lparr>umem := long_umem\<rparr>) = Inl (UB ''raw.data'')"
proof -
  let ?s = "(sample_sys (sample_rr 1 0))\<lparr>umem := long_umem\<rparr>"
  have u: "umem ?s = long_umem" "esp ?s = 0" "sz ?s = 4096" by (simp_all add: sample_sys_def)
  show ?thesis
    using long_path_overflows [of ?s COpen "replicate 201 97"] long_path [OF u]
    by (simp add: recording_def isRecording_def)
qed

end
