(* ===== verification/Grep.thy ===== *)
theory Grep
  imports Prelude
begin

text \<open>
  The program \<open>grep\<close> (\<open>grep.c\<close>): the regular expression matcher and the loop that splits the
  input into lines.  Patterns and lines are the byte strings before the terminating zero, so
  \<open>re[0] == 0\<close> is the empty list.
\<close>

abbreviation CARET :: byte where "CARET \<equiv> 94"
abbreviation STAR :: byte where "STAR \<equiv> 42"
abbreviation DOLLAR :: byte where "DOLLAR \<equiv> 36"
abbreviation DOT :: byte where "DOT \<equiv> 46"
abbreviation NEWLINE :: byte where "NEWLINE \<equiv> 10"

section \<open>The matcher\<close>

function matchhere :: "bytes \<Rightarrow> bytes \<Rightarrow> bool"
  and matchstar :: "byte \<Rightarrow> bytes \<Rightarrow> bytes \<Rightarrow> bool" where
  "matchhere re str =
     (if re = [] then True
      else if tl re \<noteq> [] \<and> hd (tl re) = STAR then matchstar (hd re) (tl (tl re)) str
      else if hd re = DOLLAR \<and> tl re = [] then str = []
      else if str \<noteq> [] \<and> (hd re = DOT \<or> hd re = hd str) then matchhere (tl re) (tl str)
      else False)"
| "matchstar c re str =
     (if matchhere re str then True
      else if str \<noteq> [] \<and> (hd str = c \<or> c = DOT) then matchstar c re (tl str)
      else False)"
  by pat_completeness auto
termination
  by (relation "measure (\<lambda>x. case x of Inl (re, str) \<Rightarrow> 2 * (length re + length str)
        | Inr (c, re, str) \<Rightarrow> 2 * (length re + length str) + 1)")
    (auto simp: neq_Nil_conv)

declare matchhere.simps [simp del] matchstar.simps [simp del]

primrec match_from :: "bytes \<Rightarrow> bytes \<Rightarrow> bool" where
  "match_from re [] = matchhere re []"
| "match_from re (c # str) = (matchhere re (c # str) \<or> match_from re str)"

definition match :: "bytes \<Rightarrow> bytes \<Rightarrow> bool" where
  "match re str = (if re \<noteq> [] \<and> hd re = CARET then matchhere (tl re) str else match_from re str)"

section \<open>The line loop\<close>

text \<open>The inner loop on the bytes from \<open>p\<close> up to the zero at \<open>buf[m]\<close>: the lines written, and the
  bytes after the last newline found.  \<open>strchr\<close> stops at a zero byte.\<close>

function grep_lines :: "bytes \<Rightarrow> bytes \<Rightarrow> bytes \<times> bytes" where
  "grep_lines pat p =
     (let line = takeWhile (\<lambda>c. c \<noteq> NEWLINE \<and> c \<noteq> 0) p; q = drop (length line) p in
      if q \<noteq> [] \<and> hd q = NEWLINE
      then (let (out, rest) = grep_lines pat (tl q)
            in ((if match pat line then line @ [NEWLINE] else []) @ out, rest))
      else ([], p))"
  by pat_completeness auto
termination
proof (relation "measure (\<lambda>(pat, p). length p)")
  fix pat p line and q :: bytes
  assume "q = drop (length line) p" "q \<noteq> [] \<and> hd q = NEWLINE"
  then have "length q \<le> length p" "q \<noteq> []" by auto
  then show "((pat, tl q), pat, p) \<in> measure (\<lambda>(pat, p). length p)" by (cases q) auto
qed simp

declare grep_lines.simps [simp del]

text \<open>The outer loop over the results of \<open>read\<close>, each a non-empty chunk; \<open>held\<close> are the \<open>m\<close> bytes at
  the start of \<open>buf\<close>.  When no newline was found (\<open>p == buf\<close>) they are thrown away.\<close>

primrec grep :: "bytes \<Rightarrow> bytes \<Rightarrow> bytes list \<Rightarrow> bytes" where
  "grep pat held [] = []"
| "grep pat held (chunk # chunks) =
     (let (out, rest) = grep_lines pat (held @ chunk)
      in out @ grep pat (if rest = held @ chunk then [] else rest) chunks)"

section \<open>What a pattern means\<close>

datatype item = One byte | Many byte

text \<open>The items of a pattern, and whether it ends with the anchor \<open>$\<close>.\<close>

fun items :: "bytes \<Rightarrow> item list \<times> bool" where
  "items [] = ([], False)"
| "items [c] = (if c = DOLLAR then ([], True) else ([One c], False))"
| "items (c # d # re) = (if d = STAR then (let (is, e) = items re in (Many c # is, e))
     else (let (is, e) = items (d # re) in (One c # is, e)))"

definition accepts :: "byte \<Rightarrow> byte \<Rightarrow> bool" where
  "accepts c b \<longleftrightarrow> c = DOT \<or> c = b"

inductive lang :: "item list \<Rightarrow> bytes \<Rightarrow> bool" where
  empty: "lang [] []"
| one: "accepts c b \<Longrightarrow> lang is u \<Longrightarrow> lang (One c # is) (b # u)"
| many: "\<forall>b \<in> set w. accepts c b \<Longrightarrow> lang is u \<Longrightarrow> lang (Many c # is) (w @ u)"

inductive_cases lang_NilE: "lang [] u"
inductive_cases lang_OneE: "lang (One c # is) u"
inductive_cases lang_ManyE: "lang (Many c # is) u"

text \<open>The pattern matches at the start of \<open>str\<close>: a prefix is in its language, all of it when the
  pattern is anchored.\<close>

definition matches_at :: "item list \<times> bool \<Rightarrow> bytes \<Rightarrow> bool" where
  "matches_at p str \<longleftrightarrow> (\<exists>u v. str = u @ v \<and> lang (fst p) u \<and> (snd p \<longrightarrow> v = []))"

lemma matches_at_Nil: "matches_at ([], e) str \<longleftrightarrow> (e \<longrightarrow> str = [])"
  by (auto simp: matches_at_def intro: lang.empty elim: lang_NilE)

lemma matches_at_One:
  "matches_at (One c # is, e) str \<longleftrightarrow> str \<noteq> [] \<and> accepts c (hd str) \<and> matches_at (is, e) (tl str)"
proof (cases str)
  case Nil
  then show ?thesis by (auto simp: matches_at_def elim: lang_OneE)
next
  case (Cons b bs)
  have "matches_at (One c # is, e) (b # bs) \<longleftrightarrow> accepts c b \<and> matches_at (is, e) bs"
  proof
    assume "matches_at (One c # is, e) (b # bs)"
    then obtain u v where "b # bs = u @ v" "lang (One c # is) u" "e \<longrightarrow> v = []"
      by (auto simp: matches_at_def)
    then show "accepts c b \<and> matches_at (is, e) bs"
      by (elim lang_OneE) (auto simp: matches_at_def)
  next
    assume a: "accepts c b \<and> matches_at (is, e) bs"
    then obtain u v where u: "bs = u @ v" "lang is u" "e \<longrightarrow> v = []" by (auto simp: matches_at_def)
    have "lang (One c # is) (b # u)" using a u(2) by (intro lang.one) simp_all
    then show "matches_at (One c # is, e) (b # bs)" using u(1,3)
      unfolding matches_at_def by (intro exI [of _ "b # u"] exI [of _ v]) simp
  qed
  then show ?thesis using Cons by simp
qed

lemma matches_at_ManyE:
  assumes "matches_at (Many c # is, e) str"
  obtains w u v where "str = w @ u @ v" "\<forall>b \<in> set w. accepts c b" "lang is u" "e \<longrightarrow> v = []"
proof -
  obtain x v where x: "str = x @ v" "lang (Many c # is) x" "e \<longrightarrow> v = []"
    using assms by (auto simp: matches_at_def)
  from x(2) show ?thesis
  proof (rule lang_ManyE)
    fix w u assume "x = w @ u" "\<forall>b \<in> set w. accepts c b" "lang is u"
    with x(1,3) that show ?thesis by simp
  qed
qed

lemma matches_at_Many:
  "matches_at (Many c # is, e) str \<longleftrightarrow> matches_at (is, e) str \<or>
     (str \<noteq> [] \<and> accepts c (hd str) \<and> matches_at (Many c # is, e) (tl str))"
proof
  assume "matches_at (Many c # is, e) str"
  then obtain w u v where w: "str = w @ u @ v" "\<forall>b \<in> set w. accepts c b" "lang is u" "e \<longrightarrow> v = []"
    by (rule matches_at_ManyE)
  then show "matches_at (is, e) str \<or>
      (str \<noteq> [] \<and> accepts c (hd str) \<and> matches_at (Many c # is, e) (tl str))"
  proof (cases w)
    case Nil
    then show ?thesis using w by (auto simp: matches_at_def)
  next
    case (Cons b w')
    then have "lang (Many c # is) (w' @ u)" using w(2,3) by (intro lang.many) simp_all
    then have "matches_at (Many c # is, e) (tl str)"
      using w(1,4) Cons unfolding matches_at_def by (intro exI [of _ "w' @ u"] exI [of _ v]) simp
    then show ?thesis using w(1,2) Cons by simp
  qed
next
  assume "matches_at (is, e) str \<or>
      (str \<noteq> [] \<and> accepts c (hd str) \<and> matches_at (Many c # is, e) (tl str))"
  then show "matches_at (Many c # is, e) str"
  proof
    assume "matches_at (is, e) str"
    then obtain u v where u: "str = u @ v" "lang is u" "e \<longrightarrow> v = []" by (auto simp: matches_at_def)
    have "lang (Many c # is) ([] @ u)" using u(2) by (intro lang.many) simp_all
    then show ?thesis using u(1,3) unfolding matches_at_def by (intro exI [of _ u] exI [of _ v]) simp
  next
    assume a: "str \<noteq> [] \<and> accepts c (hd str) \<and> matches_at (Many c # is, e) (tl str)"
    then have "matches_at (Many c # is, e) (tl str)" by blast
    then obtain w u v where w: "tl str = w @ u @ v" "\<forall>b \<in> set w. accepts c b" "lang is u" "e \<longrightarrow> v = []"
      by (rule matches_at_ManyE)
    obtain b t where str: "str = b # t" using a by (cases str) auto
    have "lang (Many c # is) ((b # w) @ u)" using a str w(2,3) by (intro lang.many) simp_all
    then show ?thesis
      using w(1,4) str unfolding matches_at_def by (intro exI [of _ "(b # w) @ u"] exI [of _ v]) simp
  qed
qed

lemma matchhere_matches:
  "matchhere re str \<longleftrightarrow> matches_at (items re) str"
  "matchstar c re' str' \<longleftrightarrow> matches_at (Many c # fst (items re'), snd (items re')) str'"
proof (induction re str and c re' str' rule: matchhere_matchstar.induct)
  case (1 re str)
  show ?case
  proof (cases re rule: items.cases)
    case 1
    then show ?thesis by (simp add: matchhere.simps matches_at_Nil)
  next
    case (2 c)
    then show ?thesis
      using "1.IH"(2) by (subst matchhere.simps) (auto simp: matches_at_Nil matches_at_One accepts_def)
  next
    case (3 c d re')
    show ?thesis
    proof (cases "d = STAR")
      case True
      then show ?thesis using 3 "1.IH"(1) by (subst matchhere.simps) (simp add: case_prod_beta)
    next
      case False
      then show ?thesis
        using 3 "1.IH"(2) by (subst matchhere.simps) (auto simp: matches_at_One accepts_def case_prod_beta)
    qed
  qed
next
  case (2 c re str)
  then show ?case
    by (subst matches_at_Many, subst matchstar.simps) (auto simp: accepts_def)
qed

lemma match_from_suffix: "match_from re str \<longleftrightarrow> (\<exists>w t. str = w @ t \<and> matchhere re t)"
proof (induction str)
  case (Cons c str)
  have "(\<exists>w t. c # str = w @ t \<and> matchhere re t) \<longleftrightarrow>
      matchhere re (c # str) \<or> (\<exists>w t. str = w @ t \<and> matchhere re t)"
    by (metis append_Cons append_Nil append_eq_Cons_conv)
  with Cons show ?case by simp
qed auto

text \<open>C34: \<open>match\<close> decides its regular expressions.  A pattern is a sequence of items, each one
  character (\<open>.\<close> for any) or any number of repetitions of one, possibly anchored with \<open>^\<close> at its
  start and \<open>$\<close> at its end; \<open>match\<close> is true exactly when the text has a part in the language of the
  items, at the start or end of the text where the pattern is anchored.\<close>

theorem match_correct:
  "match re str \<longleftrightarrow>
   (let start = (re \<noteq> [] \<and> hd re = CARET); (is, at_end) = items (if start then tl re else re)
    in \<exists>w u v. str = w @ u @ v \<and> lang is u \<and> (start \<longrightarrow> w = []) \<and> (at_end \<longrightarrow> v = []))"
proof (cases "re \<noteq> [] \<and> hd re = CARET")
  case True
  then show ?thesis
    by (simp add: match_def matchhere_matches matches_at_def case_prod_beta Let_def)
next
  case False
  then show ?thesis
    by (auto simp: match_def match_from_suffix matchhere_matches matches_at_def case_prod_beta Let_def)
qed

theorem match_correct_witness:
  "match [98, STAR, 99, DOLLAR] [97, 98, 98, 99] \<and>
   (\<exists>w u v. [97, 98, 98, 99] = w @ u @ v \<and> lang [Many 98, One 99] u \<and> v = [])"
proof -
  have m: "match [98, STAR, 99, DOLLAR] [97, 98, 98, 99]"
    by (simp add: match_def matchhere.simps matchstar.simps)
  with match_correct [of "[98, STAR, 99, DOLLAR]" "[97, 98, 98, 99]"] show ?thesis
    by (simp add: Let_def)
qed

section \<open>Lines\<close>

text \<open>The reference: the complete lines of a text and the matching ones among them.\<close>

definition printed :: "bytes \<Rightarrow> bytes list \<Rightarrow> bytes" where
  "printed pat lines = concat (map (\<lambda>l. l @ [NEWLINE]) (filter (match pat) lines))"

definition joined :: "bytes list \<Rightarrow> bytes" where
  "joined lines = concat (map (\<lambda>l. l @ [NEWLINE]) lines)"

definition plain :: "bytes \<Rightarrow> bool" where
  "plain l \<longleftrightarrow> NEWLINE \<notin> set l \<and> 0 \<notin> set l"

lemma takeWhile_plain: "plain l \<Longrightarrow> takeWhile (\<lambda>c. c \<noteq> NEWLINE \<and> c \<noteq> 0) (l @ NEWLINE # r) = l"
  by (auto simp: plain_def takeWhile_append)

lemma grep_lines_joined:
  assumes "\<forall>l \<in> set lines. plain l" "plain r"
  shows "grep_lines pat (joined lines @ r) = (printed pat lines, r)"
  using assms(1)
proof (induction lines)
  case Nil
  have "takeWhile (\<lambda>c. c \<noteq> NEWLINE \<and> c \<noteq> 0) r = r" using assms(2) by (auto simp: plain_def takeWhile_eq_all_conv)
  then have "grep_lines pat r = ([], r)" by (subst grep_lines.simps) (simp only: Let_def, simp)
  then show ?case by (simp add: joined_def printed_def)
next
  case (Cons l lines)
  let ?p = "joined (l # lines) @ r"
  have p: "?p = l @ NEWLINE # (joined lines @ r)" by (simp add: joined_def)
  have "takeWhile (\<lambda>c. c \<noteq> NEWLINE \<and> c \<noteq> 0) ?p = l" unfolding p using Cons.prems by (intro takeWhile_plain) simp
  then show ?case
    using Cons p by (subst grep_lines.simps) (simp add: Let_def printed_def)
qed

text \<open>A division of a text in chunks in which every \<open>read\<close> completes at least one line.\<close>

inductive chunked :: "bytes \<Rightarrow> bytes list \<Rightarrow> bytes list \<Rightarrow> bool" where
  no_more: "chunked held [] []"
| more: "held @ chunk = joined lines @ r \<Longrightarrow> lines \<noteq> [] \<Longrightarrow> \<forall>l \<in> set lines. plain l \<Longrightarrow> plain r \<Longrightarrow>
    chunked r chunks rest \<Longrightarrow> chunked held (chunk # chunks) (lines @ rest)"

text \<open>C35: \<open>grep\<close> prints the matching lines, in order, when every \<open>read\<close> completes at least one line.\<close>

theorem grep_prints:
  assumes "chunked held chunks lines"
  shows "grep pat held chunks = printed pat lines"
  using assms
proof induction
  case (no_more held)
  then show ?case by (simp add: printed_def)
next
  case (more held chunk lines r chunks rest)
  have "r \<noteq> joined lines @ r" using more.hyps(2) by (cases lines) (simp_all add: joined_def)
  then show ?case
    using more by (simp add: grep_lines_joined printed_def)
qed

theorem grep_prints_witness:
  "grep [98, STAR, 99] [] [[97, 10, 98], [98, 99, 10]] = [98, 98, 99, 10]"
proof -
  have "chunked [98] [[98, 99, 10]] ([[98, 98, 99]] @ [])"
    by (rule chunked.more [of _ _ _ "[]"]) (auto simp: joined_def plain_def intro: chunked.no_more)
  then have "chunked [] [[97, 10, 98], [98, 99, 10]] ([[97]] @ [[98, 98, 99]] @ [])"
    by (rule chunked.more [of _ _ _ "[98]", rotated 4]) (auto simp: joined_def plain_def)
  from grep_prints [OF this, of "[98, STAR, 99]"] show ?thesis
    by (simp add: printed_def match_def matchhere.simps matchstar.simps)
qed


end
