(* ===== verification/Shell.thy ===== *)
theory Shell
  imports Prelude "HOL-Library.Sublist"
begin

text \<open>
  The shell's command parser (\<open>sh.c\<close>).  The pointer \<open>s\<close> into the command line is the list of the
  bytes from \<open>s\<close> to \<open>es\<close>, and reading \<open>*s\<close> at \<open>es\<close> gives the terminating zero.  A word of a command
  is the pair of pointers \<open>q\<close> and \<open>eq\<close> that delimit it.  A call of \<open>panic\<close> is an error.
\<close>

section \<open>Commands\<close>

datatype 'w cmd = EXEC "'w list" | REDIR "'w cmd" 'w "32 word" int | PIPE "'w cmd" "'w cmd"
  | LIST "'w cmd" "'w cmd" | BACK "'w cmd"

abbreviation MAXARGS :: nat where "MAXARGS \<equiv> 10"
abbreviation O_RDONLY :: "32 word" where "O_RDONLY \<equiv> 0"
abbreviation O_WRCREATE :: "32 word" where "O_WRCREATE \<equiv> 0x201"

datatype parse_err = Syntax string | NoFuel

type_synonym span = "bytes \<times> bytes"
type_synonym 'a parser = "bytes \<Rightarrow> parse_err + 'a \<times> bytes"

section \<open>Tokens\<close>

definition is_ws :: "byte \<Rightarrow> bool" where
  "is_ws c \<longleftrightarrow> c \<in> {32, 9, 13, 10, 11}"

definition is_sym :: "byte \<Rightarrow> bool" where
  "is_sym c \<longleftrightarrow> c \<in> {60, 124, 62, 38, 59, 40, 41}"

abbreviation skip_ws :: "bytes \<Rightarrow> bytes" where
  "skip_ws s \<equiv> dropWhile is_ws s"

text \<open>The switch of \<open>gettoken\<close> on a first byte \<open>c\<close>: the token's code and the pointer after it.\<close>

abbreviation is_word :: "byte \<Rightarrow> bool" where
  "is_word c \<equiv> \<not> is_ws c \<and> \<not> is_sym c"

definition scan :: "byte \<Rightarrow> bytes \<Rightarrow> byte \<times> bytes" where
  "scan c t =
     (if c \<in> {124, 40, 41, 59, 38, 60} then (c, t)
      else if c = 62 then (if t \<noteq> [] \<and> hd t = 62 then (43, tl t) else (c, t))
      else (97, dropWhile is_word (c # t)))"

text \<open>The token's code with \<open>q\<close>, \<open>eq\<close> and the new \<open>*ps\<close>.\<close>

definition gettoken :: "bytes \<Rightarrow> byte \<times> bytes \<times> bytes \<times> bytes" where
  "gettoken s =
     (case skip_ws s of
        [] \<Rightarrow> (0, [], [], [])
      | c # t \<Rightarrow> (let (ret, e) = scan c t in (ret, c # t, e, skip_ws e)))"

definition peek :: "bytes \<Rightarrow> bytes \<Rightarrow> bool \<times> bytes" where
  "peek s toks = (let t = skip_ws s in (t \<noteq> [] \<and> hd t \<in> set toks, t))"

abbreviation rest_of :: "byte \<times> bytes \<times> bytes \<times> bytes \<Rightarrow> bytes" where
  "rest_of t \<equiv> snd (snd (snd t))"

declare dropWhile_eq_Nil_conv [simp del]

lemma scan_le: "\<not> is_ws c \<Longrightarrow> length (snd (scan c t)) \<le> length t"
  using length_dropWhile_le [of is_word t] by (auto simp: scan_def is_sym_def)

lemma gettoken_shorter:
  assumes "skip_ws s \<noteq> []"
  shows "length (rest_of (gettoken s)) < length s"
proof -
  obtain c t where q: "skip_ws s = c # t" using assms by (cases "skip_ws s") auto
  have "length t < length s" using length_dropWhile_le [of is_ws s] q by simp
  moreover have "\<not> is_ws c" using hd_dropWhile [of is_ws s] q by simp
  then have "length (snd (scan c t)) \<le> length t" by (rule scan_le)
  moreover have "length (skip_ws (snd (scan c t))) \<le> length (snd (scan c t))" by (rule length_dropWhile_le)
  ultimately have "length (skip_ws (snd (scan c t))) < length s" by linarith
  then show ?thesis using q by (simp add: gettoken_def case_prod_beta)
qed

lemma gettoken_le: "length (rest_of (gettoken s)) \<le> length s"
proof (cases "skip_ws s = []")
  case True
  then have "gettoken s = (0, [], [], [])" unfolding gettoken_def by (simp only: list.case)
  then show ?thesis by simp
next
  case False
  then show ?thesis by (rule less_imp_le [OF gettoken_shorter])
qed

lemma skip_ws_idem [simp]: "skip_ws (skip_ws s) = skip_ws s"
  by (induction s) auto

lemma peek_le: "length (snd (peek s toks)) \<le> length s"
  by (simp add: peek_def Let_def length_dropWhile_le)

lemma peek_gettoken:
  assumes "fst (peek s toks)"
  shows "length (rest_of (gettoken (snd (peek s toks)))) < length s"
proof -
  have "skip_ws (snd (peek s toks)) \<noteq> []" using assms by (simp add: peek_def Let_def)
  from gettoken_shorter [OF this] show ?thesis using peek_le [of s toks] by linarith
qed

lemma redirs_shorter:
  assumes "(True, y) = peek s toks" "(a, b, c, u) = gettoken y" "(d, e, f, v) = gettoken u"
  shows "length v < length s"
proof -
  have "length u < length s" using peek_gettoken [of s toks] assms(1,2) by (metis fst_conv snd_conv)
  moreover have "length v \<le> length u" using gettoken_le [of u] assms(3) by (metis snd_conv)
  ultimately show ?thesis by linarith
qed

section \<open>The parser\<close>

text \<open>Redirections: the file, the mode and the descriptor of each, in order.\<close>

type_synonym 'w redir = "'w \<times> 32 word \<times> int"

function parseredirs :: "span redir list parser" where
  "parseredirs s =
     (let (more, s1) = peek s [60, 62] in
      if \<not> more then Inr ([], s1)
      else let (tok, _, _, s2) = gettoken s1; (tok2, q, e, s3) = gettoken s2 in
        if tok2 \<noteq> 97 then Inl (Syntax ''missing file for redirection'')
        else (case parseredirs s3 of
            Inl err \<Rightarrow> Inl err
          | Inr (rs, s4) \<Rightarrow>
              Inr (((q, e), if tok = 60 then O_RDONLY else O_WRCREATE, if tok = 60 then 0 else 1) # rs, s4)))"
  by pat_completeness auto
termination
  by (relation "measure (\<lambda>(s). length s)") (auto elim: redirs_shorter)

declare parseredirs.simps [simp del]

definition redirected :: "'w cmd \<Rightarrow> 'w redir list \<Rightarrow> 'w cmd" where
  "redirected c rs = foldl (\<lambda>c (w, m, f). REDIR c w m f) c rs"

text \<open>The argument loop of \<open>parseexec\<close>; the redirections wrap the command, whose \<open>argv\<close> grows inside.\<close>

function parseargs :: "span list \<Rightarrow> span redir list \<Rightarrow> (span list \<times> span redir list) parser" where
  "parseargs args rs s =
     (let (stop, s1) = peek s [124, 41, 38, 59] in
      if stop then Inr ((args, rs), s1)
      else let (tok, q, e, s2) = gettoken s1 in
        if tok = 0 then Inr ((args, rs), s2)
        else if tok \<noteq> 97 then Inl (Syntax ''syntax'')
        else if MAXARGS \<le> length args + 1 then Inl (Syntax ''too many args'')
        else (case parseredirs s2 of
            Inl err \<Rightarrow> Inl err
          | Inr (rs', s3) \<Rightarrow> parseargs (args @ [(q, e)]) (rs @ rs') s3))"
  by pat_completeness auto
termination
  by (relation "measure (\<lambda>(args, rs, s). MAXARGS - length args)") auto

declare parseargs.simps [simp del]

text \<open>The loop over \<open>&\<close>.\<close>

function parsebacks :: "'w cmd \<Rightarrow> bytes \<Rightarrow> 'w cmd \<times> bytes" where
  "parsebacks c s =
     (let (more, s1) = peek s [38] in
      if more then parsebacks (BACK c) (rest_of (gettoken s1)) else (c, s1))"
  by pat_completeness auto
termination
proof (relation "measure (\<lambda>(c, s). length s)")
  fix c :: "'w cmd" and s x more s1
  assume "x = peek s [38]" "(more, s1) = x" more
  then show "((BACK c, rest_of (gettoken s1)), c, s) \<in> measure (\<lambda>(c, s). length s)"
    using peek_gettoken [of s "[38]"] by (metis case_prod_conv fst_conv in_measure snd_conv)
qed simp

declare parsebacks.simps [simp del]

text \<open>The recursive functions, with fuel for the nesting depth.\<close>

fun parseline :: "nat \<Rightarrow> span cmd parser"
  and parsepipe :: "nat \<Rightarrow> span cmd parser"
  and parseexec :: "nat \<Rightarrow> span cmd parser"
  and parseblock :: "nat \<Rightarrow> span cmd parser" where
  "parseline 0 s = Inl NoFuel"
| "parseline (Suc k) s =
     (case parsepipe k s of
        Inl err \<Rightarrow> Inl err
      | Inr (c, s1) \<Rightarrow>
          (let (c, s2) = parsebacks c s1; (more, s3) = peek s2 [59] in
           if more then (case parseline k (rest_of (gettoken s3)) of
               Inl err \<Rightarrow> Inl err
             | Inr (r, s4) \<Rightarrow> Inr (LIST c r, s4))
           else Inr (c, s3)))"
| "parsepipe 0 s = Inl NoFuel"
| "parsepipe (Suc k) s =
     (case parseexec k s of
        Inl err \<Rightarrow> Inl err
      | Inr (c, s1) \<Rightarrow>
          (let (more, s2) = peek s1 [124] in
           if more then (case parsepipe k (rest_of (gettoken s2)) of
               Inl err \<Rightarrow> Inl err
             | Inr (r, s3) \<Rightarrow> Inr (PIPE c r, s3))
           else Inr (c, s2)))"
| "parseexec 0 s = Inl NoFuel"
| "parseexec (Suc k) s =
     (let (block, s1) = peek s [40] in
      if block then parseblock k s1
      else (case parseredirs s1 of
          Inl err \<Rightarrow> Inl err
        | Inr (rs, s2) \<Rightarrow>
            (case parseargs [] rs s2 of
               Inl err \<Rightarrow> Inl err
             | Inr ((args, rs'), s3) \<Rightarrow> Inr (redirected (EXEC args) rs', s3))))"
| "parseblock 0 s = Inl NoFuel"
| "parseblock (Suc k) s =
     (let (opn, s1) = peek s [40] in
      if \<not> opn then Inl (Syntax ''parseblock'')
      else (case parseline k (rest_of (gettoken s1)) of
          Inl err \<Rightarrow> Inl err
        | Inr (c, s2) \<Rightarrow>
            (let (cls, s3) = peek s2 [41] in
             if \<not> cls then Inl (Syntax ''syntax - missing )'')
             else (case parseredirs (rest_of (gettoken s3)) of
                 Inl err \<Rightarrow> Inl err
               | Inr (rs, s4) \<Rightarrow> Inr (redirected c rs, s4)))))"

text \<open>Writing the zeros: \<open>b\<close> holds the \<open>n\<close> bytes of the line and its terminating zero, and the pointer with
  the bytes \<open>p\<close> before \<open>es\<close> is the offset \<open>n - length p\<close>.\<close>

primrec nulterminate :: "nat \<Rightarrow> span cmd \<Rightarrow> bytes \<Rightarrow> bytes" where
  "nulterminate n (EXEC args) b = foldl (\<lambda>b (q, e). b[n - length e := 0]) b args"
| "nulterminate n (REDIR c w m f) b = (nulterminate n c b)[n - length (snd w) := 0]"
| "nulterminate n (PIPE l r) b = nulterminate n r (nulterminate n l b)"
| "nulterminate n (LIST l r) b = nulterminate n r (nulterminate n l b)"
| "nulterminate n (BACK c) b = nulterminate n c b"

text \<open>The command and the buffer its pointers point into.\<close>

definition parsecmd :: "bytes \<Rightarrow> parse_err + span cmd \<times> bytes" where
  "parsecmd s =
     (case parseline (4 * length s + 4) s of
        Inl err \<Rightarrow> Inl err
      | Inr (c, s1) \<Rightarrow>
          if snd (peek s1 []) \<noteq> [] then Inl (Syntax ''syntax'')
          else Inr (c, nulterminate (length s) c (s @ [0])))"

section \<open>Termination, and the words a command points to\<close>

text \<open>Every function leaves a suffix of its input, and every word it stores is a maximal run of word bytes
  of it.\<close>

definition spans :: "bytes \<Rightarrow> span set" where
  "spans s = {(q, e) |q e. suffix q s \<and> q \<noteq> [] \<and> is_word (hd q) \<and> e = dropWhile is_word q}"

definition redir_files :: "span redir list \<Rightarrow> span set" where
  "redir_files rs = fst ` set rs"

lemma spans_mono: "suffix s' s \<Longrightarrow> spans s' \<subseteq> spans s"
  by (auto simp: spans_def dest: suffix_order.trans)

lemma spans_trans: "A \<subseteq> spans s' \<Longrightarrow> suffix s' s \<Longrightarrow> A \<subseteq> spans s"
  using spans_mono by blast

lemma skip_suffix: "suffix (skip_ws s) s"
  by (rule suffix_dropWhile)

lemma peek_suffix: "peek s toks = (b, s') \<Longrightarrow> suffix s' s"
  by (auto simp: peek_def Let_def skip_suffix)

lemma scan_suffix: "suffix (snd (scan c t)) (c # t)"
  using suffix_dropWhile [of is_word "c # t"] suffix_tl [of t]
  by (auto simp: scan_def suffix_Cons)

lemma gettoken_cases:
  assumes "skip_ws s = c # t"
  shows "gettoken s = (fst (scan c t), c # t, snd (scan c t), skip_ws (snd (scan c t)))"
  using assms by (simp add: gettoken_def case_prod_beta)

lemma gettoken_end: "skip_ws s = [] \<Longrightarrow> gettoken s = (0, [], [], [])"
  unfolding gettoken_def by (simp only: list.case)

lemma gettoken_suffix: "gettoken s = (tok, q, e, s') \<Longrightarrow> suffix s' s"
proof (cases "skip_ws s")
  case (Cons c t)
  assume "gettoken s = (tok, q, e, s')"
  then have "s' = skip_ws (snd (scan c t))" by (auto simp: gettoken_cases [OF Cons])
  then have "suffix s' (c # t)" using skip_suffix scan_suffix suffix_order.trans by metis
  then show ?thesis using skip_suffix [of s] Cons suffix_order.trans by metis
qed (simp add: gettoken_end)

lemma gettoken_span:
  assumes "gettoken s = (97, q, e, s')"
  shows "(q, e) \<in> spans s"
proof (cases "skip_ws s")
  case (Cons c t)
  have "q = c # t" "fst (scan c t) = 97" "e = snd (scan c t)" using assms by (simp_all add: gettoken_cases [OF Cons])
  moreover from this have "\<not> is_sym c \<and> e = dropWhile is_word (c # t)"
    by (simp add: scan_def is_sym_def split: if_splits)
  moreover have "\<not> is_ws c" using hd_dropWhile [of is_ws s] Cons by simp
  moreover have "suffix (c # t) s" using skip_suffix [of s] Cons by simp
  ultimately show ?thesis by (simp add: spans_def)
next
  case Nil
  then show ?thesis using assms by (simp add: gettoken_end)
qed

text \<open>What the functions share: no failure for want of fuel, and on success a suffix and words of the input.\<close>

definition fine :: "('a \<Rightarrow> span set) \<Rightarrow> 'a parser \<Rightarrow> bytes \<Rightarrow> bool" where
  "fine ws p s \<longleftrightarrow> p s \<noteq> Inl NoFuel \<and> (\<forall>x s'. p s = Inr (x, s') \<longrightarrow> suffix s' s \<and> ws x \<subseteq> spans s)"

lemma fineI:
  assumes "p s \<noteq> Inl NoFuel" "\<And>x s'. p s = Inr (x, s') \<Longrightarrow> suffix s' s \<and> ws x \<subseteq> spans s"
  shows "fine ws p s"
  using assms by (simp add: fine_def)

lemma fine_fuel: "fine ws p s \<Longrightarrow> p s \<noteq> Inl NoFuel"
  by (simp add: fine_def)

lemma fine_within:
  assumes "fine ws p s" "p s = Inr (x, s')" "suffix s s0"
  shows "suffix s' s0 \<and> ws x \<subseteq> spans s0"
  using assms spans_mono [of s s0] by (auto simp: fine_def dest: suffix_order.trans)

lemma redir_files_Cons: "redir_files ((w, r) # rs) = insert w (redir_files rs)"
  by (simp add: redir_files_def)

lemma redir_files_append: "redir_files (rs @ rs') = redir_files rs \<union> redir_files rs'"
  by (simp add: redir_files_def image_Un)

lemma redirected_set: "set_cmd (redirected c rs) = set_cmd c \<union> redir_files rs"
  by (induction rs arbitrary: c) (auto simp: redirected_def redir_files_def)

lemma parseredirs_fine: "fine redir_files parseredirs s"
proof (induction s rule: parseredirs.induct)
  case (1 s)
  obtain more s1 where p: "peek s [60, 62] = (more, s1)" by (cases "peek s [60, 62]")
  obtain tok a b s2 where g: "gettoken s1 = (tok, a, b, s2)" by (cases "gettoken s1")
  obtain tok2 q e s3 where h: "gettoken s2 = (tok2, q, e, s3)" by (cases "gettoken s2")
  have sf: "suffix s1 s" "suffix s2 s" "suffix s3 s"
    using peek_suffix [OF p] gettoken_suffix [OF g] gettoken_suffix [OF h] by (meson suffix_order.trans)+
  have "fine redir_files parseredirs s3" if more "tok2 = 97"
    using 1 [OF p [symmetric] refl _ g [symmetric] refl refl refl h [symmetric]] that by simp
  moreover have "(q, e) \<in> spans s" if "tok2 = 97"
    using gettoken_span h that spans_mono [OF sf(2)] by blast
  ultimately show ?case
    using p g h sf fine_fuel [of redir_files parseredirs s3] fine_within [of redir_files parseredirs s3 _ _ s]
    by (cases "more \<and> tok2 = 97")
      (auto simp: fine_def redir_files_Cons redir_files_def [of "[]"] parseredirs.simps [of s] split: sum.splits)
qed

lemma parseargs_fine:
  assumes "set args \<union> redir_files rs \<subseteq> spans s0" "suffix s s0"
  shows "parseargs args rs s \<noteq> Inl NoFuel \<and>
    (\<forall>args' rs' s'. parseargs args rs s = Inr ((args', rs'), s') \<longrightarrow>
       suffix s' s \<and> set args' \<union> redir_files rs' \<subseteq> spans s0)"
  using assms
proof (induction args rs s rule: parseargs.induct)
  case (1 args rs s)
  obtain stop s1 where p: "peek s [124, 41, 38, 59] = (stop, s1)" by (cases "peek s [124, 41, 38, 59]")
  obtain tok q e s2 where g: "gettoken s1 = (tok, q, e, s2)" by (cases "gettoken s1")
  have sf: "suffix s1 s" "suffix s2 s" "suffix s1 s0" "suffix s2 s0"
    using peek_suffix [OF p] gettoken_suffix [OF g] 1(3) by (meson suffix_order.trans)+
  show ?case
  proof (cases "parseredirs s2")
    case (Inl err)
    then show ?thesis
      using p g sf 1(2) fine_fuel [OF parseredirs_fine, of s2] by (auto simp: parseargs.simps [of args rs s])
  next
    case (Inr x)
    obtain rs' s3 where x: "parseredirs s2 = Inr (rs', s3)" using Inr by (cases x) auto
    have s3: "suffix s3 s" "redir_files rs' \<subseteq> spans s0" "suffix s3 s0"
      using fine_within [OF parseredirs_fine x sf(2)] fine_within [OF parseredirs_fine x sf(4)] by simp_all
    have w: "tok = 97 \<Longrightarrow> (q, e) \<in> spans s0" using gettoken_span g spans_mono [OF sf(3)] by blast
    show ?thesis
    proof (cases "\<not> stop \<and> tok = 97 \<and> \<not> MAXARGS \<le> length args + 1")
      case True
      then have eq: "parseargs args rs s = parseargs (args @ [(q, e)]) (rs @ rs') s3"
        using p g x by (simp add: parseargs.simps [of args rs s])
      have "set (args @ [(q, e)]) \<union> redir_files (rs @ rs') \<subseteq> spans s0"
        using w s3 1(2) True by (simp add: redir_files_append)
      then have "parseargs (args @ [(q, e)]) (rs @ rs') s3 \<noteq> Inl NoFuel \<and>
          (\<forall>as ts s'. parseargs (args @ [(q, e)]) (rs @ rs') s3 = Inr ((as, ts), s') \<longrightarrow>
             suffix s' s3 \<and> set as \<union> redir_files ts \<subseteq> spans s0)"
        using 1(1) [OF p [symmetric] refl _ g [symmetric] refl refl refl _ _ _ x refl _ s3(3)] True by simp
      then show ?thesis unfolding eq using suffix_order.trans [OF _ s3(1)] by auto
    next
      case False
      then show ?thesis using p g x sf 1(2) by (auto simp: parseargs.simps [of args rs s])
    qed
  qed
qed

lemma parsebacks_fine:
  "parsebacks c s = (c', s') \<Longrightarrow> suffix s' s \<and> set_cmd c' = set_cmd c"
proof (induction c s rule: parsebacks.induct)
  case (1 c s)
  obtain more s1 where p: "peek s [38] = (more, s1)" by (cases "peek s [38]")
  obtain tok q e s2 where g: "gettoken s1 = (tok, q, e, s2)" by (cases "gettoken s1")
  have "suffix s1 s" "suffix s2 s"
    using peek_suffix [OF p] gettoken_suffix [OF g] by (meson suffix_order.trans)+
  moreover have "more \<Longrightarrow> parsebacks (BACK c) s2 = (c', s') \<Longrightarrow> suffix s' s2 \<and> set_cmd c' = set_cmd c"
    using 1(1) [OF p [symmetric] refl] g by simp
  ultimately show ?case
    using 1(2) p g by (auto simp: parsebacks.simps [of c s] split: if_splits dest: suffix_order.trans)
qed

text \<open>After \<open>peek\<close> found a token, \<open>gettoken\<close> consumes at least a byte.\<close>

lemma peek_gettoken_rest:
  assumes "peek s toks = (True, s1)" "gettoken s1 = (tok, q, e, s2)" "suffix s s0"
  shows "suffix s2 s0" "length s2 < length s0"
proof -
  show "suffix s2 s0"
    using peek_suffix [OF assms(1)] gettoken_suffix [OF assms(2)] assms(3) by (meson suffix_order.trans)
  show "length s2 < length s0"
    using peek_gettoken [of s toks] assms suffix_length_le [OF assms(3)] by simp
qed

lemma parseline_fine:
  assumes p: "fine set_cmd (parsepipe k) s"
    and l: "\<And>t. length t < length s \<Longrightarrow> fine set_cmd (parseline k) t"
  shows "fine set_cmd (parseline (Suc k)) s"
proof (cases "parsepipe k s")
  case (Inl err)
  then show ?thesis using fine_fuel [OF p] by (simp add: fine_def)
next
  case (Inr x)
  obtain c1 s1 where x: "parsepipe k s = Inr (c1, s1)" using Inr by (cases x) auto
  obtain c2 s2 where b: "parsebacks c1 s1 = (c2, s2)" by (cases "parsebacks c1 s1")
  obtain more s3 where q: "peek s2 [59] = (more, s3)" by (cases "peek s2 [59]")
  obtain tok q' e s4 where g: "gettoken s3 = (tok, q', e, s4)" by (cases "gettoken s3")
  have c2: "set_cmd c2 \<subseteq> spans s" "suffix s2 s" "suffix s3 s"
    using fine_within [OF p x suffix_order.refl] parsebacks_fine [OF b] peek_suffix [OF q]
    by (auto dest: suffix_order.trans)
  show ?thesis
  proof (cases more)
    case True
    have r: "suffix s4 s" "length s4 < length s" using peek_gettoken_rest [of s2 "[59]"] q g c2(2) True by auto
    show ?thesis
      using x b q g True c2 fine_fuel [OF l [OF r(2)]] fine_within [OF l [OF r(2)] _ r(1)]
      by (auto simp: fine_def split: sum.splits)
  qed (use x b q c2 in \<open>simp add: fine_def\<close>)
qed

lemma parsepipe_fine:
  assumes p: "fine set_cmd (parseexec k) s"
    and l: "\<And>t. length t < length s \<Longrightarrow> fine set_cmd (parsepipe k) t"
  shows "fine set_cmd (parsepipe (Suc k)) s"
proof (cases "parseexec k s")
  case (Inl err)
  then show ?thesis using fine_fuel [OF p] by (simp add: fine_def)
next
  case (Inr x)
  obtain c1 s1 where x: "parseexec k s = Inr (c1, s1)" using Inr by (cases x) auto
  obtain more s3 where q: "peek s1 [124] = (more, s3)" by (cases "peek s1 [124]")
  obtain tok q' e s4 where g: "gettoken s3 = (tok, q', e, s4)" by (cases "gettoken s3")
  have c1: "set_cmd c1 \<subseteq> spans s" "suffix s1 s" "suffix s3 s"
    using fine_within [OF p x suffix_order.refl] peek_suffix [OF q] by (auto dest: suffix_order.trans)
  show ?thesis
  proof (cases more)
    case True
    have r: "suffix s4 s" "length s4 < length s" using peek_gettoken_rest [of s1 "[124]"] q g c1(2) True by auto
    show ?thesis
      using x q g True c1 fine_fuel [OF l [OF r(2)]] fine_within [OF l [OF r(2)] _ r(1)]
      by (auto simp: fine_def split: sum.splits)
  qed (use x q c1 in \<open>simp add: fine_def\<close>)
qed

lemma parseblock_fine:
  assumes l: "\<And>t. length t < length s \<Longrightarrow> fine set_cmd (parseline k) t"
  shows "fine set_cmd (parseblock (Suc k)) s"
proof -
  obtain opn s1 where q: "peek s [40] = (opn, s1)" by (cases "peek s [40]")
  obtain tok q1 e s2 where g: "gettoken s1 = (tok, q1, e, s2)" by (cases "gettoken s1")
  consider "\<not> opn" | err where opn "parseline k s2 = Inl err" | c s3 where opn "parseline k s2 = Inr (c, s3)"
    by (cases "parseline k s2") auto
  then show ?thesis
  proof cases
    case 1
    then show ?thesis using q by (simp add: fine_def)
  next
    case 2
    then have "length s2 < length s" using peek_gettoken_rest [of s "[40]"] q g by auto
    from fine_fuel [OF l [OF this]] show ?thesis using 2 q g by (simp add: fine_def)
  next
    case 3
    obtain cls s4 where t: "peek s3 [41] = (cls, s4)" by (cases "peek s3 [41]")
    obtain tok' q2 e' s5 where h: "gettoken s4 = (tok', q2, e', s5)" by (cases "gettoken s4")
    have r: "suffix s2 s" "length s2 < length s" using peek_gettoken_rest [of s "[40]"] q g 3 by auto
    have c: "set_cmd c \<subseteq> spans s" "suffix s3 s" using fine_within [OF l [OF r(2)] 3(2) r(1)] by simp_all
    have "suffix s5 s"
      using c(2) peek_suffix [OF t] gettoken_suffix [OF h] by (meson suffix_order.trans)
    then show ?thesis
      using 3 q g t h c fine_fuel [OF parseredirs_fine, of s5] fine_within [OF parseredirs_fine, of s5 _ _ s]
      by (auto simp: fine_def redirected_set split: sum.splits)
  qed
qed

lemma parseexec_fine:
  assumes l: "\<And>t. length t \<le> length s \<Longrightarrow> fine set_cmd (parseblock k) t"
  shows "fine set_cmd (parseexec (Suc k)) s"
proof -
  obtain block s1 where q: "peek s [40] = (block, s1)" by (cases "peek s [40]")
  have r: "suffix s1 s" by (rule peek_suffix [OF q])
  show ?thesis
  proof (cases block)
    case True
    have "fine set_cmd (parseblock k) s1" by (rule l [OF suffix_length_le [OF r]])
    from fine_fuel [OF this] fine_within [OF this _ r] show ?thesis using q True by (simp add: fine_def)
  next
    case False
    show ?thesis
    proof (cases "parseredirs s1")
      case (Inl err)
      then show ?thesis using q False fine_fuel [OF parseredirs_fine, of s1] by (simp add: fine_def)
    next
      case (Inr x)
      obtain rs s2 where x: "parseredirs s1 = Inr (rs, s2)" using Inr by (cases x) auto
      have w: "redir_files rs \<subseteq> spans s" "suffix s2 s" using fine_within [OF parseredirs_fine x r] by simp_all
      then show ?thesis
        using q False x parseargs_fine [of "[]" rs s s2]
        by (auto simp: fine_def redirected_set split: sum.splits dest: suffix_order.trans)
    qed
  qed
qed

text \<open>Four levels of fuel per byte are enough, since a command inside parentheses, after a bar or after a
  semicolon starts at least one byte later.\<close>

lemma parse_fine:
  "4 * length s + 4 \<le> k \<Longrightarrow> fine set_cmd (parseline k) s"
  "4 * length s + 3 \<le> k \<Longrightarrow> fine set_cmd (parsepipe k) s"
  "4 * length s + 2 \<le> k \<Longrightarrow> fine set_cmd (parseexec k) s"
  "4 * length s + 1 \<le> k \<Longrightarrow> fine set_cmd (parseblock k) s"
proof (induction k arbitrary: s)
  case (Suc k)
  { case 1 then show ?case by (intro parseline_fine Suc) simp_all
  next case 2 then show ?case by (intro parsepipe_fine Suc) simp_all
  next case 3 then show ?case by (intro parseexec_fine Suc) simp
  next case 4 then show ?case by (intro parseblock_fine Suc) simp }
qed simp_all

text \<open>C33: \<open>parsecmd\<close> always ends.  Whatever the line, the recursive descent returns a command or a syntax
  error; the fuel of the model, four levels for each byte of the line and four more, never runs out.\<close>

theorem parsecmd_terminates: "parsecmd s \<noteq> Inl NoFuel"
  using fine_fuel [OF parse_fine(1) [of s "4 * length s + 4"]] by (auto simp: parsecmd_def split: sum.splits)

section \<open>Terminating the words in place\<close>

definition zeroed :: "bytes \<Rightarrow> nat set \<Rightarrow> bytes \<Rightarrow> bool" where
  "zeroed b P b' \<longleftrightarrow> length b' = length b \<and> (\<forall>j < length b. b' ! j = (if j \<in> P then 0 else b ! j))"

lemma zeroed_trans: "zeroed b P b' \<Longrightarrow> zeroed b' Q b'' \<Longrightarrow> zeroed b (P \<union> Q) b''"
  by (simp add: zeroed_def)

lemma zeroed_update: "zeroed b {i} (b[i := 0])"
  by (simp add: zeroed_def nth_list_update)

lemma nulterminate_zeroed: "zeroed b ((\<lambda>w. n - length (snd w)) ` set_cmd c) (nulterminate n c b)"
proof (induction c arbitrary: b)
  case (EXEC args)
  show ?case
  proof (induction args arbitrary: b)
    case (Cons w args)
    from zeroed_trans [OF zeroed_update [of b "n - length (snd w)"] Cons] show ?case
      by (simp add: case_prod_beta)
  qed (simp add: zeroed_def)
next
  case (REDIR c w m f)
  from zeroed_trans [OF REDIR zeroed_update [of _ "n - length (snd w)"]] show ?case by simp
next
  case (PIPE l r)
  from zeroed_trans [OF PIPE] show ?case by (simp add: image_Un)
next
  case (LIST l r)
  from zeroed_trans [OF LIST] show ?case by (simp add: image_Un)
qed simp

text \<open>The C string at an offset of the buffer, and the word two pointers delimit.\<close>

definition cstr_at :: "bytes \<Rightarrow> nat \<Rightarrow> bytes" where
  "cstr_at b i = takeWhile (\<lambda>c. c \<noteq> 0) (drop i b)"

definition word_of_span :: "span \<Rightarrow> bytes" where
  "word_of_span w = take (length (fst w) - length (snd w)) (fst w)"

lemma spanE:
  assumes "(q, e) \<in> spans s"
  obtains a w where "s = a @ w @ e" "q = w @ e" "w \<noteq> []" "\<forall>c \<in> set w. is_word c" "e = [] \<or> \<not> is_word (hd e)"
    "word_of_span (q, e) = w"
proof -
  from assms obtain a where a: "s = a @ q" "q \<noteq> []" "is_word (hd q)" "e = dropWhile is_word q"
    by (auto simp: spans_def suffix_def)
  define w where "w = takeWhile is_word q"
  have "q = w @ e" using a(4) by (simp add: w_def)
  moreover have "w \<noteq> []" using a by (cases q) (simp_all add: w_def)
  moreover have "\<forall>c \<in> set w. is_word c" by (auto simp: w_def dest: set_takeWhileD)
  moreover have "e = [] \<or> \<not> is_word (hd e)" using hd_dropWhile [of is_word q] a(4) by auto
  moreover have "word_of_span (q, e) = w" using \<open>q = w @ e\<close> by (simp add: word_of_span_def)
  ultimately show thesis using that [of a w] a(1) by simp
qed

lemma span_end_no_word:
  assumes "(q, e) \<in> spans s" "j < length s" "is_word (s ! j)"
  shows "j \<noteq> length s - length e"
  using assms by (elim spanE) (auto simp: nth_append hd_conv_nth split: if_splits)

lemma nulterminate_word:
  assumes "set_cmd c \<subseteq> spans s" "0 \<notin> set s" "w \<in> set_cmd c"
  shows "cstr_at (nulterminate (length s) c (s @ [0])) (length s - length (fst w)) = word_of_span w"
proof -
  let ?b = "nulterminate (length s) c (s @ [0])"
  let ?P = "(\<lambda>w. length s - length (snd w)) ` set_cmd c"
  obtain q e where w: "w = (q, e)" by (cases w)
  obtain a v where s: "s = a @ v @ e" "q = v @ e" "\<forall>c \<in> set v. is_word c" "word_of_span w = v"
    using assms(1,3) unfolding w by (metis spanE subsetD)
  have z: "zeroed (s @ [0]) ?P ?b" by (rule nulterminate_zeroed)
  have len: "length ?b = length s + 1" using z by (simp add: zeroed_def)
  have inside: "?b ! (length a + i) = v ! i" "v ! i \<noteq> 0" if "i < length v" for i
  proof -
    have j: "s ! (length a + i) = v ! i" "length a + i < length s" using that s(1) by (simp_all add: nth_append)
    have "length a + i \<notin> ?P"
      using span_end_no_word [of _ _ s "length a + i"] assms(1) j s(3) that by fastforce
    then show "?b ! (length a + i) = v ! i" using z j by (simp add: zeroed_def nth_append)
    show "v ! i \<noteq> 0" using assms(2) s(1) nth_mem [OF that] by (metis Un_iff set_append)
  qed
  have "length a + length v \<in> ?P" using assms(3) w s(1) by (force intro: rev_image_eqI)
  then have "?b ! (length a + length v) = 0" using z s(1) by (simp add: zeroed_def)
  then have "takeWhile (\<lambda>c. c \<noteq> 0) (drop (length a) ?b) = take (length v) (drop (length a) ?b)"
    using inside len s(1) by (intro takeWhile_eq_take_P_nth) simp_all
  also have "\<dots> = v"
    using inside(1) len s(1) by (intro nth_equalityI) simp_all
  finally show ?thesis using s w by (simp add: cstr_at_def)
qed

text \<open>C32: The words of a parsed command.  When \<open>parsecmd\<close> accepts a line, the C string at the start pointer of
  every word the command holds, in the buffer after \<open>nulterminate\<close>, is exactly the bytes between the
  word's two pointers: a non-empty run of bytes none of which is white space or a symbol.  The zeros of
  one word never fall into another, although all of them are written into the same line.\<close>

theorem parsecmd_words:
  assumes "parsecmd s = Inr (c, b)" "0 \<notin> set s" "w \<in> set_cmd c"
  shows "cstr_at b (length s - length (fst w)) = word_of_span w \<and> word_of_span w \<noteq> [] \<and>
    (\<forall>x \<in> set (word_of_span w). is_word x)"
proof -
  obtain s1 where p: "parseline (4 * length s + 4) s = Inr (c, s1)" "b = nulterminate (length s) c (s @ [0])"
    using assms(1) by (auto simp: parsecmd_def split: sum.splits if_splits)
  have c: "set_cmd c \<subseteq> spans s" using fine_within [OF parse_fine(1) p(1) suffix_order.refl] by simp
  obtain q e where w: "w = (q, e)" by (cases w)
  have "(q, e) \<in> spans s" using c assms(3) w by blast
  then show ?thesis
    using nulterminate_word [OF c assms(2,3)] p(2) w by (elim spanE) auto
qed

theorem parsecmd_words_witness:
  "parsecmd [108, 115, 62, 102] =
     Inr (REDIR (EXEC [([108, 115, 62, 102], [62, 102])]) ([102], []) O_WRCREATE 1, [108, 115, 0, 102, 0]) \<and>
   cstr_at [108, 115, 0, 102, 0] 0 = [108, 115]"
proof -
  have p: "parsecmd [108, 115, 62, 102] =
     Inr (REDIR (EXEC [([108, 115, 62, 102], [62, 102])]) ([102], []) O_WRCREATE 1, [108, 115, 0, 102, 0])"
    by code_simp
  from parsecmd_words [OF p, of "([108, 115, 62, 102], [62, 102])"] show ?thesis
    using p by (simp add: word_of_span_def)
qed

end
