(* ===== verification/Shell_Print.thy ===== *)
theory Shell_Print
  imports Shell
begin

text \<open>
  The command parser reads back what a printer of commands writes: every command the shell can run has
  a line that \<open>parsecmd\<close> turns into that command, with its words as C strings in the line's buffer.
\<close>

section \<open>Printing commands\<close>

definition good_word :: "bytes \<Rightarrow> bool" where
  "good_word w \<longleftrightarrow> w \<noteq> [] \<and> (\<forall>c \<in> set w. is_word c \<and> c \<noteq> 0)"

definition good_redir :: "bytes redir \<Rightarrow> bool" where
  "good_redir r \<longleftrightarrow> good_word (fst r) \<and> snd r \<in> {(O_RDONLY, 0), (O_WRCREATE, 1)}"

definition show_word :: "bytes \<Rightarrow> bytes" where
  "show_word w = w @ [32]"

definition show_redir :: "bytes redir \<Rightarrow> bytes" where
  "show_redir r = (if fst (snd r) = O_RDONLY then 60 else 62) # show_word (fst r)"

definition paren :: "bool \<Rightarrow> bytes \<Rightarrow> bytes" where
  "paren b s = (if b then [40] @ s @ [41] else s)"

text \<open>The level is that of the function that reads the text: 0 for \<open>parseline\<close>, 1 for what its loop over
  \<open>&\<close> accepts, 2 for \<open>parsepipe\<close> and 3 for \<open>parseexec\<close>.\<close>

primrec show_cmd :: "bytes cmd \<Rightarrow> nat \<Rightarrow> bytes" where
  "show_cmd (EXEC args) p = concat (map show_word args)"
| "show_cmd (REDIR c w m f) p = show_cmd c 3 @ show_redir (w, m, f)"
| "show_cmd (PIPE l r) p = paren (2 < p) (show_cmd l 3 @ [124] @ show_cmd r 2)"
| "show_cmd (LIST l r) p = paren (0 < p) (show_cmd l 1 @ [59] @ show_cmd r 0)"
| "show_cmd (BACK c) p = paren (1 < p) (show_cmd c 1 @ [38])"

text \<open>The commands the shell can run: at most nine arguments, and the two kinds of redirection.\<close>

primrec good_cmd :: "bytes cmd \<Rightarrow> bool" where
  "good_cmd (EXEC args) \<longleftrightarrow> length args < MAXARGS \<and> (\<forall>w \<in> set args. good_word w)"
| "good_cmd (REDIR c w m f) \<longleftrightarrow> good_cmd c \<and> good_redir (w, m, f)"
| "good_cmd (PIPE l r) \<longleftrightarrow> good_cmd l \<and> good_cmd r"
| "good_cmd (LIST l r) \<longleftrightarrow> good_cmd l \<and> good_cmd r"
| "good_cmd (BACK c) \<longleftrightarrow> good_cmd c"

abbreviation words_of :: "span cmd \<Rightarrow> bytes cmd" where
  "words_of c \<equiv> map_cmd word_of_span c"

abbreviation files_of :: "span redir list \<Rightarrow> bytes redir list" where
  "files_of rs \<equiv> map (map_prod word_of_span (\<lambda>x. x)) rs"

section \<open>Tokens\<close>

text \<open>The rest \<open>r\<close> of a line starts, after white space, with one of the given bytes, or is empty.\<close>

definition stops :: "byte set \<Rightarrow> bytes \<Rightarrow> bool" where
  "stops S r \<longleftrightarrow> skip_ws r = [] \<or> hd (skip_ws r) \<in> S"

lemma stops_mono: "stops S r \<Longrightarrow> S \<subseteq> T \<Longrightarrow> stops T r"
  by (auto simp: stops_def)

lemma peek_stops: "stops S r \<Longrightarrow> set toks \<inter> S = {} \<Longrightarrow> peek r toks = (False, skip_ws r)"
  by (auto simp: stops_def peek_def Let_def)

lemma peek_skip: "peek (skip_ws s) toks = peek s toks"
  by (simp add: peek_def)

lemma peek_here: "\<not> is_ws c \<Longrightarrow> peek (c # t) toks = (c \<in> set toks, c # t)"
  by (simp add: peek_def Let_def)

lemma sym_not_ws: "c \<in> {124, 40, 41, 59, 38, 60, 62} \<Longrightarrow> \<not> is_ws c"
  by (auto simp: is_ws_def)

lemma stops_here: "c \<in> {124, 40, 41, 59, 38, 60, 62} \<Longrightarrow> c \<in> S \<Longrightarrow> stops S (c # t)"
  using sym_not_ws [of c] by (simp add: stops_def)

lemma ws_space [simp]: "is_ws 32"
  by (simp add: is_ws_def)

lemma gettoken_sym: "c \<in> {124, 40, 41, 59, 38, 60} \<Longrightarrow> gettoken (c # t) = (c, c # t, t, skip_ws t)"
  using sym_not_ws [of c] by (auto simp: gettoken_def scan_def)

lemma good_word_hd: "good_word w \<Longrightarrow> \<exists>c v. w = c # v \<and> is_word c \<and> c \<noteq> 0"
  by (cases w) (auto simp: good_word_def)

lemma skip_word: "good_word w \<Longrightarrow> skip_ws (w @ t) = w @ t"
  using good_word_hd [of w] by auto

lemma gettoken_gt: "good_word w \<Longrightarrow> gettoken (62 # w @ t) = (62, 62 # w @ t, w @ t, w @ t)"
  using good_word_hd [of w] sym_not_ws [of 62] skip_word [of w t]
  by (auto simp: gettoken_def scan_def is_sym_def)

lemma gettoken_word:
  assumes "good_word w"
  shows "gettoken (w @ 32 # t) = (97, w @ 32 # t, 32 # t, skip_ws t)"
proof -
  obtain c v where w: "w = c # v" "is_word c" "c \<noteq> 0" using good_word_hd [OF assms] by blast
  have "dropWhile is_word (w @ 32 # t) = 32 # t"
    using assms by (subst dropWhile_append2) (auto simp: good_word_def is_ws_def)
  moreover have "c \<notin> {124, 40, 41, 59, 38, 60, 62}" using w(2) by (auto simp: is_sym_def)
  ultimately show ?thesis using w by (simp add: gettoken_def scan_def)
qed

lemma word_of_shown: "word_of_span (w @ t, t) = w"
  by (simp add: word_of_span_def)

section \<open>Redirections and arguments\<close>

lemma parseredirs_skip: "parseredirs (skip_ws s) = parseredirs s"
  by (simp add: parseredirs.simps [of "skip_ws s"] parseredirs.simps [of s] peek_skip)

lemma parseargs_skip: "parseargs as rs (skip_ws s) = parseargs as rs s"
  by (simp add: parseargs.simps [of _ _ "skip_ws s"] parseargs.simps [of _ _ s] peek_skip)

lemma parseredirs_show:
  assumes "\<forall>r \<in> set rs. good_redir r" "stops (- {60, 62}) t"
  shows "\<exists>ps. parseredirs (concat (map show_redir rs) @ t) = Inr (ps, skip_ws t) \<and> files_of ps = rs"
  using assms(1)
proof (induction rs)
  case Nil
  have "peek t [60, 62] = (False, skip_ws t)" using assms(2) by (rule peek_stops) simp
  then show ?case by (simp add: parseredirs.simps [of t])
next
  case (Cons r rs)
  obtain w m f where r: "r = (w, m, f)" by (cases r)
  let ?d = "if m = O_RDONLY then 60 else 62 :: byte" and ?t = "concat (map show_redir rs) @ t"
  have w: "good_word w" and mf: "(m, f) \<in> {(O_RDONLY, 0), (O_WRCREATE, 1)}"
    using Cons.prems r by (simp_all add: good_redir_def)
  have s: "concat (map show_redir (r # rs)) @ t = ?d # w @ 32 # ?t"
    by (simp add: r show_redir_def show_word_def)
  have p: "peek (?d # w @ 32 # ?t) [60, 62] = (True, ?d # w @ 32 # ?t)"
    using sym_not_ws [of ?d] by (simp add: peek_here)
  have g: "gettoken (?d # w @ 32 # ?t) = (?d, ?d # w @ 32 # ?t, w @ 32 # ?t, w @ 32 # ?t)"
    using gettoken_sym [of 60] gettoken_gt [OF w] skip_word [OF w] by simp
  obtain ps where "parseredirs ?t = Inr (ps, skip_ws t)" "files_of ps = rs"
    using Cons.IH Cons.prems by (metis list.set_intros(2))
  then show ?case
    unfolding s using p g gettoken_word [OF w] mf
    by (auto simp: parseredirs.simps [of "?d # _"] parseredirs_skip word_of_shown r)
qed

lemma parseargs_show:
  assumes "\<forall>w \<in> set ws. good_word w" "\<forall>r \<in> set rs. good_redir r" "stops {124, 41, 38, 59} t"
    and "length as + length ws < MAXARGS" "ws \<noteq> [] \<or> rs = []"
  shows "\<exists>as' ps. parseargs as qs (concat (map show_word ws) @ concat (map show_redir rs) @ t) =
      Inr ((as @ as', qs @ ps), skip_ws t) \<and> map word_of_span as' = ws \<and> files_of ps = rs"
  using assms(1,2,4,5)
proof (induction ws arbitrary: as qs rs)
  case Nil
  then have rs: "rs = []" by simp
  show ?case
  proof (cases "skip_ws t = []")
    case True
    then have "peek t [124, 41, 38, 59] = (False, [])" by (simp add: peek_def)
    then show ?thesis using rs True gettoken_end [of "[]"] by (simp add: parseargs.simps [of as qs t])
  next
    case False
    then have "peek t [124, 41, 38, 59] = (True, skip_ws t)" using assms(3) by (auto simp: peek_def Let_def stops_def)
    then show ?thesis using rs by (simp add: parseargs.simps [of as qs t])
  qed
next
  case (Cons w ws)
  let ?t = "concat (map show_word ws) @ concat (map show_redir rs) @ t"
  let ?rs = "if ws = [] then rs else []"
  have w: "good_word w" using Cons.prems by simp
  have s: "concat (map show_word (w # ws)) @ concat (map show_redir rs) @ t = w @ 32 # ?t"
    by (simp add: show_word_def)
  have p: "peek (w @ 32 # ?t) [124, 41, 38, 59] = (False, w @ 32 # ?t)"
    using good_word_hd [OF w] by (auto simp: peek_here is_sym_def)
  have step: "parseargs as qs (w @ 32 # ?t) = parseargs (as @ [(w @ 32 # ?t, 32 # ?t)]) (qs @ ps) u"
    if "parseredirs ?t = Inr (ps, skip_ws u)" for ps u
    using p gettoken_word [OF w] Cons.prems(3) that
    by (simp add: parseargs.simps [of as qs "w @ _"] parseredirs_skip parseargs_skip)
  show ?case
  proof (cases "ws = []")
    case True
    have "stops (- {60, 62}) t" using assms(3) by (rule stops_mono) auto
    then obtain ps where "parseredirs ?t = Inr (ps, skip_ws t)" "files_of ps = rs"
      using parseredirs_show [of rs t] Cons.prems(2) True by auto
    moreover have "\<exists>as' ps'. parseargs (as @ [(w @ 32 # ?t, 32 # ?t)]) (qs @ ps) t =
        Inr (((as @ [(w @ 32 # ?t, 32 # ?t)]) @ as', (qs @ ps) @ ps'), skip_ws t) \<and>
        map word_of_span as' = [] \<and> files_of ps' = []"
      using Cons.IH [of "[]"] Cons.prems True by simp
    ultimately show ?thesis unfolding s using step True by (auto simp: word_of_shown)
  next
    case False
    then have "\<exists>v vs. ws = v # vs \<and> good_word v" using Cons.prems(1) by (cases ws) auto
    then have "stops (- {60, 62}) ?t"
      by (auto simp: stops_def show_word_def skip_word is_sym_def dest!: good_word_hd)
    then have "parseredirs ?t = Inr ([], skip_ws ?t)" using parseredirs_show [of "[]" ?t] by simp
    moreover have "\<exists>as' ps. parseargs (as @ [(w @ 32 # ?t, 32 # ?t)]) qs ?t =
        Inr (((as @ [(w @ 32 # ?t, 32 # ?t)]) @ as', qs @ ps), skip_ws t) \<and>
        map word_of_span as' = ws \<and> files_of ps = rs"
      using Cons.prems False by (intro Cons.IH) simp_all
    ultimately show ?thesis unfolding s using step [of "[]" ?t] by (auto simp: word_of_shown)
  qed
qed

section \<open>Commands\<close>

lemma parseexec_skip: "parseexec k (skip_ws s) = parseexec k s"
  by (cases k) (simp_all add: peek_skip)

lemma parsepipe_skip: "parsepipe k (skip_ws s) = parsepipe k s"
  by (cases k) (simp_all add: parseexec_skip)

lemma parseline_skip: "parseline k (skip_ws s) = parseline k s"
  by (cases k) (simp_all add: parsepipe_skip)

lemma words_redirected: "words_of (redirected p ps) = redirected (words_of p) (files_of ps)"
  by (induction ps arbitrary: p) (auto simp: redirected_def)

text \<open>What each parsing function does with a printed command and what follows it.\<close>

definition exec_reads :: "bytes cmd \<Rightarrow> bool" where
  "exec_reads c \<longleftrightarrow> (\<forall>rs t k. (\<forall>r \<in> set rs. good_redir r) \<longrightarrow> stops {124, 41, 38, 59} t \<longrightarrow>
     4 * length (show_cmd c 3 @ concat (map show_redir rs) @ t) + 2 \<le> k \<longrightarrow>
     (\<exists>p. parseexec k (show_cmd c 3 @ concat (map show_redir rs) @ t) = Inr (p, skip_ws t) \<and>
        words_of p = redirected c rs))"

definition pipe_reads :: "bytes cmd \<Rightarrow> bool" where
  "pipe_reads c \<longleftrightarrow> (\<forall>t k. stops {41, 38, 59} t \<longrightarrow> 4 * length (show_cmd c 2 @ t) + 3 \<le> k \<longrightarrow>
     (\<exists>p. parsepipe k (show_cmd c 2 @ t) = Inr (p, skip_ws t) \<and> words_of p = c))"

definition backs_read :: "bytes cmd \<Rightarrow> bool" where
  "backs_read c \<longleftrightarrow> (\<forall>t k. stops {41, 38, 59} t \<longrightarrow> 4 * length (show_cmd c 1 @ t) + 3 \<le> k \<longrightarrow>
     (\<exists>p0 s0 p. parsepipe k (show_cmd c 1 @ t) = Inr (p0, s0) \<and> parsebacks p0 s0 = parsebacks p t \<and>
        words_of p = c))"

definition line_reads :: "bytes cmd \<Rightarrow> bool" where
  "line_reads c \<longleftrightarrow> (\<forall>t k. stops {41} t \<longrightarrow> 4 * length (show_cmd c 0 @ t) + 4 \<le> k \<longrightarrow>
     (\<exists>p. parseline k (show_cmd c 0 @ t) = Inr (p, skip_ws t) \<and> words_of p = c))"

lemma parsebacks_skip: "parsebacks p (skip_ws s) = parsebacks p s"
  by (simp add: parsebacks.simps [of p "skip_ws s"] parsebacks.simps [of p s] peek_skip)

lemma parsebacks_stop: "stops {41, 59} t \<Longrightarrow> parsebacks p t = (p, skip_ws t)"
  using peek_stops [of "{41, 59}" t "[38]"] by (simp add: parsebacks.simps [of p t])

lemma parsebacks_amp: "parsebacks p (38 # t) = parsebacks (BACK p) t"
  using gettoken_sym [of 38 t] peek_here [of 38 t "[38]"] sym_not_ws [of 38]
  by (simp add: parsebacks.simps [of p "38 # t"] parsebacks_skip)

lemma exec_reads_pipe:
  assumes "exec_reads c" "show_cmd c 2 = show_cmd c 3"
  shows "pipe_reads c"
  unfolding pipe_reads_def
proof (intro allI impI)
  fix t k assume t: "stops {41, 38, 59} t" and k: "4 * length (show_cmd c 2 @ t) + 3 \<le> k"
  obtain j where j: "k = Suc j" "4 * length (show_cmd c 3 @ t) + 2 \<le> j" using k assms(2) by (cases k) auto
  have "stops {124, 41, 38, 59} t" using t by (rule stops_mono) auto
  then obtain p where "parseexec j (show_cmd c 3 @ t) = Inr (p, skip_ws t)" "words_of p = c"
    using assms(1) [unfolded exec_reads_def, rule_format, of "[]" t j] j(2) by (auto simp: redirected_def)
  moreover have "peek t [124] = (False, skip_ws t)" using t by (rule peek_stops) simp
  ultimately show "\<exists>p. parsepipe k (show_cmd c 2 @ t) = Inr (p, skip_ws t) \<and> words_of p = c"
    using j(1) assms(2) by (simp add: peek_skip)
qed

lemma pipe_reads_backs:
  assumes "pipe_reads c" "show_cmd c 1 = show_cmd c 2"
  shows "backs_read c"
  unfolding backs_read_def
proof (intro allI impI)
  fix t k assume "stops {41, 38, 59} t" "4 * length (show_cmd c 1 @ t) + 3 \<le> k"
  then obtain p where "parsepipe k (show_cmd c 1 @ t) = Inr (p, skip_ws t)" "words_of p = c"
    using assms unfolding pipe_reads_def by metis
  then show "\<exists>p0 s0 p. parsepipe k (show_cmd c 1 @ t) = Inr (p0, s0) \<and> parsebacks p0 s0 = parsebacks p t \<and>
      words_of p = c"
    using parsebacks_skip by blast
qed

lemma backs_read_line:
  assumes "backs_read c" "show_cmd c 0 = show_cmd c 1"
  shows "line_reads c"
  unfolding line_reads_def
proof (intro allI impI)
  fix t k assume t: "stops {41} t" and k: "4 * length (show_cmd c 0 @ t) + 4 \<le> k"
  obtain j where j: "k = Suc j" "4 * length (show_cmd c 1 @ t) + 3 \<le> j" using k assms(2) by (cases k) auto
  have "stops {41, 38, 59} t" using t by (rule stops_mono) auto
  then obtain p0 s0 p where p: "parsepipe j (show_cmd c 1 @ t) = Inr (p0, s0)" "parsebacks p0 s0 = parsebacks p t"
      "words_of p = c"
    using assms(1) j(2) unfolding backs_read_def by metis
  have "parsebacks p t = (p, skip_ws t)" using parsebacks_stop [OF stops_mono [OF t]] by simp
  moreover have "peek t [59] = (False, skip_ws t)" using t by (rule peek_stops) simp
  ultimately show "\<exists>p. parseline k (show_cmd c 0 @ t) = Inr (p, skip_ws t) \<and> words_of p = c"
    using p j(1) assms(2) by (simp add: peek_skip)
qed

lemma line_reads_exec:
  assumes "line_reads c" "show_cmd c 3 = [40] @ show_cmd c 0 @ [41]"
  shows "exec_reads c"
  unfolding exec_reads_def
proof (intro allI impI)
  fix rs t k
  assume rs: "\<forall>r \<in> set rs. good_redir r" and t: "stops {124, 41, 38, 59} t"
    and k: "4 * length (show_cmd c 3 @ concat (map show_redir rs) @ t) + 2 \<le> k"
  let ?u = "concat (map show_redir rs) @ t"
  obtain j where j: "k = Suc (Suc j)" "4 * length (show_cmd c 0 @ 41 # ?u) + 4 \<le> j"
    using k assms(2) that [of "k - 2"] by simp
  obtain p where p: "parseline j (show_cmd c 0 @ 41 # ?u) = Inr (p, 41 # ?u)" "words_of p = c"
    using assms(1) j(2) stops_here [of 41 "{41}" ?u] sym_not_ws [of 41] unfolding line_reads_def by fastforce
  have "stops (- {60, 62}) t" using t by (rule stops_mono) auto
  from parseredirs_show [OF rs this] obtain ps where "parseredirs ?u = Inr (ps, skip_ws t)" "files_of ps = rs" by blast
  then have "parseexec k (40 # show_cmd c 0 @ 41 # ?u) = Inr (redirected p ps, skip_ws t)"
    using p(1) j(1) gettoken_sym [of 40] gettoken_sym [of 41] peek_here [of 40 _ "[40]"] peek_here [of 41 _ "[41]"]
      sym_not_ws [of 40] sym_not_ws [of 41]
    by (simp add: parseline_skip parseredirs_skip)
  then show "\<exists>p. parseexec k (show_cmd c 3 @ concat (map show_redir rs) @ t) = Inr (p, skip_ws t) \<and>
      words_of p = redirected c rs"
    using assms(2) p(2) \<open>files_of ps = rs\<close> by (simp add: words_redirected)
qed

lemma stops_words:
  assumes "\<forall>w \<in> set ws. good_word w" "ws \<noteq> []" "\<forall>c \<in> - S. is_sym c"
  shows "stops S (concat (map show_word ws) @ u)"
proof -
  obtain w vs where "ws = w # vs" "good_word w" using assms(1,2) by (cases ws) auto
  then show ?thesis using good_word_hd [of w] assms(3) by (auto simp: stops_def show_word_def)
qed

lemma exec_reads_EXEC:
  assumes "good_cmd (EXEC args)"
  shows "exec_reads (EXEC args)"
  unfolding exec_reads_def
proof (intro allI impI)
  fix rs t k
  assume rs: "\<forall>r \<in> set rs. good_redir r" and t: "stops {124, 41, 38, 59} t"
    and k: "4 * length (show_cmd (EXEC args) 3 @ concat (map show_redir rs) @ t) + 2 \<le> k"
  let ?r = "concat (map show_redir rs) @ t" and ?s = "concat (map show_word args) @ concat (map show_redir rs) @ t"
  have a: "\<forall>w \<in> set args. good_word w" "length args < MAXARGS" using assms by simp_all
  have nosym: "\<forall>c \<in> - (- {40, 60, 62}). is_sym c" by (simp add: is_sym_def)
  have st: "stops (- {40}) ?s"
  proof (cases "args = []")
    case True
    then show ?thesis
      using t stops_here [of _ "- {40}"] stops_mono [OF t, of "- {40}"]
      by (cases rs) (auto simp: show_redir_def)
  next
    case False
    from stops_mono [OF stops_words [OF a(1) False nosym]] show ?thesis by blast
  qed
  have p: "peek ?s [40] = (False, skip_ws ?s)" using st by (rule peek_stops) simp
  have "\<exists>as ps u qs. parseredirs ?s = Inr (qs, skip_ws u) \<and> parseargs [] qs u = Inr ((as, ps), skip_ws t) \<and>
      map word_of_span as = args \<and> files_of ps = rs"
  proof (cases "args = []")
    case True
    have "stops (- {60, 62}) t" using t by (rule stops_mono) auto
    from parseredirs_show [OF rs this] obtain ps where ps: "parseredirs ?r = Inr (ps, skip_ws t)" "files_of ps = rs"
      by blast
    moreover have "parseargs [] ps t = Inr (([], ps), skip_ws t)"
      using parseargs_show [of "[]" "[]" t "[]" ps] t by auto
    ultimately show ?thesis using True by fastforce
  next
    case False
    have "stops (- {60, 62}) ?s" using stops_mono [OF stops_words [OF a(1) False nosym]] by blast
    then have "parseredirs ?s = Inr ([], skip_ws ?s)" using parseredirs_show [of "[]" ?s] by simp
    then show ?thesis
      using parseargs_show [OF a(1) rs t, of "[]" "[]"] a(2) False by fastforce
  qed
  then show "\<exists>p. parseexec k (show_cmd (EXEC args) 3 @ concat (map show_redir rs) @ t) = Inr (p, skip_ws t) \<and>
      words_of p = redirected (EXEC args) rs"
    using p k by (cases k) (auto simp: parseredirs_skip parseargs_skip words_redirected)
qed

lemma exec_reads_REDIR:
  assumes "exec_reads c" "good_redir (w, m, f)"
  shows "exec_reads (REDIR c w m f)"
  unfolding exec_reads_def
proof (intro allI impI)
  fix rs t k
  assume "\<forall>r \<in> set rs. good_redir r" "stops {124, 41, 38, 59} t"
    and "4 * length (show_cmd (REDIR c w m f) 3 @ concat (map show_redir rs) @ t) + 2 \<le> k"
  then show "\<exists>p. parseexec k (show_cmd (REDIR c w m f) 3 @ concat (map show_redir rs) @ t) = Inr (p, skip_ws t) \<and>
      words_of p = redirected (REDIR c w m f) rs"
    using assms(1) [unfolded exec_reads_def, rule_format, of "(w, m, f) # rs" t k] assms(2)
    by (auto simp: redirected_def)
qed

lemma pipe_reads_PIPE:
  assumes "exec_reads l" "pipe_reads r"
  shows "pipe_reads (PIPE l r)"
  unfolding pipe_reads_def
proof (intro allI impI)
  fix t k assume t: "stops {41, 38, 59} t" and k: "4 * length (show_cmd (PIPE l r) 2 @ t) + 3 \<le> k"
  let ?u = "show_cmd r 2 @ t"
  obtain j where j: "k = Suc j" using k by (cases k) auto
  have "stops {124, 41, 38, 59} (124 # ?u)" by (rule stops_here) simp_all
  then obtain p where p: "parseexec j (show_cmd l 3 @ 124 # ?u) = Inr (p, 124 # ?u)" "words_of p = l"
    using assms(1) [unfolded exec_reads_def, rule_format, of "[]" "124 # ?u" j] j k sym_not_ws [of 124]
    by (auto simp: paren_def redirected_def)
  obtain q where q: "parsepipe j ?u = Inr (q, skip_ws t)" "words_of q = r"
    using assms(2) [unfolded pipe_reads_def, rule_format, OF t, of j] j k by (auto simp: paren_def)
  show "\<exists>p. parsepipe k (show_cmd (PIPE l r) 2 @ t) = Inr (p, skip_ws t) \<and> words_of p = PIPE l r"
    using p q j peek_here [of 124 ?u "[124]"] sym_not_ws [of 124] gettoken_sym [of 124 ?u]
    by (simp add: paren_def parsepipe_skip)
qed

lemma backs_read_BACK:
  assumes "backs_read c"
  shows "backs_read (BACK c)"
  unfolding backs_read_def
proof (intro allI impI)
  fix t k assume t: "stops {41, 38, 59} t" and k: "4 * length (show_cmd (BACK c) 1 @ t) + 3 \<le> k"
  have "stops {41, 38, 59} (38 # t)" by (rule stops_here) simp_all
  then obtain p0 s0 p where p: "parsepipe k (show_cmd c 1 @ 38 # t) = Inr (p0, s0)"
      "parsebacks p0 s0 = parsebacks p (38 # t)" "words_of p = c"
    using assms [unfolded backs_read_def, rule_format, of "38 # t" k] k by (auto simp: paren_def)
  show "\<exists>p0 s0 p. parsepipe k (show_cmd (BACK c) 1 @ t) = Inr (p0, s0) \<and> parsebacks p0 s0 = parsebacks p t \<and>
      words_of p = BACK c"
    by (rule exI [of _ p0], rule exI [of _ s0], rule exI [of _ "BACK p"])
      (use p in \<open>simp add: paren_def parsebacks_amp\<close>)
qed

lemma line_reads_LIST:
  assumes "backs_read l" "line_reads r"
  shows "line_reads (LIST l r)"
  unfolding line_reads_def
proof (intro allI impI)
  fix t k assume t: "stops {41} t" and k: "4 * length (show_cmd (LIST l r) 0 @ t) + 4 \<le> k"
  let ?u = "show_cmd r 0 @ t"
  obtain j where j: "k = Suc j" using k by (cases k) auto
  have "stops {41, 38, 59} (59 # ?u)" by (rule stops_here) simp_all
  then obtain p0 s0 p where p: "parsepipe j (show_cmd l 1 @ 59 # ?u) = Inr (p0, s0)"
      "parsebacks p0 s0 = parsebacks p (59 # ?u)" "words_of p = l"
    using assms(1) [unfolded backs_read_def, rule_format, of "59 # ?u" j] j k by (auto simp: paren_def)
  have b: "parsebacks p (59 # ?u) = (p, 59 # ?u)"
    using parsebacks_stop [OF stops_here, of 59] sym_not_ws [of 59] by simp
  obtain q where q: "parseline j ?u = Inr (q, skip_ws t)" "words_of q = r"
    using assms(2) [unfolded line_reads_def, rule_format, OF t, of j] j k by (auto simp: paren_def)
  show "\<exists>p. parseline k (show_cmd (LIST l r) 0 @ t) = Inr (p, skip_ws t) \<and> words_of p = LIST l r"
    using p b q j peek_here [of 59 ?u "[59]"] sym_not_ws [of 59] gettoken_sym [of 59 ?u]
    by (simp add: paren_def parseline_skip)
qed

lemma good_reads: "good_cmd c \<Longrightarrow> exec_reads c \<and> pipe_reads c \<and> backs_read c \<and> line_reads c"
proof (induction c)
  case (EXEC args)
  then show ?case
    by (intro conjI backs_read_line pipe_reads_backs exec_reads_pipe exec_reads_EXEC) simp_all
next
  case (REDIR c w m f)
  then show ?case
    by (intro conjI backs_read_line pipe_reads_backs exec_reads_pipe exec_reads_REDIR) simp_all
next
  case (PIPE l r)
  then have p: "pipe_reads (PIPE l r)" by (simp add: pipe_reads_PIPE)
  then have b: "backs_read (PIPE l r)" by (rule pipe_reads_backs) (simp add: paren_def)
  then have n: "line_reads (PIPE l r)" by (rule backs_read_line) (simp add: paren_def)
  then have "exec_reads (PIPE l r)" by (rule line_reads_exec) (simp add: paren_def)
  with p b n show ?case by simp
next
  case (LIST l r)
  then have n: "line_reads (LIST l r)" by (simp add: line_reads_LIST)
  then have e: "exec_reads (LIST l r)" by (rule line_reads_exec) (simp add: paren_def)
  then have p: "pipe_reads (LIST l r)" by (rule exec_reads_pipe) (simp add: paren_def)
  then have "backs_read (LIST l r)" by (rule pipe_reads_backs) (simp add: paren_def)
  with n e p show ?case by simp
next
  case (BACK c)
  then have b: "backs_read (BACK c)" by (simp add: backs_read_BACK)
  then have n: "line_reads (BACK c)" by (rule backs_read_line) (simp add: paren_def)
  then have e: "exec_reads (BACK c)" by (rule line_reads_exec) (simp add: paren_def)
  then have "pipe_reads (BACK c)" by (rule exec_reads_pipe) (simp add: paren_def)
  with b n e show ?case by simp
qed

lemma show_cmd_nonzero: "good_cmd c \<Longrightarrow> 0 \<notin> set (show_cmd c p)"
  by (induction c arbitrary: p)
    (auto simp: paren_def show_word_def show_redir_def good_redir_def good_word_def)

text \<open>C31: The command parser reads every command.  A command of words, redirections, pipes, lists and
  background jobs, with at most nine words in a program's arguments, has a line (its words followed by
  spaces, parentheses where the grammar needs them) from which \<open>parsecmd\<close> builds exactly that command:
  its strings, taken as C strings at the stored pointers in the buffer in which \<open>nulterminate\<close> wrote its
  zeros, are the command's words.\<close>

theorem parsecmd_reads:
  assumes "good_cmd c"
  shows "\<exists>p b. parsecmd (show_cmd c 0) = Inr (p, b) \<and>
    map_cmd (\<lambda>w. cstr_at b (length (show_cmd c 0) - length (fst w))) p = c"
proof -
  let ?s = "show_cmd c 0"
  have "stops {41} []" by (simp add: stops_def)
  then obtain p where p: "parseline (4 * length ?s + 4) ?s = Inr (p, [])" "words_of p = c"
    using good_reads [OF assms] unfolding line_reads_def by fastforce
  have "set_cmd p \<subseteq> spans ?s"
    using fine_within [OF parse_fine(1) p(1) suffix_order.refl] by simp
  then have "map_cmd (\<lambda>w. cstr_at (nulterminate (length ?s) p (?s @ [0])) (length ?s - length (fst w))) p = words_of p"
    using show_cmd_nonzero [OF assms] by (intro cmd.map_cong0 nulterminate_word)
  then show ?thesis using p by (simp add: parsecmd_def peek_def Let_def)
qed

theorem parsecmd_reads_witness:
  "let c = LIST (BACK (REDIR (EXEC [[108, 115]]) [102] O_WRCREATE 1)) (PIPE (EXEC [[97], [98]]) (EXEC [[99]])) in
   show_cmd c 0 = [108, 115, 32, 62, 102, 32, 38, 59, 97, 32, 98, 32, 124, 99, 32] \<and>
   (\<exists>p b. parsecmd (show_cmd c 0) = Inr (p, b) \<and>
     map_cmd (\<lambda>w. cstr_at b (length (show_cmd c 0) - length (fst w))) p = c)"
proof -
  let ?c = "LIST (BACK (REDIR (EXEC [[108, 115]]) [102] O_WRCREATE 1)) (PIPE (EXEC [[97], [98]]) (EXEC [[99]]))"
  have "good_cmd ?c" by (simp add: good_word_def good_redir_def is_ws_def is_sym_def)
  from parsecmd_reads [OF this] show ?thesis
    by (simp add: Let_def show_word_def show_redir_def paren_def)
qed

end
