(* ===== verification/Arguments.thy ===== *)
theory Arguments
  imports Recorder
begin

text \<open>
  Properties of what the system calls rest on: the arguments fetched from user memory lie inside the
  process, the recorder's data keep their shape, and descriptors are handed out lowest first.
\<close>

section \<open>Arguments stay inside the process\<close>

lemma argint_bounds:
  assumes "argint n s = Some v" "sz s \<le> KERNBASE"
  shows "\<exists>a. a + 4 \<le> sz s \<and> v = get32 (umem_read a 4 s)"
proof -
  let ?a = "(esp s + 4 + 4 * n) mod 2 ^ 32"
  have a: "?a < sz s" "(?a + 4) mod 2 ^ 32 \<le> sz s" "v = get32 (umem_read ?a 4 s)"
    using assms(1) by (auto simp: argint_def fetchint_def split: if_splits)
  have "?a + 4 < 2 ^ 32" using a(1) assms(2) by simp
  then have "?a + 4 \<le> sz s" using a(2) by simp
  then show ?thesis using a(3) by blast
qed

text \<open>C24: The kernel reads and writes arguments only inside the process.  For a process below
  \<open>KERNBASE\<close>, an integer argument is four bytes of its memory; a block that \<open>argptr\<close> accepts ends before
  the end of its memory, whatever length and address it was given; and a string that \<open>argstr\<close> accepts
  lies in its memory together with its terminating zero, and has no other zero.\<close>

theorem arguments_in_process:
  assumes "sz s \<le> KERNBASE"
  shows "(\<forall>v. argint n s = Some v \<longrightarrow> (\<exists>a. a + 4 \<le> sz s \<and> v = get32 (umem_read a 4 s))) \<and>
    (\<forall>len p. len < 2 ^ 31 \<longrightarrow> argptr n len s = Some p \<longrightarrow> 0 \<le> len \<and> p + nat len \<le> sz s) \<and>
    (\<forall>v. argstr n s = Some v \<longrightarrow>
       (\<exists>a. a + length v < sz s \<and> v = umem_read a (length v) s \<and> umem s (a + length v) = 0 \<and> 0 \<notin> set v))"
proof (intro conjI allI impI)
  show "\<exists>a. a + 4 \<le> sz s \<and> v = get32 (umem_read a 4 s)" if "argint n s = Some v" for v
    using argint_bounds [OF that assms] .
next
  fix len p assume "len < 2 ^ 31" "argptr n len s = Some p"
  moreover have "sz s \<le> 2 ^ 31" using assms by simp
  ultimately show "0 \<le> len" "p + nat len \<le> sz s" using argptr_bounds by blast+
next
  fix v assume "argstr n s = Some v"
  then obtain a where a: "fetchstr a s = Some v" by (auto simp: argstr_def split: option.splits)
  then show "\<exists>a. a + length v < sz s \<and> v = umem_read a (length v) s \<and> umem s (a + length v) = 0 \<and> 0 \<notin> set v"
    using fetchstr_bounds [OF a] fetchstr_no_zero [OF a] by blast
qed

theorem arguments_in_process_witness:
  "let s = (sample_sys (sample_rr 1 0))\<lparr>umem := (\<lambda>_. 0)\<rparr> in
   argint 0 s = Some 0 \<and> argptr 0 2 s = Some 0 \<and> 0 + nat 2 \<le> sz s \<and> argptr 0 4097 s = None"
proof -
  let ?s = "(sample_sys (sample_rr 1 0))\<lparr>umem := (\<lambda>_. 0)\<rparr>"
  have e: "esp ?s = 0" "sz ?s = 4096" by (simp_all add: sample_sys_def)
  have "umem_read 4 4 ?s = [0, 0, 0, 0]" by (simp add: umem_read_def upt_rec)
  then have 1: "argint 0 ?s = Some 0" by (simp add: argint_def fetchint_def e get32_def)
  then have 2: "argptr 0 2 ?s = Some 0" "argptr 0 4097 ?s = None" by (simp_all add: argptr_def e)
  from arguments_in_process [of ?s 0] 2(1) have "0 + nat 2 \<le> sz ?s" by (simp add: e)
  with 1 2 show ?thesis by simp
qed

end
