(* ===== verification/Typing.thy ===== *)
theory Typing
  imports Replay
begin

text \<open>
  The recorder's data keep their shape: records have four arguments, arguments the size of the union
  \<open>Val\<close>, and the arrays of a session their lengths, whatever a recording file or a process supplies.
\<close>

definition rr_typed :: "rrst \<Rightarrow> bool" where
  "rr_typed s \<longleftrightarrow> length (recorded_scrs s) = MAX_SCRS \<and> (\<forall>r \<in> set (recorded_scrs s). scr_shape r) \<and>
     length (buffer s) = MAX_FILE_SIZE \<and> length (junk s) = VAL_SIZE"

named_theorems typed \<open>what the recorder's operations give\<close>

lemma rr_typed_simps [simp]:
  "rr_typed (s\<lparr>killed := a\<rparr>) = rr_typed s" "rr_typed (s\<lparr>replay_syscalls := b\<rparr>) = rr_typed s"
  "rr_typed (s\<lparr>record_syscalls := b\<rparr>) = rr_typed s" "rr_typed (s\<lparr>scrs_idx := i\<rparr>) = rr_typed s"
  "rr_typed (s\<lparr>buffer_pos := i\<rparr>) = rr_typed s" "rr_typed (s\<lparr>rr_pid := i\<rparr>) = rr_typed s"
  by (simp_all add: rr_typed_def)

lemma RecRepErr_typed [typed]: "gives rr_typed RecRepErr (\<lambda>_. True)"
  by (auto simp: RecRepErr_def intro: gives_md)

lemma whn_err_typed: "gives rr_typed (whn b RecRepErr) (\<lambda>_. True)"
  by (intro gives_whn RecRepErr_typed) simp

lemma junk_typed: "gives rr_typed (rd junk) (\<lambda>g. length g = VAL_SIZE)"
  by (intro gives_rd) (simp add: rr_typed_def)

lemma put_arg_typed: "scr_shape scr \<Longrightarrow> arg_ok a \<Longrightarrow> gives rr_typed (put_arg scr a) scr_shape"
  unfolding put_arg_def by (intro gives_if gives_ret gives_stop) simp

lemma arg_okI: "length v = VAL_SIZE \<Longrightarrow> arg_ok \<lparr>arg_type = t, arg_val = v\<rparr>"
  by (simp add: arg_ok_def)

lemma addInt_typed [typed]: "scr_shape scr \<Longrightarrow> gives rr_typed (addInt scr v) scr_shape"
  unfolding addInt_def
  by (intro gives_bnd [OF whn_err_typed] gives_bnd [OF junk_typed] put_arg_typed arg_okI) simp_all

lemma addUInt_typed [typed]: "scr_shape scr \<Longrightarrow> gives rr_typed (addUInt scr v) scr_shape"
  unfolding addUInt_def
  by (intro gives_bnd [OF whn_err_typed] gives_bnd [OF junk_typed] put_arg_typed arg_okI) simp_all

lemma addStr_typed [typed]: "scr_shape scr \<Longrightarrow> gives rr_typed (addStr scr str) scr_shape"
  unfolding addStr_def
  by (intro gives_bnd [OF whn_err_typed] gives_bnd [OF junk_typed] put_arg_typed arg_okI
      gives_bnd [OF gives_chk [where Q = "\<lambda>_. length str \<le> MAX_RAW_SIZE"]]) simp_all

lemma addRaw_typed [typed]: "scr_shape scr \<Longrightarrow> gives rr_typed (addRaw scr m n) scr_shape"
  unfolding addRaw_def
  by (intro gives_bnd [OF whn_err_typed] gives_bnd [OF junk_typed] put_arg_typed arg_okI
      gives_bnd [OF gives_chk [where Q = "\<lambda>_. 0 \<le> n \<and> n \<le> int MAX_RAW_SIZE \<and> nat n \<le> length m"]])
    (simp_all add: nat_le_iff)

lemma addStat_typed [typed]: "scr_shape scr \<Longrightarrow> gives rr_typed (addStat scr t) scr_shape"
  unfolding addStat_def
  by (intro gives_bnd [OF whn_err_typed] gives_bnd [OF junk_typed] put_arg_typed arg_okI) simp_all

lemma get_scr_typed: "gives rr_typed (get_scr i) scr_shape"
  unfolding get_scr_def by (intro gives_if gives_stop gives_rd) (auto simp: rr_typed_def nat_less_iff)

lemma set_scr_typed: "scr_shape r \<Longrightarrow> gives rr_typed (set_scr i r) (\<lambda>_. True)"
  unfolding set_scr_def
  by (intro gives_if gives_stop gives_md) (auto simp: rr_typed_def dest: set_update_subset_insert [THEN subsetD])

lemma addSRC_typed [typed]: "scr_shape r \<Longrightarrow> gives rr_typed (addSRC r) (\<lambda>_. True)"
  unfolding addSRC_def
  by (intro gives_bnd [OF gives_rd [where Q = "\<lambda>_. True"]] gives_if RecRepErr_typed
      gives_bnd [OF set_scr_typed] gives_md) simp_all

lemma get_arg_typed: "scr_shape r \<Longrightarrow> gives rr_typed (get_arg r i) arg_ok"
  unfolding get_arg_def by (intro gives_if gives_stop gives_ret) (simp add: scr_shape_def nat_less_iff)

lemma same_data_typed: "gives rr_typed (same_data x y js) (\<lambda>_. True)"
proof (induction js)
  case (Cons j js)
  show ?case
    unfolding same_data.simps by (intro gives_bnd [OF gives_chk [where Q = "\<lambda>_. True"]] gives_if gives_ret Cons) simp_all
qed (unfold same_data.simps, rule gives_ret, simp)

lemma compare_arg_typed: "gives rr_typed (compare_arg x a) (\<lambda>_. True)"
  unfolding compare_arg_def
  by (intro gives_if gives_bnd [OF RecRepErr_typed] gives_bnd [OF same_data_typed] gives_ret) simp_all

lemma compare_args_typed: "gives rr_typed (compare_args r scr is) (\<lambda>_. True)"
proof (induction "is")
  case (Cons i "is")
  have g: "gives rr_typed (get_arg r' i) (\<lambda>_. True)" for r'
    unfolding get_arg_def by (intro gives_if gives_stop gives_ret) simp
  show ?case
    unfolding compare_args.simps
    by (intro gives_bnd [OF g] gives_bnd [OF compare_arg_typed] gives_if gives_ret Cons) simp
qed (unfold compare_args.simps, rule gives_ret, simp)

lemma createSCR_shape: "rr_typed s \<Longrightarrow> scr_shape (createSCR n s)"
  by (simp add: rr_typed_def scr_shape_def createSCR_def arg_ok_def)

lemma compareSCRS_typed [typed]: "gives rr_typed (compareSCRS scr) scr_shape"
  unfolding compareSCRS_def
  by (intro gives_bnd [OF gives_rd [where Q = "\<lambda>_. True"]] gives_if gives_bnd [OF RecRepErr_typed]
      gives_bnd [OF get_scr_typed] gives_bnd [OF gives_md [where Q = "\<lambda>_. True"]] gives_rd
      gives_bnd [OF compare_args_typed] gives_ret) (simp_all add: createSCR_shape)

section \<open>The two-way transform\<close>

lemma memmove_typed: "gives rr_typed (memmove_and_increment d obj n) (\<lambda>b. length b = length obj)"
  unfolding gives_def
proof (intro allI impI)
  fix s b s' assume t: "rr_typed s" and m: "memmove_and_increment d obj n s = Inr (b, s')"
  let ?on = "replay_syscalls s = 1 \<or> record_syscalls s = 1"
  have c: "?on \<Longrightarrow> 0 \<le> n \<and> 0 \<le> d \<and> d + n \<le> int MAX_FILE_SIZE \<and> nat n \<le> length obj"
    by (rule ccontr) (use m in \<open>auto simp: memmove_and_increment_def bnd_def whn_def\<close>)
  have n: "?on \<Longrightarrow> nat d + nat n \<le> MAX_FILE_SIZE" using c by linarith
  show "rr_typed s' \<and> length b = length obj"
  proof (cases ?on)
    case True
    then show ?thesis
      using m c n t by (auto simp: memmove_and_increment_def Let_def whn_def rr_typed_def split: if_splits)
  next
    case False
    then show ?thesis using m t by (auto simp: memmove_and_increment_def Let_def)
  qed
qed

lemma xfer_typed: "gives rr_typed (xfer obj n) (\<lambda>b. length b = length obj)"
  unfolding xfer_def by (intro gives_bnd [OF gives_rd [where Q = "\<lambda>_. True"]] memmove_typed) simp

lemma xfer_field_typed:
  assumes "length v = VAL_SIZE" "off + k \<le> VAL_SIZE"
  shows "gives rr_typed (xfer_field off k v) (\<lambda>v. length v = VAL_SIZE)"
  unfolding xfer_field_def by (intro gives_bnd [OF xfer_typed] gives_ret) (use assms in simp)

lemma xfer_val_typed: "length v = VAL_SIZE \<Longrightarrow> gives rr_typed (xfer_val t v) (\<lambda>v. length v = VAL_SIZE)"
  unfolding xfer_val_def
  by (intro gives_if gives_bnd [OF xfer_field_typed] gives_bnd [OF xfer_typed] xfer_field_typed
      gives_bnd [OF RecRepErr_typed] gives_ret)
    (simp_all add: raw_data_def)

lemma xfer_args_typed:
  "scr_shape r \<Longrightarrow> gives rr_typed (xfer_args is r) (\<lambda>(st, r'). scr_shape r')"
proof (induction "is" arbitrary: r)
  case (Cons i "is")
  show ?case
    unfolding xfer_args.simps Let_def
    by (intro gives_bnd [OF get_arg_typed] gives_bnd [OF gives_rd [where Q = "\<lambda>_. True"]] gives_if
        gives_bnd [OF xfer_typed] gives_bnd [OF xfer_val_typed] gives_ret Cons.IH)
      (use Cons.prems in \<open>simp_all add: arg_ok_def\<close>)
qed (unfold xfer_args.simps, rule gives_ret, simp)

lemma transform_typed:
  "scr_shape r \<Longrightarrow> gives rr_typed (bidirectionalTransform r n) (\<lambda>(st, r'). scr_shape r')"
  unfolding bidirectionalTransform_def Let_def
  by (intro gives_bnd [OF gives_rd [where Q = "\<lambda>_. True"]] gives_if gives_bnd [OF xfer_typed] gives_ret
      xfer_args_typed) simp_all

lemma transform_loop_typed: "gives rr_typed (transform_loop n is) (\<lambda>_. True)"
proof (induction "is")
  case (Cons i "is")
  show ?case
    unfolding transform_loop.simps
    by (rule gives_bnd [OF get_scr_typed], rule gives_bnd [OF transform_typed], assumption)
      (simp only: case_prod_beta', intro gives_bnd [OF set_scr_typed] gives_if gives_ret Cons, simp_all)
qed (unfold transform_loop.simps, rule gives_ret, simp)

lemma xfer_idx_typed: "gives rr_typed xfer_idx (\<lambda>_. True)"
  unfolding xfer_idx_def
  by (intro gives_bnd [OF gives_rd [where Q = "\<lambda>_. True"]] gives_bnd [OF memmove_typed] gives_md) simp_all

lemma record_pack_typed [typed]: "gives rr_typed record_pack (\<lambda>_. True)"
  unfolding record_pack_def
  by (intro gives_bnd [OF gives_md [where Q = "\<lambda>_. True"]] gives_bnd [OF xfer_idx_typed]
      gives_bnd [OF gives_rd [where Q = "\<lambda>_. True"]] gives_bnd [OF transform_loop_typed] gives_if
      gives_bnd [OF RecRepErr_typed] gives_ret) simp_all

lemma replay_unpack_typed [typed]: "gives rr_typed (replay_unpack n) (\<lambda>_. True)"
  unfolding replay_unpack_def
  by (intro gives_bnd [OF xfer_idx_typed] gives_bnd [OF gives_rd [where Q = "\<lambda>_. True"]]
      gives_bnd [OF transform_loop_typed] gives_if gives_ret gives_bnd [OF gives_md [where Q = "\<lambda>_. True"]]) simp_all

lemma reset_session_typed [typed]: "gives rr_typed (reset_session pid) (\<lambda>_. True)"
  unfolding reset_session_def
  by (intro gives_md) (auto simp: rr_typed_def scr_shape_def createSCR_def arg_ok_def)



end
