(* ===== verification/File_Refs.thy ===== *)
theory File_Refs
  imports Handlers
begin

text \<open>
  Reference counts of open files.  The count of every entry of the file table is the number of the
  process's descriptors for it plus the references held elsewhere (by other processes, or by the
  kernel path itself between allocating a file and giving it a descriptor).
\<close>

definition refs :: "(nat \<Rightarrow> int) \<Rightarrow> 'z filest_scheme \<Rightarrow> bool" where
  "refs E s \<longleftrightarrow> length (ftable s) = NFILE \<and> length (ofile s) = NOFILE \<and>
     (\<forall>f. Some f \<in> set (ofile s) \<longrightarrow> f < NFILE) \<and>
     (\<forall>f < NFILE. f_ref (file_at s f) = int (count_list (ofile s) (Some f)) + E f)"

definition extra :: "nat \<Rightarrow> int \<Rightarrow> (nat \<Rightarrow> int) \<Rightarrow> nat \<Rightarrow> int" where
  "extra f d E = E(f := E f + d)"

lemma extra_zero [simp]: "extra f 0 E = E"
  by (simp add: extra_def)

section \<open>The operations below the file table\<close>

lemma refs_upd [simp]:
  "refs E (s\<lparr>held := a\<rparr>) = refs E s" "refs E (s\<lparr>slocks := b\<rparr>) = refs E s"
  "refs E (s\<lparr>kfreelist := c\<rparr>) = refs E s" "refs E (s\<lparr>pages := d\<rparr>) = refs E s"
  "refs E (s\<lparr>pipes := e\<rparr>) = refs E s" "refs E (s\<lparr>input := f\<rparr>) = refs E s"
  "refs E (s\<lparr>cons_out := g\<rparr>) = refs E s" "refs E (s\<lparr>bufs := h\<rparr>) = refs E s"
  "refs E (s\<lparr>blru := i\<rparr>) = refs E s" "refs E (s\<lparr>idequeue := j\<rparr>) = refs E s"
  "refs E (s\<lparr>disk := k\<rparr>) = refs E s" "refs E (s\<lparr>dwrites := l\<rparr>) = refs E s"
  "refs E (s\<lparr>log_outstanding := m\<rparr>) = refs E s" "refs E (s\<lparr>log_committing := n\<rparr>) = refs E s"
  "refs E (s\<lparr>log_lh := o'\<rparr>) = refs E s" "refs E (s\<lparr>icache := p\<rparr>) = refs E s"
  "refs E (s\<lparr>cwd := q\<rparr>) = refs E s" "refs E (s\<lparr>pkilled := r\<rparr>) = refs E s"
  by (simp_all add: refs_def)

lemma refs_user [simp]:
  "refs E (t\<lparr>umem := m\<rparr>) = refs E t" "refs E (t\<lparr>rr := r\<rparr>) = refs E t" "refs E (t\<lparr>ticks := x\<rparr>) = refs E t"
  for t :: "'z sysst_scheme"
  by (simp_all add: refs_def)

interpretation refs: fs_frame "refs E" for E
  by unfold_locales simp_all

section \<open>The file table and the descriptors\<close>

lemma count_list_update:
  assumes "i < length xs"
  shows "int (count_list (xs[i := y]) z) =
    int (count_list xs z) - (if xs ! i = z then 1 else 0) + (if y = z then 1 else 0)"
  using assms
proof (induction xs arbitrary: i)
  case (Cons x xs)
  show ?case
  proof (cases i)
    case (Suc j)
    then show ?thesis using Cons.IH [of j] Cons.prems by (simp split: if_splits del: of_nat_eq_iff)
  qed auto
qed simp

lemma refs_file:
  "refs E s \<Longrightarrow> f < NFILE \<Longrightarrow> refs (extra f (f_ref x - f_ref (file_at s f)) E) (s\<lparr>ftable := (ftable s)[f := x]\<rparr>)"
  by (auto simp: refs_def extra_def nth_list_update)

lemma refs_ofile:
  assumes "refs E s" "n < NOFILE" "case x of None \<Rightarrow> True | Some f \<Rightarrow> f < NFILE"
  shows "refs (\<lambda>f. E f + (if ofile s ! n = Some f then 1 else 0) - (if x = Some f then 1 else 0))
    (s\<lparr>ofile := (ofile s)[n := x]\<rparr>)"
  using assms set_update_subset_insert [of "ofile s" n x]
  by (auto simp: refs_def count_list_update split: option.splits)

lemma upd_file_keep [keep_intros]:
  assumes "\<And>x. f_ref (g x) = f_ref x"
  shows "keeps (refs E) (upd_file f g :: ('z filest_scheme, unit) kfun)"
proof -
  have "refs E (s\<lparr>ftable := (ftable s)[f := g (file_at s f)]\<rparr>)" if r: "refs E s" for s :: "'z filest_scheme"
  proof (cases "f < NFILE")
    case True
    from refs_file [OF r True, of "g (file_at s f)"] show ?thesis by (simp add: assms)
  next
    case False
    then have "(ftable s)[f := g (file_at s f)] = ftable s"
      using r by (intro list_update_beyond) (simp add: refs_def)
    then show ?thesis using r by simp
  qed
  then show ?thesis by (simp add: upd_file_def keeps_def)
qed

lemma upd_ref:
  assumes "f < NFILE" "\<And>x. f_ref (g x) = f_ref x + d"
  shows "leads (refs E) (upd_file f g :: ('z filest_scheme, unit) kfun) (\<lambda>_. refs (extra f d E))"
  unfolding upd_file_def
proof (rule leads_md)
  fix s :: "'z filest_scheme" assume "refs E s"
  from refs_file [OF this assms(1), of "g (file_at s f)"]
  show "refs (extra f d E) (s\<lparr>ftable := (ftable s)[f := g (file_at s f)]\<rparr>)" by (simp add: assms(2))
qed

lemma filedup_refs: "f < NFILE \<Longrightarrow> leads (refs E) (filedup f) (\<lambda>r s. refs (extra f 1 E) s)"
  unfolding filedup_def
  by (intro leads_keep_then leads_if leads_stop leads_bnd [OF upd_ref] leads_ret refs.keep_locks keeps_rd) simp_all

lemma filealloc_refs:
  "leads (refs E) (filealloc :: ('z filest_scheme, nat option) kfun)
     (\<lambda>r s. case r of None \<Rightarrow> refs E s | Some f \<Rightarrow> f < NFILE \<and> refs (extra f 1 E) s)"
proof -
  have found: "f < NFILE \<and> f_ref (file_at s f) = 0"
    if "find (\<lambda>f. f_ref (file_at s f) = 0) [0..<NFILE] = Some f" for s :: "'z filest_scheme" and f
    using that by (auto simp: find_Some_iff)
  have upd: "leads (\<lambda>s. refs E s \<and> f < NFILE \<and> f_ref (file_at s f) = 0) (upd_file f (\<lambda>x. x\<lparr>f_ref := 1\<rparr>) :: ('z filest_scheme, unit) kfun)
      (\<lambda>_ s. f < NFILE \<and> refs (extra f 1 E) s)" for f
    unfolding upd_file_def
  proof (rule leads_md)
    fix s :: "'z filest_scheme" assume "refs E s \<and> f < NFILE \<and> f_ref (file_at s f) = 0"
    then show "f < NFILE \<and> refs (extra f 1 E) (s\<lparr>ftable := (ftable s)[f := (file_at s f)\<lparr>f_ref := 1\<rparr>]\<rparr>)"
      using refs_file [of E s f "(file_at s f)\<lparr>f_ref := 1\<rparr>"] by simp
  qed
  have none: "leads (refs E) (thn (rel LFtable) (ret None) :: ('z filest_scheme, nat option) kfun) (\<lambda>r s. case r of None \<Rightarrow> refs E s |
      Some f \<Rightarrow> f < NFILE \<and> refs (extra f 1 E) s)"
    by (intro leads_keep_then refs.keep_locks leads_ret) simp
  have rel: "keeps (\<lambda>s. f < NFILE \<and> refs (extra f 1 E) s) (rel LFtable :: ('z filest_scheme, unit) kfun)" for f
    by (rule keeps_conj [OF refs.keep_locks(2)])
  have some: "leads (\<lambda>s :: 'z filest_scheme. refs E s \<and> f < NFILE \<and> f_ref (file_at s f) = 0)
      (thn (upd_file f (\<lambda>x. x\<lparr>f_ref := 1\<rparr>)) (thn (rel LFtable) (ret (Some f))))
      (\<lambda>r s. case r of None \<Rightarrow> refs E s | Some f \<Rightarrow> f < NFILE \<and> refs (extra f 1 E) s)" for f
    by (rule leads_bnd [OF upd], rule leads_keep_then [OF rel], rule leads_ret) simp
  show ?thesis
    unfolding filealloc_def
  proof (rule leads_keep_then [OF refs.keep_locks(1)], rule leads_rd_then)
    fix r
    show "leads (\<lambda>s :: 'z filest_scheme. refs E s \<and> r = find (\<lambda>f. f_ref (file_at s f) = 0) [0..<NFILE])
        (case r of None \<Rightarrow> thn (rel LFtable) (ret None)
         | Some f \<Rightarrow> thn (upd_file f (\<lambda>x. x\<lparr>f_ref := 1\<rparr>)) (thn (rel LFtable) (ret (Some f))))
        (\<lambda>r s. case r of None \<Rightarrow> refs E s | Some f \<Rightarrow> f < NFILE \<and> refs (extra f 1 E) s)"
    proof (cases r)
      case None
      show ?thesis unfolding None option.case by (rule leads_pre [OF none]) simp
    next
      case (Some f)
      show ?thesis unfolding Some option.case by (rule leads_pre [OF some]) (simp add: found)
    qed
  qed
qed

text \<open>An update that sets the count, from a state where the old count is known.\<close>

lemma set_ref:
  assumes "f < NFILE" "\<And>x. f_ref (g x) = f_ref x + d \<or> f_ref x \<noteq> n"
  shows "leads (\<lambda>s. refs E s \<and> f_ref (file_at s f) = n) (upd_file f g)
    (\<lambda>_ s. refs (extra f d E) s \<and> f_ref (file_at s f) = n + d)"
  unfolding upd_file_def
proof (rule leads_md)
  fix s :: "'a filest_scheme" assume s: "refs E s \<and> f_ref (file_at s f) = n"
  then have "f_ref (g (file_at s f)) = n + d" using assms(2) by metis
  moreover have "f < length (ftable s)" using s assms(1) by (simp add: refs_def)
  ultimately show "refs (extra f d E) (s\<lparr>ftable := (ftable s)[f := g (file_at s f)]\<rparr>) \<and>
      f_ref (file_at (s\<lparr>ftable := (ftable s)[f := g (file_at s f)]\<rparr>) f) = n + d"
    using refs_file [of E s f "g (file_at s f)"] s assms(1) by simp
qed

lemma fileclose_refs:
  assumes "f < NFILE"
  shows "leads (refs E) (fileclose f) (\<lambda>_. refs (extra f (-1) E))"
proof -
  have last: "keeps (refs (extra f (-1) E)) (case f_type x of
      FD_PIPE \<Rightarrow> pipeclose (f_pipe x) (f_writable x)
    | FD_INODE \<Rightarrow> thn begin_op (thn (iput (f_ip x)) end_op)
    | FD_NONE \<Rightarrow> ret ())" for x
    by (intro keep_intros)
  have z: "leads (\<lambda>s. refs (extra f (-1) E) s \<and> f_ref (file_at s f) = 0)
      (upd_file f (\<lambda>x. x\<lparr>f_ref := 0, f_type := FD_NONE\<rparr>)) (\<lambda>_. refs (extra f (-1) E))"
    by (rule leads_conseq [OF set_ref [OF assms, where d = 0 and n = 0 and E = "extra f (-1) E"]]) simp_all
  have free: "leads (\<lambda>s. refs (extra f (-1) E) s \<and> f_ref (file_at s f) = 0)
      (thn (upd_file f (\<lambda>x. x\<lparr>f_ref := 0, f_type := FD_NONE\<rparr>)) (thn (rel LFtable)
        (case f_type x of
           FD_PIPE \<Rightarrow> pipeclose (f_pipe x) (f_writable x)
         | FD_INODE \<Rightarrow> thn begin_op (thn (iput (f_ip x)) end_op)
         | FD_NONE \<Rightarrow> ret ()))) (\<lambda>_. refs (extra f (-1) E))" for x
    by (rule leads_bnd [OF z], rule leads_keep_then [OF refs.keep_locks(2)], rule last [unfolded leads_keeps])
  show ?thesis
    unfolding fileclose_def
    apply (rule leads_keep_then [OF refs.keep_locks(1)], rule leads_rd_then, rule leads_if, rule leads_stop)
    subgoal for u x
      apply (rule leads_bnd [OF leads_pre [OF set_ref [OF assms, where d = "-1" and n = "f_ref x" and E = E]]])
        apply simp
       apply simp
      apply (rule leads_if)
       apply (rule leads_pre [OF refs.keep_locks(2) [unfolded leads_keeps]], simp)
      apply (rule leads_pre [OF free], simp)
      done
    done
qed

lemma fdalloc_refs_with:
  assumes "f < NFILE"
  shows "leads (\<lambda>s. refs E s \<and> P s) (fdalloc f :: ('z filest_scheme, int) kfun)
    (\<lambda>r s. if r < 0 then refs E s \<and> P s else refs (extra f (-1) E) s \<and> r < int NOFILE \<and> ofile s ! nat r = Some f)"
proof -
  have "refs (extra f (-1) E) (s\<lparr>ofile := (ofile s)[n := Some f]\<rparr>) \<and> n < NOFILE \<and>
      (ofile s)[n := Some f] ! n = Some f"
    if "refs E s" "find (\<lambda>fd. ofile s ! fd = None) [0..<NOFILE] = Some n" for s :: "'z filest_scheme" and n
  proof -
    have n: "n < NOFILE" "ofile s ! n = None"
      using that(2) by (auto simp: find_Some_iff simp del: upt_rec_numeral)
    have "(\<lambda>g. E g + (if ofile s ! n = Some g then 1 else 0) - (if Some f = Some g then 1 else 0)) = extra f (-1) E"
      using n by (auto simp: extra_def)
    then show ?thesis
      using refs_ofile [OF that(1) n(1), of "Some f"] n assms that(1) by (simp add: refs_def)
  qed
  then show ?thesis
    unfolding fdalloc_def leads_def
    by (auto split: option.splits)
qed

lemma fdalloc_refs:
  assumes "f < NFILE"
  shows "leads (refs E) (fdalloc f) (\<lambda>r s. if r < 0 then refs E s else refs (extra f (-1) E) s)"
  by (rule leads_conseq [OF fdalloc_refs_with [OF assms, where P = "\<lambda>_. True"]]) (auto split: if_splits)

lemma clear_fd_refs:
  assumes "n < NOFILE"
  shows "leads (\<lambda>s. refs E s \<and> ofile s ! n = Some f) (clear_fd n) (\<lambda>_ s. f < NFILE \<and> refs (extra f 1 E) s)"
  unfolding clear_fd_def
proof (rule leads_md)
  fix s :: "'z filest_scheme" assume s: "refs E s \<and> ofile s ! n = Some f"
  then have "Some f \<in> set (ofile s)" using assms by (metis nth_mem refs_def)
  then have "f < NFILE" using s by (simp add: refs_def)
  moreover have "(\<lambda>g. E g + (if ofile s ! n = Some g then 1 else 0) - (if None = Some g then 1 else 0)) = extra f 1 E"
    using s by (auto simp: extra_def)
  ultimately show "f < NFILE \<and> refs (extra f 1 E) (s\<lparr>ofile := (ofile s)[n := None]\<rparr>)"
    using refs_ofile [of E s n None] s assms by simp
qed

section \<open>System calls\<close>

lemma extra_cancel: "extra f (-1) (extra f 1 E) = E" "extra f 1 (extra f (-1) E) = E"
  by (auto simp: extra_def)

lemma fileclose_extra: "f < NFILE \<Longrightarrow> leads (refs (extra f 1 E)) (fileclose f) (\<lambda>_. refs E)"
  by (rule fileclose_refs [of f "extra f 1 E", unfolded extra_cancel])

lemma fd_fileD: "fd_file fd s = Some f \<Longrightarrow> nat fd < NOFILE \<and> ofile s ! nat fd = Some f"
  by (auto simp: fd_file_def split: if_splits)

lemma argfdD: "argfd n s = Some (fd, f) \<Longrightarrow> fd < NOFILE \<and> ofile s ! fd = Some f"
  by (auto simp: argfd_def dest: fd_fileD split: option.splits)

lemma refs_file_less: "refs E s \<Longrightarrow> fd < NOFILE \<Longrightarrow> ofile s ! fd = Some f \<Longrightarrow> f < NFILE"
  by (metis nth_mem refs_def)

lemma close_fd_keep:
  assumes "n < NOFILE"
  shows "leads (\<lambda>s. refs E s \<and> ofile s ! n = Some f) (thn (clear_fd n) (thn (fileclose f) (ret r))) (\<lambda>_. refs E)"
  by (rule leads_bnd [OF clear_fd_refs [OF assms]], rule leads_const,
      rule leads_then_keeps [OF fileclose_extra keeps_ret])

text \<open>A call that starts with fetching a descriptor may assume that its file is in the table.\<close>

lemma refs_argfd:
  assumes "\<And>fd f. f < NFILE \<Longrightarrow> fd < NOFILE \<Longrightarrow>
    leads (\<lambda>s. refs E s \<and> ofile s ! fd = Some f) (g fd f) (\<lambda>_. refs E)"
  shows "keeps (refs E) (bnd (rd (argfd n)) (\<lambda>a. case a of None \<Rightarrow> ret r | Some (fd, f) \<Rightarrow> g fd f))"
proof -
  have "refs E s'" if "refs E s" "argfd n s = Some (fd, f)" "g fd f s = Inr (x, s')" for s x s' fd f
    using that assms [OF refs_file_less [OF that(1)], of fd f fd] argfdD [OF that(2)] unfolding leads_def by blast
  then show ?thesis by (auto simp: keeps_def split: option.splits)
qed

lemma refs_fd_file:
  assumes "\<And>f. f < NFILE \<Longrightarrow> nat fd < NOFILE \<Longrightarrow>
    leads (\<lambda>s. refs E s \<and> ofile s ! nat fd = Some f) (g f) (\<lambda>_. refs E)"
  shows "keeps (refs E) (bnd (rd (fd_file fd)) (\<lambda>a. case a of None \<Rightarrow> ret r | Some f \<Rightarrow> g f))"
proof -
  have "refs E s'" if "refs E s" "fd_file fd s = Some f" "g f s = Inr (x, s')" for s x s' f
    using that assms [OF refs_file_less [OF that(1)], of "nat fd" f] fd_fileD [OF that(2)] unfolding leads_def by blast
  then show ?thesis by (auto simp: keeps_def split: option.splits)
qed

lemma refs_close [keep_intros]: "keeps (refs E) close_orig" "keeps (refs E) close_rec"
  unfolding close_orig_def close_rec_def by (rule refs_argfd, rule close_fd_keep, assumption)+

lemma refs_my_close [keep_intros]: "keeps (refs E) (my_close fd)"
  unfolding my_close_def by (rule refs_fd_file, rule close_fd_keep, assumption)

lemma leads_left: "leads P m Q \<Longrightarrow> leads (\<lambda>s. P s \<and> R s) m Q"
  by (erule leads_pre) blast

lemma refs_dup [keep_intros]: "keeps (refs E) sys_dup"
  unfolding sys_dup_def
proof (rule refs_argfd, rule leads_left)
  fix f assume f: "f < NFILE"
  show "leads (refs E) (bnd (fdalloc f) (\<lambda>fd. if fd < 0 then ret (-1) else thn (filedup f) (ret fd))) (\<lambda>_. refs E)"
    apply (rule leads_bnd [OF fdalloc_refs [OF f]], rule leads_if)
     apply (rule leads_ret, simp)
    apply (rule leads_then_keeps [OF _ keeps_ret], rule leads_conseq [OF filedup_refs [OF f, of "extra f (-1) E"]])
     apply simp
    apply (simp add: extra_cancel)
    done
qed

text \<open>Allocating a file and a descriptor for it, or giving the file back.\<close>

lemma refs_open_fd:
  assumes "keeps (refs E) a" "keeps (refs E) b" "\<And>f fd. keeps (refs E) (c f fd)"
  shows "keeps (refs E) (bnd filealloc (\<lambda>f. case f of None \<Rightarrow> a | Some f \<Rightarrow>
    bnd (fdalloc f) (\<lambda>fd. if fd < 0 then thn (fileclose f) b else c f fd)))"
  unfolding leads_keeps
  apply (rule leads_bnd [OF filealloc_refs], rule leads_option)
   apply (rule leads_pre [OF assms(1) [unfolded leads_keeps]], simp)
  apply simp
  apply (rule leads_const)
  apply (rule leads_bnd [OF fdalloc_refs], assumption)
  apply (rule leads_if)
   apply (rule leads_pre [OF leads_then_keeps [OF fileclose_extra assms(2)]], assumption, simp)
  apply (rule leads_pre [OF assms(3) [unfolded leads_keeps]])
  apply (simp add: extra_cancel)
  done

lemma refs_io [keep_intros]: "keeps (refs E) (filestat f)" "keeps (refs E) (advance f r)"
  unfolding filestat_def advance_def by (intro keep_intros; simp)+

lemma refs_fileread [keep_intros]: "keeps (refs E) (fileread f n)"
  unfolding fileread_def by (intro keep_intros)

lemma refs_filewrite_loop [keep_intros]: "keeps (refs E) (filewrite_loop f ip d n)"
proof (induction f ip d n rule: filewrite_loop.induct)
  case (1 f ip d n)
  then show ?case by (subst filewrite_loop.simps) (auto intro!: keep_intros simp: Let_def)
qed

lemma refs_filewrite [keep_intros]: "keeps (refs E) (filewrite f d n)"
  unfolding filewrite_def by (intro keep_intros)

lemma refs_umem [keep_intros]: "keeps (refs E) (umem_write a bs)" "keeps (refs E) (store_stat p st)"
  unfolding umem_write_def store_stat_def by (intro keep_intros; simp)+

lemma refs_rrdo [keep_intros]: "keeps (refs E) (rrdo m)"
  by (auto simp: keeps_def rrdo_def split: sum.splits)

lemma refs_create [keep_intros]: "keeps (refs E) (create path t a b)"
  unfolding create_def add_nlink_def by (intro keep_intros)

lemma refs_set_opened [keep_intros]: "keeps (refs E) (set_opened f ip m)"
  unfolding set_opened_def by (intro keep_intros; simp)

lemma refs_open [keep_intros]:
  "keeps (refs E) open_orig" "keeps (refs E) open_rec" "keeps (refs E) (my_open path m)"
  unfolding open_orig_def open_rec_def my_open_def open_inode_def open_fd_def
  by (intro refs_open_fd keep_intros)+

lemma refs_calls [keep_intros]:
  "keeps (refs E) read_orig" "keeps (refs E) read_rec" "keeps (refs E) fstat_orig" "keeps (refs E) fstat_rec"
  "keeps (refs E) link_orig" "keeps (refs E) link_rec" "keeps (refs E) unlink_orig" "keeps (refs E) unlink_rec"
  "keeps (refs E) mkdir_orig" "keeps (refs E) mkdir_rec" "keeps (refs E) mknod_orig" "keeps (refs E) mknod_rec"
  "keeps (refs E) chdir_orig" "keeps (refs E) chdir_rec" "keeps (refs E) sys_write"
  unfolding read_orig_def read_rec_def fstat_orig_def fstat_rec_def link_orig_def link_rec_def unlink_orig_def
    unlink_rec_def mkdir_orig_def mkdir_rec_def mknod_orig_def mknod_rec_def chdir_orig_def chdir_rec_def
    sys_write_def add_nlink_def
  by (intro keep_intros; simp)+

lemma refs_my_io [keep_intros]: "keeps (refs E) (my_read fd n)" "keeps (refs E) (my_write fd d n)"
  unfolding my_read_def my_write_def by (intro keep_intros)+

lemma refs_add_inputs [keep_intros]: "keeps (refs E) (add_inputs is scr)"
proof (induction "is" scr rule: add_inputs.induct)
  case (1 scr)
  show ?case unfolding add_inputs.simps by (rule keeps_ret)
next
  case (2 k "is" scr)
  show ?case unfolding add_inputs.simps myargint_def by (intro keep_intros 2)
next
  case (3 k "is" scr)
  show ?case unfolding add_inputs.simps myargstr_def by (intro keep_intros 3)
qed

lemma refs_output [keep_intros]: "keeps (refs E) (ret_output r)" "keeps (refs E) (get_arg r i)"
  unfolding ret_output_def out_num_def get_arg_def by (intro keep_intros)+

lemma refs_rr_call [keep_intros]:
  "keeps (refs E) a \<Longrightarrow> keeps (refs E) b \<Longrightarrow> keeps (refs E) (rr_call n ins out a b)"
  unfolding rr_call_def by (intro keep_intros)

lemma extra_swap:
  "extra f (-1) (extra g 1 (extra f 1 E)) = extra g 1 E" "extra f 1 (extra g 1 E) = extra g 1 (extra f 1 E)"
  by (auto simp: extra_def)

lemma pipealloc_refs:
  "leads (refs E) pipealloc (\<lambda>r s. case r of None \<Rightarrow> refs E s
     | Some (f0, f1) \<Rightarrow> f0 < NFILE \<and> f1 < NFILE \<and> refs (extra f1 1 (extra f0 1 E)) s)"
proof -
  have one: "leads (refs (extra f0 1 E)) (thn (fileclose f0) (ret None)) (\<lambda>r s. case r of None \<Rightarrow> refs E s
     | Some (f0, f1) \<Rightarrow> f0 < NFILE \<and> f1 < NFILE \<and> refs (extra f1 1 (extra f0 1 E)) s)" if "f0 < NFILE" for f0
    by (rule leads_bnd [OF fileclose_extra [OF that]], rule leads_ret) simp
  have two: "leads (refs (extra f1 1 (extra f0 1 E))) (thn (fileclose f0) (thn (fileclose f1) (ret None)))
     (\<lambda>r s. case r of None \<Rightarrow> refs E s
     | Some (f0, f1) \<Rightarrow> f0 < NFILE \<and> f1 < NFILE \<and> refs (extra f1 1 (extra f0 1 E)) s)" if "f0 < NFILE" "f1 < NFILE" for f0 f1
    by (rule leads_bnd [OF fileclose_refs [OF that(1)]], unfold extra_swap(1),
        rule leads_bnd [OF fileclose_extra [OF that(2)]], rule leads_ret) simp
  have set: "keeps (refs F) (thn (md (\<lambda>s. s\<lparr>pipes := (pipes s)(p := v)\<rparr>))
      (thn (upd_file f0 (\<lambda>x. x\<lparr>f_type := FD_PIPE, f_readable := True, f_writable := False, f_pipe := p\<rparr>))
           (upd_file f1 (\<lambda>x. x\<lparr>f_type := FD_PIPE, f_readable := False, f_writable := True, f_pipe := p\<rparr>))))"
    for F p v f0 f1
    by (intro keep_intros; simp)
  show ?thesis
    unfolding pipealloc_def
    apply (rule leads_bnd [OF filealloc_refs], rule leads_option)
     apply (rule leads_ret, simp)
    apply (simp only: option.case, rule leads_const, rule leads_bnd [OF filealloc_refs], rule leads_option)
     apply (simp only: option.case, rule one, assumption)
    apply (simp only: option.case, rule leads_const, rule leads_keep_then [OF refs.keep_kalloc(2)], rule leads_if)
     apply (rule two, assumption, assumption)
    apply (simp only: bnd_assoc [symmetric])
    apply (rule leads_keep_then [OF set [unfolded bnd_assoc [symmetric]]])
    apply (rule leads_ret, simp)
    done
qed

lemma close_two:
  assumes "f0 < NFILE" "f1 < NFILE"
  shows "leads (refs (extra f1 1 (extra f0 1 E))) (thn (fileclose f0) (thn (fileclose f1) (ret r))) (\<lambda>_. refs E)"
  by (rule leads_bnd [OF fileclose_refs [OF assms(1)]], unfold extra_swap(1),
      rule leads_then_keeps [OF fileclose_extra [OF assms(2)] keeps_ret])

lemma refs_pipe_fds:
  assumes f: "f0 < NFILE" "f1 < NFILE"
  shows "leads (refs (extra f1 1 (extra f0 1 E))) (bnd (fdalloc f0) (\<lambda>fd0.
     if fd0 < 0 then thn (fileclose f0) (thn (fileclose f1) (ret (-1)))
     else bnd (fdalloc f1) (\<lambda>fd1.
       if fd1 < 0 then thn (clear_fd (nat fd0)) (thn (fileclose f0) (thn (fileclose f1) (ret (-1))))
       else thn (umem_write p (put32 (word_of_int fd0) @ put32 (word_of_int fd1))) (ret 0)))) (\<lambda>_. refs E)"
proof -
  have undo: "leads (\<lambda>s. refs (extra f1 1 E) s \<and> ofile s ! n = Some f0)
      (thn (clear_fd n) (thn (fileclose f0) (thn (fileclose f1) (ret r)))) (\<lambda>_. refs E)" if "n < NOFILE" for n r
    by (rule leads_bnd [OF clear_fd_refs [OF that]], rule leads_const, subst extra_swap(2) [where f = f0 and g = f1],
        rule close_two [OF f])
  have fd1: "leads (\<lambda>s. refs (extra f1 1 E) s \<and> ofile s ! n = Some f0) (bnd (fdalloc f1) (\<lambda>fd1.
       if fd1 < 0 then thn (clear_fd n) (thn (fileclose f0) (thn (fileclose f1) (ret r)))
       else thn (umem_write p (d fd1)) (ret 0))) (\<lambda>_. refs E)" if "n < NOFILE" for n r d
    apply (rule leads_bnd [OF fdalloc_refs_with [OF f(2)]], rule leads_if)
     apply (rule leads_pre [OF undo [OF that]], simp)
    apply (rule leads_then_keeps [OF _ keeps_ret], rule leads_pre [OF refs_umem(1) [unfolded leads_keeps]])
    apply (simp only: extra_cancel if_False)
    done
  show ?thesis
    apply (rule leads_bnd [OF leads_pre [OF fdalloc_refs_with [OF f(1), where P = "\<lambda>_. True"]]], simp)
    apply (rule leads_if)
     apply (rule leads_pre [OF close_two [OF f]], simp)
    subgoal for fd0
      apply (cases "fd0 < int NOFILE")
       apply (rule leads_pre [OF fd1], simp, simp only: extra_swap(1) if_False)
      apply (simp add: leads_def)
      done
    done
qed

lemma refs_pipe [keep_intros]: "keeps (refs E) sys_pipe"
proof -
  have "leads (refs E) (bnd pipealloc (\<lambda>r. case r of None \<Rightarrow> ret (-1) | Some (f0, f1) \<Rightarrow>
     bnd (fdalloc f0) (\<lambda>fd0.
     if fd0 < 0 then thn (fileclose f0) (thn (fileclose f1) (ret (-1)))
     else bnd (fdalloc f1) (\<lambda>fd1.
       if fd1 < 0 then thn (clear_fd (nat fd0)) (thn (fileclose f0) (thn (fileclose f1) (ret (-1))))
       else thn (umem_write p (put32 (word_of_int fd0) @ put32 (word_of_int fd1))) (ret 0))))) (\<lambda>_. refs E)" for p
    apply (rule leads_bnd [OF pipealloc_refs], rule leads_option)
     apply (rule leads_ret, simp)
    apply (simp only: option.case split_paired_all prod.case)
    apply (rule leads_const, rule leads_const, rule refs_pipe_fds, assumption+)
    done
  then show ?thesis
    unfolding sys_pipe_def leads_keeps [symmetric]
    by (intro keeps_bnd [OF keeps_rd] keeps_option [OF keeps_ret])
qed

lemma refs_session [keep_intros]:
  "keeps (refs E) sys_record_start" "keeps (refs E) sys_record_stop" "keeps (refs E) sys_replay_start"
  "keeps (refs E) sys_replay_stop"
  unfolding sys_record_start_def sys_record_stop_def sys_replay_start_def sys_replay_stop_def record_io_err_def
    replay_io_err_def ret_record_def ret_replay_def
  by (intro keep_intros)+

lemma refs_read [keep_intros]: "keeps (refs E) sys_read" "keeps (refs E) sys_fstat"
  unfolding sys_read_def sys_fstat_def read_replay_def fstat_replay_def Let_def
  by (intro keep_intros)+

text \<open>C22: The reference counts of open files are exact.  Whatever system call a process makes, recording,
  replaying or neither, and however it ends, the count of every file in the table is again the number of
  the process's descriptors for it plus the references \<open>E\<close> that others hold.  In particular a file is
  freed exactly when its last descriptor is gone, and no error path leaks or drops a reference.\<close>

theorem file_refs_exact:
  "keeps (refs E) sys_open \<and> keeps (refs E) sys_close \<and> keeps (refs E) sys_dup \<and> keeps (refs E) sys_pipe \<and>
   keeps (refs E) sys_read \<and> keeps (refs E) sys_write \<and> keeps (refs E) sys_fstat \<and> keeps (refs E) sys_link \<and>
   keeps (refs E) sys_unlink \<and> keeps (refs E) sys_mkdir \<and> keeps (refs E) sys_mknod \<and> keeps (refs E) sys_chdir \<and>
   keeps (refs E) sys_record_start \<and> keeps (refs E) sys_record_stop \<and>
   keeps (refs E) sys_replay_start \<and> keeps (refs E) sys_replay_stop"
  unfolding sys_open_def sys_close_def sys_link_def sys_unlink_def sys_mkdir_def sys_mknod_def sys_chdir_def
  by (intro conjI keep_intros)

end
