(* ===== verification/Names.thy ===== *)
theory Names
  imports Dir
begin

text \<open>
  Path names and directory entries: how \<open>skipelem\<close> takes a path apart, and which names the entry that
  \<open>dirlink\<close> writes is found under.
\<close>

section \<open>Taking a path apart\<close>

text \<open>The reference: a path cut at its slashes, without the empty parts.\<close>

fun parts :: "bytes \<Rightarrow> bytes list" where
  "parts [] = [[]]"
| "parts (c # s) = (if c = SLASH then [] # parts s else (c # hd (parts s)) # tl (parts s))"

definition components :: "bytes \<Rightarrow> bytes list" where
  "components path = filter (\<lambda>p. p \<noteq> []) (parts path)"

text \<open>The string in a name buffer.\<close>

definition cname :: "bytes \<Rightarrow> bytes" where
  "cname name = takeWhile (\<lambda>c. c \<noteq> 0) (take DIRSIZ name)"

function elems :: "bytes \<Rightarrow> bytes \<Rightarrow> bytes list" where
  "elems path name =
     (case skipelem path name of None \<Rightarrow> [] | Some (rest, name') \<Rightarrow> cname name' # elems rest name')"
  by auto
termination
  by (relation "measure (\<lambda>(path, name). length path)") (auto dest: skipelem_shorter)

declare elems.simps [simp del]

lemma parts_not_Nil [simp]: "parts s \<noteq> []"
  by (induction s) auto

lemma parts_elem:
  assumes "SLASH \<notin> set e"
  shows "parts (e @ s) = (e @ hd (parts s)) # tl (parts s)"
  using assms by (induction e) auto

lemma parts_slash: "parts (SLASH # s) = [] # parts s"
  by simp

lemma components_slashes: "components (dropWhile (\<lambda>c. c = SLASH) s) = components s"
  by (induction s) (auto simp: components_def)

lemma components_elem:
  assumes "SLASH \<notin> set e" "e \<noteq> []" "s = [] \<or> hd s = SLASH"
  shows "components (e @ s) = e # components s"
proof (cases s)
  case Nil
  then show ?thesis using parts_elem [OF assms(1), of "[]"] assms(2) by (simp add: components_def)
next
  case (Cons c t)
  then show ?thesis using parts_elem [OF assms(1), of s] assms by (simp add: components_def)
qed

lemma cname_patch:
  assumes "0 \<notin> set e" "length name = DIRSIZ"
  shows "cname (if DIRSIZ \<le> length e then patch name 0 (take DIRSIZ e) else patch name 0 (e @ [0])) = take DIRSIZ e"
proof (cases "DIRSIZ \<le> length e")
  case True
  then have "patch name 0 (take DIRSIZ e) = take DIRSIZ e" using assms(2) by (intro patch_all) simp
  then show ?thesis using True assms(1) by (auto simp: cname_def takeWhile_eq_all_conv dest: in_set_takeD)
next
  case False
  have "take DIRSIZ (patch name 0 (e @ [0])) = e @ 0 # drop (length e + 1) name"
    using False assms(2) by (simp add: patch_def)
  then have "cname (patch name 0 (e @ [0])) = e" using assms(1) by (auto simp: cname_def takeWhile_append)
  then show ?thesis using False by simp
qed

lemma skipelem_length:
  assumes "skipelem path name = Some (rest, name')" "length name = DIRSIZ"
  shows "length name' = DIRSIZ"
  using assms by (auto simp: skipelem_def Let_def split: if_splits)

text \<open>C27: \<open>skipelem\<close> cuts a path into its components.  Calling it until it returns null yields, in order, the
  non-empty parts between slashes, each cut to the 14 bytes of a directory entry's name; leading,
  trailing and repeated slashes make no difference.\<close>

theorem skipelem_components:
  assumes "0 \<notin> set path" "length name = DIRSIZ"
  shows "elems path name = map (take DIRSIZ) (components path)"
  using assms
proof (induction path name rule: elems.induct)
  case (1 path name)
  let ?p = "dropWhile (\<lambda>c. c = SLASH) path"
  let ?e = "takeWhile (\<lambda>c. c \<noteq> SLASH) ?p" and ?r = "dropWhile (\<lambda>c. c \<noteq> SLASH) ?p"
  have c: "components path = components ?p" by (simp add: components_slashes)
  show ?case
  proof (cases "?p = []")
    case True
    then have "skipelem path name = None" by (simp add: skipelem_def)
    moreover have "components path = []" using c True by (simp add: components_def)
    ultimately show ?thesis by (simp add: elems.simps)
  next
    case False
    define name' where "name' = (if DIRSIZ \<le> length ?e then patch name 0 (take DIRSIZ ?e) else patch name 0 (?e @ [0]))"
    have sk: "skipelem path name = Some (dropWhile (\<lambda>c. c = SLASH) ?r, name')"
      using False unfolding skipelem_def name'_def Let_def by simp
    have z: "0 \<notin> set ?e" "0 \<notin> set (dropWhile (\<lambda>c. c = SLASH) ?r)"
      using "1.prems"(1) by (auto dest!: set_takeWhileD set_dropWhileD)
    have "cname name' = take DIRSIZ ?e" unfolding name'_def by (rule cname_patch [OF z(1) "1.prems"(2)])
    moreover have "elems (dropWhile (\<lambda>c. c = SLASH) ?r) name' = map (take DIRSIZ) (components ?r)"
      using "1.IH" [OF sk refl z(2) skipelem_length [OF sk "1.prems"(2)]] by (simp add: components_slashes)
    moreover have "components ?p = ?e # components ?r"
    proof -
      have "?e \<noteq> []" using False hd_dropWhile [of "\<lambda>c. c = SLASH" path] by (cases ?p) auto
      moreover have "SLASH \<notin> set ?e" by (auto dest: set_takeWhileD)
      moreover have "?r = [] \<or> hd ?r = SLASH" using hd_dropWhile [of "\<lambda>c. c \<noteq> SLASH" ?p] by auto
      ultimately show ?thesis using components_elem [of ?e ?r] by simp
    qed
    ultimately show ?thesis using sk c by (simp add: elems.simps [of path])
  qed
qed

theorem skipelem_components_witness:
  "elems [47, 47, 97, 98, 47, 99, 47] (replicate 14 0) = [[97, 98], [99]]"
  using skipelem_components [of "[47, 47, 97, 98, 47, 99, 47]" "replicate 14 0"] by (simp add: components_def)

section \<open>Directory entries\<close>










end
