(* ===== verification/Vm.thy ===== *)
theory Vm
  imports Console
begin

text \<open>
  Page tables (\<open>vm.c\<close>).  A page directory and its page tables are pages of the page allocator that
  hold 1024 little-endian words each; they are read and written here as the bytes they are.  A pointer
  to a page table entry is the pair of the table's address and an index.  Addresses are natural numbers
  below \<open>2^32\<close>; the wrap-around of the C code is written out.  The address of the symbol \<open>data\<close>, which
  the linker chooses, is an argument of \<open>setupkvm\<close>.
\<close>

unbundle bit_operations_syntax

abbreviation EXTMEM :: nat where "EXTMEM \<equiv> 0x100000"
abbreviation DEVSPACE :: nat where "DEVSPACE \<equiv> 0xFE000000"
abbreviation KERNLINK :: nat where "KERNLINK \<equiv> KERNBASE + EXTMEM"
abbreviation NPDENTRIES :: nat where "NPDENTRIES \<equiv> 1024"
abbreviation PTE_P :: nat where "PTE_P \<equiv> 1"
abbreviation PTE_W :: nat where "PTE_W \<equiv> 2"
abbreviation PTE_U :: nat where "PTE_U \<equiv> 4"

section \<open>Definitions\<close>

definition PDX :: "nat \<Rightarrow> nat" where
  "PDX va = drop_bit 22 va AND 0x3FF"

definition PTX :: "nat \<Rightarrow> nat" where
  "PTX va = drop_bit 12 va AND 0x3FF"

definition PGADDR :: "nat \<Rightarrow> nat \<Rightarrow> nat \<Rightarrow> nat" where
  "PGADDR d t off = (push_bit 22 d OR push_bit 12 t OR off) mod 2 ^ 32"

definition PGROUNDDOWN :: "nat \<Rightarrow> nat" where
  "PGROUNDDOWN a = a div PGSIZE * PGSIZE"

lemma pgoff: "va - PGROUNDDOWN va = va mod PGSIZE"
  by (simp add: PGROUNDDOWN_def minus_div_mult_eq_mod)

lemma pgoff_less [simp]: "va - PGROUNDDOWN va < PGSIZE"
  by (simp add: pgoff)

definition PTE_ADDR :: "nat \<Rightarrow> nat" where
  "PTE_ADDR pte = pte div PGSIZE * PGSIZE"

definition PTE_FLAGS :: "nat \<Rightarrow> nat" where
  "PTE_FLAGS pte = pte AND 0xFFF"

text \<open>Loads and stores of the words of a page, and the two ways a whole page is filled.\<close>

definition pte_at :: "nat \<Rightarrow> nat \<Rightarrow> 'z kmst_scheme \<Rightarrow> nat" where
  "pte_at t i s = unat (get32 (slice (4 * i) 4 (pages s t)))"

definition set_pte :: "nat \<Rightarrow> nat \<Rightarrow> nat \<Rightarrow> ('z kmst_scheme, unit) kfun" where
  "set_pte t i w = md (\<lambda>s. s\<lparr>pages := (pages s)(t := patch (pages s t) (4 * i) (put32 (word_of_nat w)))\<rparr>)"

definition set_page :: "nat \<Rightarrow> bytes \<Rightarrow> ('z kmst_scheme, unit) kfun" where
  "set_page p bs = md (\<lambda>s. s\<lparr>pages := (pages s)(p := bs)\<rparr>)"

definition walkpgdir :: "nat \<Rightarrow> nat \<Rightarrow> bool \<Rightarrow> ('z kmst_scheme, (nat \<times> nat) option) kfun" where
  "walkpgdir pgdir va alloc = bnd (rd (pte_at pgdir (PDX va))) (\<lambda>pde.
     if pde AND PTE_P \<noteq> 0 then bnd (P2V (PTE_ADDR pde)) (\<lambda>pgtab. ret (Some (pgtab, PTX va)))
     else if \<not> alloc then ret None
     else bnd kalloc (\<lambda>pgtab.
       if pgtab = 0 then ret None
       else thn (set_page pgtab (replicate PGSIZE 0))
           (bnd (V2P pgtab) (\<lambda>pa.
            thn (set_pte pgdir (PDX va) (pa OR PTE_P OR PTE_W OR PTE_U))
                (ret (Some (pgtab, PTX va)))))))"

text \<open>The loop of \<open>mappages\<close>.  Both addresses are page aligned, so that it ends after at most \<open>2^20\<close>
  rounds, the number of pages of the address space.\<close>

primrec mappages_loop :: "nat \<Rightarrow> nat \<Rightarrow> nat \<Rightarrow> nat \<Rightarrow> nat \<Rightarrow> nat \<Rightarrow> ('z kmst_scheme, int) kfun" where
  "mappages_loop 0 pgdir a lst pa perm = stop (Spin ''mappages'')"
| "mappages_loop (Suc fuel) pgdir a lst pa perm = bnd (walkpgdir pgdir a True) (\<lambda>pte. case pte of
     None \<Rightarrow> ret (-1)
   | Some (t, i) \<Rightarrow> bnd (rd (pte_at t i)) (\<lambda>w.
       if w AND PTE_P \<noteq> 0 then stop (Panic ''remap'')
       else thn (set_pte t i (pa OR perm OR PTE_P))
         (if a = lst then ret 0
          else mappages_loop fuel pgdir ((a + PGSIZE) mod 2 ^ 32) lst ((pa + PGSIZE) mod 2 ^ 32) perm)))"

definition mappages :: "nat \<Rightarrow> nat \<Rightarrow> nat \<Rightarrow> nat \<Rightarrow> nat \<Rightarrow> ('z kmst_scheme, int) kfun" where
  "mappages pgdir va sze pa perm =
     mappages_loop (2 ^ 20) pgdir (PGROUNDDOWN va) (PGROUNDDOWN ((va + sze + 2 ^ 32 - 1) mod 2 ^ 32)) pa perm"

text \<open>\<open>deallocuvm\<close>: the address runs from \<open>newsz\<close> up to \<open>oldsz\<close>.  For an \<open>oldsz\<close> in the last page of
  the address space it would wrap and start again.\<close>

primrec deallocuvm_loop :: "nat \<Rightarrow> nat \<Rightarrow> nat \<Rightarrow> nat \<Rightarrow> ('z kmst_scheme, unit) kfun" where
  "deallocuvm_loop 0 pgdir a oldsz = stop (Spin ''deallocuvm'')"
| "deallocuvm_loop (Suc fuel) pgdir a oldsz =
     (if a < oldsz then
        bnd (walkpgdir pgdir a False) (\<lambda>pte. case pte of
          None \<Rightarrow> deallocuvm_loop fuel pgdir (PGADDR (PDX a + 1) 0 0) oldsz
        | Some (t, i) \<Rightarrow> bnd (rd (pte_at t i)) (\<lambda>w.
            thn (whn (w AND PTE_P \<noteq> 0)
                  (let pa = PTE_ADDR w in
                   if pa = 0 then stop (Panic ''kfree'')
                   else bnd (P2V pa) (\<lambda>v. thn (kfree v) (set_pte t i 0))))
                (deallocuvm_loop fuel pgdir ((a + PGSIZE) mod 2 ^ 32) oldsz)))
      else ret ())"

definition deallocuvm :: "nat \<Rightarrow> nat \<Rightarrow> nat \<Rightarrow> ('z kmst_scheme, nat) kfun" where
  "deallocuvm pgdir oldsz newsz =
     (if oldsz \<le> newsz then ret oldsz
      else thn (deallocuvm_loop (2 ^ 21) pgdir (PGROUNDUP newsz) oldsz) (ret newsz))"

primrec freevm_loop :: "nat \<Rightarrow> nat list \<Rightarrow> ('z kmst_scheme, unit) kfun" where
  "freevm_loop pgdir [] = ret ()"
| "freevm_loop pgdir (i # is) = bnd (rd (pte_at pgdir i)) (\<lambda>w.
     thn (whn (w AND PTE_P \<noteq> 0) (bnd (P2V (PTE_ADDR w)) kfree)) (freevm_loop pgdir is))"

definition freevm :: "nat \<Rightarrow> ('z kmst_scheme, unit) kfun" where
  "freevm pgdir =
     (if pgdir = 0 then stop (Panic ''freevm: no pgdir'')
      else bnd (deallocuvm pgdir KERNBASE 0) (\<lambda>_.
        thn (freevm_loop pgdir [0..<NPDENTRIES]) (kfree pgdir)))"

record kmap =
  k_virt :: nat
  k_phys_start :: nat
  k_phys_end :: nat
  k_perm :: nat

definition kmaps :: "nat \<Rightarrow> kmap list" where
  "kmaps kdata =
    [\<lparr>k_virt = KERNBASE, k_phys_start = 0, k_phys_end = EXTMEM, k_perm = PTE_W\<rparr>,
     \<lparr>k_virt = KERNLINK, k_phys_start = KERNLINK - KERNBASE, k_phys_end = kdata - KERNBASE, k_perm = 0\<rparr>,
     \<lparr>k_virt = kdata, k_phys_start = kdata - KERNBASE, k_phys_end = PHYSTOP, k_perm = PTE_W\<rparr>,
     \<lparr>k_virt = DEVSPACE, k_phys_start = DEVSPACE, k_phys_end = 0, k_perm = PTE_W\<rparr>]"

primrec setupkvm_loop :: "nat \<Rightarrow> kmap list \<Rightarrow> ('z kmst_scheme, nat) kfun" where
  "setupkvm_loop pgdir [] = ret pgdir"
| "setupkvm_loop pgdir (k # ks) =
     bnd (mappages pgdir (k_virt k) ((k_phys_end k + 2 ^ 32 - k_phys_start k) mod 2 ^ 32) (k_phys_start k) (k_perm k))
       (\<lambda>r. if r < 0 then thn (freevm pgdir) (ret 0) else setupkvm_loop pgdir ks)"

definition setupkvm :: "nat \<Rightarrow> ('z kmst_scheme, nat) kfun" where
  "setupkvm kdata = bnd kalloc (\<lambda>pgdir.
     if pgdir = 0 then ret 0
     else thn (set_page pgdir (replicate PGSIZE 0))
         (bnd (P2V PHYSTOP) (\<lambda>top.
          if DEVSPACE < top then stop (Panic ''PHYSTOP too high'')
          else setupkvm_loop pgdir (kmaps kdata))))"

definition inituvm :: "nat \<Rightarrow> bytes \<Rightarrow> ('z kmst_scheme, unit) kfun" where
  "inituvm pgdir init =
     (if PGSIZE \<le> length init then stop (Panic ''inituvm: more than a page'')
      else bnd kalloc (\<lambda>mem.
        if mem = 0 then stop (UB ''mem'')
        else thn (set_page mem (replicate PGSIZE 0))
            (bnd (V2P mem) (\<lambda>pa.
             bnd (mappages pgdir 0 PGSIZE pa (PTE_W OR PTE_U)) (\<lambda>_.
             md (\<lambda>s. s\<lparr>pages := (pages s)(mem := patch (pages s mem) 0 init)\<rparr>))))))"

function allocuvm_loop :: "nat \<Rightarrow> nat \<Rightarrow> nat \<Rightarrow> nat \<Rightarrow> ('z consst_scheme, nat) kfun" where
  "allocuvm_loop pgdir a oldsz newsz =
     (if a < newsz then
        bnd kalloc (\<lambda>mem.
        if mem = 0 then
          thn (cprint (''allocuvm out of memory'' @ [CHR 0x0A]) [])
         (bnd (deallocuvm pgdir newsz oldsz) (\<lambda>_. ret 0))
        else
          thn (set_page mem (replicate PGSIZE 0))
         (bnd (V2P mem) (\<lambda>pa.
          bnd (mappages pgdir a PGSIZE pa (PTE_W OR PTE_U)) (\<lambda>r.
          if r < 0 then
            thn (cprint (''allocuvm out of memory (2)'' @ [CHR 0x0A]) [])
           (bnd (deallocuvm pgdir newsz oldsz) (\<lambda>_. thn (kfree mem) (ret 0)))
          else allocuvm_loop pgdir (a + PGSIZE) oldsz newsz))))
      else ret newsz)"
  by auto
termination by (relation "measure (\<lambda>(pgdir, a, oldsz, newsz). newsz - a)") auto

declare allocuvm_loop.simps [simp del]

definition allocuvm :: "nat \<Rightarrow> nat \<Rightarrow> nat \<Rightarrow> ('z consst_scheme, nat) kfun" where
  "allocuvm pgdir oldsz newsz =
     (if KERNBASE \<le> newsz then ret 0
      else if newsz < oldsz then ret oldsz
      else allocuvm_loop pgdir (PGROUNDUP oldsz) oldsz newsz)"

definition clearpteu :: "nat \<Rightarrow> nat \<Rightarrow> ('z kmst_scheme, unit) kfun" where
  "clearpteu pgdir uva = bnd (walkpgdir pgdir uva False) (\<lambda>pte. case pte of
     None \<Rightarrow> stop (Panic ''clearpteu'')
   | Some (t, i) \<Rightarrow> bnd (rd (pte_at t i)) (\<lambda>w. set_pte t i (w AND (2 ^ 32 - 1 - PTE_U))))"

text \<open>The loop of \<open>copyuvm\<close>.  It cannot wrap: the kernel part of the new table is mapped, so that the copy
  of the first kernel page is a panic.\<close>

function copyuvm_loop :: "nat \<Rightarrow> nat \<Rightarrow> nat \<Rightarrow> nat \<Rightarrow> ('z kmst_scheme, nat) kfun" where
  "copyuvm_loop pgdir d i sz =
     (if i < sz then
        bnd (walkpgdir pgdir i False) (\<lambda>pte. case pte of
          None \<Rightarrow> stop (Panic ''copyuvm: pte should exist'')
        | Some (t, j) \<Rightarrow> bnd (rd (pte_at t j)) (\<lambda>w.
            if w AND PTE_P = 0 then stop (Panic ''copyuvm: page not present'')
            else bnd kalloc (\<lambda>mem.
              if mem = 0 then thn (freevm d) (ret 0)
              else bnd (P2V (PTE_ADDR w)) (\<lambda>v.
                bnd (rd (\<lambda>s. pages s v)) (\<lambda>bs.
                thn (set_page mem bs)
               (bnd (V2P mem) (\<lambda>pa.
                bnd (mappages d i PGSIZE pa (PTE_FLAGS w)) (\<lambda>r.
                if r < 0 then thn (kfree mem) (thn (freevm d) (ret 0))
                else copyuvm_loop pgdir d (i + PGSIZE) sz))))))))
      else ret d)"
  by auto
termination by (relation "measure (\<lambda>(pgdir, d, i, sz). sz - i)") auto

declare copyuvm_loop.simps [simp del]

definition copyuvm :: "nat \<Rightarrow> nat \<Rightarrow> nat \<Rightarrow> ('z kmst_scheme, nat) kfun" where
  "copyuvm kdata pgdir sz = bnd (setupkvm kdata) (\<lambda>d. if d = 0 then ret 0 else copyuvm_loop pgdir d 0 sz)"

text \<open>\<open>uva2ka\<close> reads the entry without testing the pointer.\<close>

definition uva2ka :: "nat \<Rightarrow> nat \<Rightarrow> ('z kmst_scheme, nat) kfun" where
  "uva2ka pgdir uva = bnd (walkpgdir pgdir uva False) (\<lambda>pte. case pte of
     None \<Rightarrow> stop (UB ''pte'')
   | Some (t, i) \<Rightarrow> bnd (rd (pte_at t i)) (\<lambda>w.
       if w AND PTE_P = 0 then ret 0
       else if w AND PTE_U = 0 then ret 0
       else P2V (PTE_ADDR w)))"

function copyout :: "nat \<Rightarrow> nat \<Rightarrow> bytes \<Rightarrow> ('z kmst_scheme, int) kfun" where
  "copyout pgdir va buf =
     (if 0 < length buf then
        let va0 = PGROUNDDOWN va in
        bnd (uva2ka pgdir va0) (\<lambda>pa0.
        if pa0 = 0 then ret (-1)
        else let n = min (PGSIZE - (va - va0)) (length buf) in
          thn (md (\<lambda>s. s\<lparr>pages := (pages s)(pa0 := patch (pages s pa0) (va - va0) (take n buf))\<rparr>))
              (copyout pgdir ((va0 + PGSIZE) mod 2 ^ 32) (drop n buf)))
      else ret 0)"
  by auto
termination
  by (relation "measure (\<lambda>(pgdir, va, buf). length buf)") (use pgoff_less in auto)

declare copyout.simps [simp del]

end
