(* ===== verification/Page_Tables.thy ===== *)
theory Page_Tables
  imports Vm
begin

text \<open>
  What the page tables of \<open>vm.c\<close> mean.  A page directory is seen as a function from page numbers to
  entries (\<open>pte\<close>), and \<open>own\<close> gives the physical page behind each of its parts: the directory, the page
  tables and the user pages.  The invariant \<open>vm_ok\<close> says that these pages are all different and that none of
  them is free.  Every operation on page tables keeps it, and keeps the set of all pages (\<open>pool\<close>): nothing
  leaks and nothing is used twice.
\<close>

section \<open>Entries\<close>

lemma mod_2_simps [simp]: "w mod 2 = Suc 0 \<longleftrightarrow> odd w" "w mod 2 = 0 \<longleftrightarrow> even w" for w :: nat
  by (simp_all add: odd_iff_mod_2_eq_one even_iff_mod_2_eq_zero)

lemma PDX_page: "va < 2 ^ 32 \<Longrightarrow> PDX va = va div 4096 div 1024"
proof -
  assume "va < 2 ^ 32"
  then have "va div 4096 div 1024 < 1024" by (simp add: div_mult2_eq [symmetric] less_mult_imp_div_less)
  moreover have "PDX va = (va div 4096 div 1024) mod 1024"
    using take_bit_eq_mask [of 10 "drop_bit 22 va"]
    by (simp add: PDX_def mask_eq_exp_minus_1 take_bit_eq_mod drop_bit_eq_div div_mult2_eq [symmetric])
  ultimately show ?thesis by simp
qed

lemma PTX_page: "PTX va = va div 4096 mod 1024"
  using take_bit_eq_mask [of 10 "drop_bit 12 va"]
  by (simp add: PTX_def mask_eq_exp_minus_1 take_bit_eq_mod drop_bit_eq_div)

lemma or_less: "x < 2 ^ k \<Longrightarrow> y < 2 ^ k \<Longrightarrow> x OR y < (2 :: nat) ^ k"
  by (metis take_bit_nat_eq_self_iff take_bit_or)

lemma PTE_ADDR_or: "PTE_ADDR (x OR y) = PTE_ADDR x OR PTE_ADDR y"
proof -
  have "PTE_ADDR x = push_bit 12 (drop_bit 12 x)" for x
    by (simp add: PTE_ADDR_def push_bit_eq_mult drop_bit_eq_div)
  then show ?thesis by (simp add: push_bit_or)
qed

lemma PTE_ADDR_simps: "a mod 4096 = 0 \<Longrightarrow> PTE_ADDR a = a" "f < 4096 \<Longrightarrow> PTE_ADDR f = 0"
  by (auto simp: PTE_ADDR_def)

lemma PTE_FLAGS_mod: "PTE_FLAGS w = w mod 4096"
  using take_bit_eq_mask [of 12 w] by (simp add: PTE_FLAGS_def mask_eq_exp_minus_1 take_bit_eq_mod)

lemma PTE_FLAGS_or: "PTE_FLAGS (x OR y) = PTE_FLAGS x OR PTE_FLAGS y"
  using take_bit_or [of 12 x y] by (simp add: PTE_FLAGS_mod take_bit_eq_mod)

lemma PTE_FLAGS_simps: "a mod 4096 = 0 \<Longrightarrow> PTE_FLAGS a = 0" "f < 4096 \<Longrightarrow> PTE_FLAGS f = f"
  by (simp_all add: PTE_FLAGS_mod)

lemma entry:
  assumes "a mod 4096 = 0" "f < 4096"
  shows "PTE_ADDR (a OR f OR PTE_P) = a" "odd (a OR f OR PTE_P)" "PTE_FLAGS (a OR f OR PTE_P) = f OR PTE_P"
    "a < 2 ^ 32 \<Longrightarrow> a OR f OR PTE_P < 2 ^ 32"
proof -
  show "PTE_ADDR (a OR f OR PTE_P) = a" using assms by (simp add: PTE_ADDR_or PTE_ADDR_simps)
  show "odd (a OR f OR PTE_P)" by (simp add: even_or_iff)
  show "PTE_FLAGS (a OR f OR PTE_P) = f OR PTE_P" using assms by (simp add: PTE_FLAGS_or PTE_FLAGS_simps)
  show "a OR f OR PTE_P < 2 ^ 32" if "a < 2 ^ 32"
    using that assms by (intro or_less) simp_all
qed

section \<open>Pages\<close>

definition page_at :: "'z kmst_scheme \<Rightarrow> nat \<Rightarrow> bool" where
  "page_at s p \<longleftrightarrow> page_ok s p \<and> length (pages s p) = PGSIZE"

definition upd_pte :: "nat \<Rightarrow> nat \<Rightarrow> nat \<Rightarrow> 'z kmst_scheme \<Rightarrow> 'z kmst_scheme" where
  "upd_pte t i w s = s\<lparr>pages := (pages s)(t := patch (pages s t) (4 * i) (put32 (word_of_nat w)))\<rparr>"

lemma set_pte_run [simp]: "set_pte t i w s = Inr ((), upd_pte t i w s)"
  by (simp add: set_pte_def upd_pte_def)

lemma pages_upd_pte: "q \<noteq> t \<Longrightarrow> pages (upd_pte t i w s) q = pages s q"
  by (simp add: upd_pte_def)

lemma kend_upd_pte [simp]: "kend (upd_pte t i w s) = kend s"
  by (simp add: upd_pte_def)

lemma length_upd_pte: "i < 1024 \<Longrightarrow> length (pages s t) = PGSIZE \<Longrightarrow>
    length (pages (upd_pte t i w s) q) = length (pages s q)"
  by (simp add: upd_pte_def)

lemma page_ok_cong: "kend s' = kend s \<Longrightarrow> page_ok s' = page_ok s"
  by (simp add: page_ok_def fun_eq_iff)

lemma page_ok_upd [simp]: "page_ok (s\<lparr>pages := f\<rparr>) = page_ok s" "page_ok (upd_pte t i w s) = page_ok s"
  by (simp_all add: page_ok_def fun_eq_iff upd_pte_def)

lemma page_at_upd: "i < 1024 \<Longrightarrow> page_at s t \<Longrightarrow> page_at (upd_pte t i w s) = page_at s"
  by (simp add: page_at_def fun_eq_iff length_upd_pte)

lemma free_pages_upd [simp]: "v \<notin> set ps \<Longrightarrow> free_pages (s\<lparr>pages := (pages s)(v := x)\<rparr>) ps = free_pages s ps"
  by (simp add: free_pages_def chain_upd)

lemma free_pages_upd_pte [simp]: "t \<notin> set ps \<Longrightarrow> free_pages (upd_pte t i w s) ps = free_pages s ps"
  by (simp add: upd_pte_def)

lemma pte_at_upd:
  assumes "page_at s t" "i < 1024" "j < 1024" "w < 2 ^ 32"
  shows "pte_at t' j (upd_pte t i w s) = (if t' = t \<and> j = i then w else pte_at t' j s)"
proof -
  have l: "length (pages s t) = 4096" using assms(1) by (simp add: page_at_def)
  consider "t' = t" "j = i" | "t' = t" "j < i" | "t' = t" "i < j" | "t' \<noteq> t" by linarith
  then show ?thesis
  proof cases
    case 1
    with l assms(2,4) show ?thesis by (simp add: pte_at_def upd_pte_def unat_of_nat)
  next
    case 2
    then have "slice (4 * j) 4 (patch (pages s t) (4 * i) (put32 (word_of_nat w))) = slice (4 * j) 4 (pages s t)"
      using l assms(2) by (intro slice_patch_before) simp_all
    with 2 show ?thesis by (simp add: pte_at_def upd_pte_def)
  next
    case 3
    then have "slice (4 * j) 4 (patch (pages s t) (4 * i) (put32 (word_of_nat w))) = slice (4 * j) 4 (pages s t)"
      using l assms(2) by (intro slice_patch_after) simp_all
    with 3 show ?thesis by (simp add: pte_at_def upd_pte_def)
  qed (simp add: pte_at_def upd_pte_def)
qed

lemma pte_at_less: "pte_at t i s < 2 ^ 32"
  using unsigned_less [where ?'a = nat, of "get32 (slice (4 * i) 4 (pages s t))"] by (simp add: pte_at_def)

lemma pte_at_cong: "pages s' t = pages s t \<Longrightarrow> pte_at t i s' = pte_at t i s"
  by (simp add: pte_at_def)

lemma pte_at_zero: "pages s t = replicate PGSIZE 0 \<Longrightarrow> i < 1024 \<Longrightarrow> pte_at t i s = 0"
proof -
  assume "pages s t = replicate PGSIZE 0" "i < 1024"
  then have "slice (4 * i) 4 (pages s t) = replicate 4 0" by (simp add: slice_def min_def)
  then show ?thesis by (simp add: pte_at_def get32_def numeral_eq_Suc)
qed

section \<open>The view of a page directory\<close>

definition ptab :: "'z kmst_scheme \<Rightarrow> nat \<Rightarrow> nat \<Rightarrow> nat option" where
  "ptab s d i = (if i < 1024 \<and> odd (pte_at d i s) then Some (KERNBASE + PTE_ADDR (pte_at d i s)) else None)"

text \<open>The entry of page number \<open>n\<close>, 0 where there is no page table.\<close>

definition pte :: "'z kmst_scheme \<Rightarrow> nat \<Rightarrow> nat \<Rightarrow> nat" where
  "pte s d n = (case ptab s d (n div 1024) of None \<Rightarrow> 0 | Some t \<Rightarrow> pte_at t (n mod 1024) s)"

datatype role = RDir | RTab nat | RUser nat

fun own :: "'z kmst_scheme \<Rightarrow> nat \<Rightarrow> role \<Rightarrow> nat option" where
  "own s d RDir = Some d"
| "own s d (RTab i) = ptab s d i"
| "own s d (RUser n) = (if n < 2 ^ 19 \<and> odd (pte s d n) then Some (KERNBASE + PTE_ADDR (pte s d n)) else None)"

text \<open>The parts of a directory are different pages; none of them is free.\<close>

definition dir_ok :: "'z kmst_scheme \<Rightarrow> nat \<Rightarrow> bool" where
  "dir_ok s d \<longleftrightarrow> KERNBASE < kend s \<and> (\<forall>r p. own s d r = Some p \<longrightarrow> page_at s p) \<and>
     (\<forall>r r' p. own s d r = Some p \<longrightarrow> own s d r' = Some p \<longrightarrow> r = r')"

definition vm_ok :: "'z kmst_scheme \<Rightarrow> nat \<Rightarrow> nat list \<Rightarrow> bool" where
  "vm_ok s d ps \<longleftrightarrow> free_pages s ps \<and> dir_ok s d \<and> set ps \<inter> ran (own s d) = {}"

definition pool :: "'z kmst_scheme \<Rightarrow> nat \<Rightarrow> nat list \<Rightarrow> nat set" where
  "pool s d ps = set ps \<union> ran (own s d)"

definition tabs :: "'z kmst_scheme \<Rightarrow> nat \<Rightarrow> nat set" where
  "tabs s d = insert d (ran (ptab s d))"

lemma dir_okD:
  assumes "dir_ok s d"
  shows "own s d r = Some p \<Longrightarrow> page_at s p" "own s d r = Some p \<Longrightarrow> own s d r' = Some p \<Longrightarrow> r = r'"
    "KERNBASE < kend s"
  using assms by (auto simp: dir_ok_def)

lemma vm_okD:
  assumes "vm_ok s d ps"
  shows "free_pages s ps" "dir_ok s d" "own s d r = Some p \<Longrightarrow> p \<notin> set ps"
  using assms by (auto simp: vm_ok_def ran_def)

lemma dir_ok_dir: "dir_ok s d \<Longrightarrow> page_at s d"
  using dir_okD(1) [of s d RDir d] by simp

lemma vm_ok_dir: "vm_ok s d ps \<Longrightarrow> page_at s d" "vm_ok s d ps \<Longrightarrow> d \<notin> set ps"
  using vm_okD(3) [of s d ps RDir d] dir_ok_dir [OF vm_okD(2), of s d ps] by auto

lemma dir_ok_tab:
  assumes "dir_ok s d" "ptab s d i = Some t"
  shows "page_at s t" "t \<noteq> d" "ptab s d j = Some t \<Longrightarrow> j = i" "i < 1024"
proof -
  show "page_at s t" using dir_okD(1) [OF assms(1), of "RTab i" t] assms(2) by simp
  show "t \<noteq> d" using dir_okD(2) [OF assms(1), of RDir t "RTab i"] assms(2) by auto
  show "j = i" if "ptab s d j = Some t" using dir_okD(2) [OF assms(1), of "RTab j" t "RTab i"] assms(2) that by simp
  show "i < 1024" using assms(2) by (simp add: ptab_def split: if_splits)
qed

lemma vm_ok_tab:
  assumes "vm_ok s d ps" "ptab s d i = Some t"
  shows "page_at s t" "t \<notin> set ps"
  using vm_okD(3) [OF assms(1), of "RTab i" t] dir_ok_tab(1) [OF vm_okD(2) [OF assms(1)] assms(2)] assms(2) by auto

lemma ptab_range: "ptab s d i = Some t \<Longrightarrow> i < 1024"
  by (simp add: ptab_def split: if_splits)

lemma pte_less: "pte s d n < 2 ^ 32"
  by (simp add: pte_def pte_at_less [simplified] split: option.split)

lemma view_cong:
  assumes "\<And>q. q \<in> tabs s d \<Longrightarrow> pages s' q = pages s q"
  shows "ptab s' d = ptab s d" "pte s' d = pte s d" "own s' d = own s d"
proof -
  have d: "pte_at d i s' = pte_at d i s" for i using assms by (intro pte_at_cong) (simp add: tabs_def)
  show t: "ptab s' d = ptab s d" by (simp add: ptab_def d fun_eq_iff)
  have "pte_at t i s' = pte_at t i s" if "ptab s d j = Some t" for t i j
    using assms that by (intro pte_at_cong) (auto simp: tabs_def ran_def)
  then show p: "pte s' d = pte s d" by (auto simp: pte_def t fun_eq_iff split: option.split)
  have "own s' d r = own s d r" for r by (cases r) (simp_all add: t p)
  then show "own s' d = own s d" by (simp add: fun_eq_iff)
qed

section \<open>Walking the tables\<close>

lemma P2V_page: "page_ok s (KERNBASE + a) \<Longrightarrow> P2V a s' = Inr (KERNBASE + a, s')"
  by (simp add: P2V_def page_ok_def)

lemma V2P_page: "page_ok s p \<Longrightarrow> V2P p s' = Inr (p - KERNBASE, s')"
  by (simp add: V2P_def page_ok_def)

lemma phys_page:
  assumes "page_ok s p"
  shows "(p - KERNBASE) mod 4096 = 0" "p - KERNBASE < 2 ^ 32" "KERNBASE + (p - KERNBASE) = p" "p \<noteq> 0"
proof -
  have "4096 dvd p - KERNBASE" using assms by (intro dvd_diff_nat) (auto simp: page_ok_def)
  then show "(p - KERNBASE) mod 4096 = 0" by simp
qed (use assms in \<open>auto simp: page_ok_def\<close>)

lemma page_index: "va < 2 ^ 32 \<Longrightarrow> va div 4096 div 1024 < (1024 :: nat)"
  by (simp add: div_mult2_eq [symmetric] less_mult_imp_div_less)

lemma walk_present:
  assumes "dir_ok s d" "va < 2 ^ 32" "ptab s d (va div 4096 div 1024) = Some t"
  shows "walkpgdir d va alloc s = Inr (Some (t, va div 4096 mod 1024), s)"
proof -
  let ?w = "pte_at d (PDX va) s"
  have w: "odd ?w" "t = KERNBASE + PTE_ADDR ?w"
    using assms(2,3) by (simp_all add: ptab_def PDX_page split: if_splits)
  have "P2V (PTE_ADDR ?w) s = Inr (t, s)"
    using dir_ok_tab(1) [OF assms(1,3)] w(2) by (auto simp: page_at_def intro: P2V_page)
  then show ?thesis using w(1) by (simp add: walkpgdir_def PTX_page bnd_def)
qed

lemma walk_absent:
  assumes "va < 2 ^ 32" "ptab s d (va div 4096 div 1024) = None"
  shows "walkpgdir d va False s = Inr (None, s)"
  using assms page_index [of va] by (simp add: walkpgdir_def PDX_page bnd_def ptab_def split: if_splits)

text \<open>The state after a fresh page table for the directory entry \<open>i\<close> has been linked.\<close>

definition link_table :: "nat \<Rightarrow> nat \<Rightarrow> nat \<Rightarrow> 'z kmst_scheme \<Rightarrow> 'z kmst_scheme" where
  "link_table d i t s = upd_pte d i ((t - KERNBASE) OR PTE_P OR PTE_W OR PTE_U)
     (s\<lparr>pages := (pages s)(t := replicate PGSIZE 0)\<rparr>)"

lemma table_entry:
  assumes "page_ok s t"
  shows "PTE_ADDR ((t - KERNBASE) OR PTE_P OR PTE_W OR PTE_U) = t - KERNBASE"
    "odd ((t - KERNBASE) OR PTE_P OR PTE_W OR PTE_U)" "(t - KERNBASE) OR PTE_P OR PTE_W OR PTE_U < 2 ^ 32"
proof -
  have t: "(t - KERNBASE) mod 4096 = 0" "t - KERNBASE < 2 ^ 32"
    using phys_page [OF assms] by simp_all
  have eq: "(t - KERNBASE) OR PTE_P OR PTE_W OR PTE_U = (t - KERNBASE) OR 6 OR PTE_P" by (simp add: or.assoc)
  show "PTE_ADDR ((t - KERNBASE) OR PTE_P OR PTE_W OR PTE_U) = t - KERNBASE"
    "odd ((t - KERNBASE) OR PTE_P OR PTE_W OR PTE_U)" "(t - KERNBASE) OR PTE_P OR PTE_W OR PTE_U < 2 ^ 32"
    unfolding eq using entry [OF t(1), of 6] t(2) by simp_all
qed

lemma link_table_view:
  assumes "dir_ok s d" "page_ok s t" "t \<notin> ran (own s d)" "i < 1024" "ptab s d i = None"
  shows "ptab (link_table d i t s) d = (ptab s d)(i \<mapsto> t)" "pte (link_table d i t s) d = pte s d"
    "own (link_table d i t s) d = (own s d)(RTab i \<mapsto> t)"
proof -
  let ?s1 = "s\<lparr>pages := (pages s)(t := replicate PGSIZE 0)\<rparr>" and ?w = "(t - KERNBASE) OR PTE_P OR PTE_W OR PTE_U"
  have td: "t \<noteq> d" using assms(3) by (auto simp: ran_def intro: own.simps(1))
  then have p1: "page_at ?s1 d" using dir_ok_dir [OF assms(1)] by (simp add: page_at_def)
  have a: "pte_at q j (link_table d i t s) =
      (if q = d \<and> j = i then ?w else if q = t then 0 else pte_at q j s)" if "j < 1024" for q j
    using pte_at_upd [OF p1 assms(4) that table_entry(3) [OF assms(2)], of q] td that
    by (auto simp: link_table_def pte_at_zero intro: pte_at_cong)
  show pt: "ptab (link_table d i t s) d = (ptab s d)(i \<mapsto> t)"
    using a [of _ d] td assms(4) table_entry [OF assms(2)] phys_page(3) [OF assms(2)]
    by (auto simp: ptab_def fun_eq_iff split: if_splits)
  have ne: "ptab s d j \<noteq> Some t" for j
    using assms(3) by (auto simp: ran_def dest: own.simps(2) [THEN trans])
  have ne': "ptab s d j \<noteq> Some d" for j
    using dir_ok_tab(2) [OF assms(1)] by blast
  show pe: "pte (link_table d i t s) d = pte s d"
  proof
    fix n
    show "pte (link_table d i t s) d n = pte s d n"
      using a [of "n mod 1024"] td assms(5) ne [of "n div 1024"] ne' [of "n div 1024"]
      by (auto simp: pte_def pt split: option.split)
  qed
  have "own (link_table d i t s) d r = ((own s d)(RTab i \<mapsto> t)) r" for r
    by (cases r) (simp_all add: pt pe)
  then show "own (link_table d i t s) d = (own s d)(RTab i \<mapsto> t)" by (simp add: fun_eq_iff)
qed

lemma upd_view:
  assumes "dir_ok s d" "ptab s d (n div 1024) = Some t" "w < 2 ^ 32"
  shows "ptab (upd_pte t (n mod 1024) w s) d = ptab s d" "pte (upd_pte t (n mod 1024) w s) d = (pte s d)(n := w)"
    "own (upd_pte t (n mod 1024) w s) d =
       (own s d)(RUser n := (if n < 2 ^ 19 \<and> odd w then Some (KERNBASE + PTE_ADDR w) else None))"
proof -
  note t = dir_ok_tab [OF assms(1,2)]
  have a: "pte_at q j (upd_pte t (n mod 1024) w s) = (if q = t \<and> j = n mod 1024 then w else pte_at q j s)"
    if "j < 1024" for q j using pte_at_upd [OF t(1) _ that assms(3)] by simp
  show pt: "ptab (upd_pte t (n mod 1024) w s) d = ptab s d"
    using a [of _ d] t(2) by (auto simp: ptab_def fun_eq_iff)
  show pe: "pte (upd_pte t (n mod 1024) w s) d = (pte s d)(n := w)"
  proof
    fix m
    have "m div 1024 = n div 1024" if "ptab s d (m div 1024) = Some t" using t(3) [OF that] .
    moreover have "m = n" if "m div 1024 = n div 1024" "m mod 1024 = n mod 1024"
      using that by (metis div_mult_mod_eq)
    ultimately have "m = n" if "ptab s d (m div 1024) = Some t" "m mod 1024 = n mod 1024"
      using that by blast
    moreover have "pte_at q (m mod 1024) (upd_pte t (n mod 1024) w s) =
        (if q = t \<and> m mod 1024 = n mod 1024 then w else pte_at q (m mod 1024) s)" for q
      by (rule a) simp
    ultimately show "pte (upd_pte t (n mod 1024) w s) d m = ((pte s d)(n := w)) m"
      using assms(2) by (cases "m = n") (auto simp: pte_def pt split: option.split)
  qed
  have "own (upd_pte t (n mod 1024) w s) d r =
      ((own s d)(RUser n := (if n < 2 ^ 19 \<and> odd w then Some (KERNBASE + PTE_ADDR w) else None))) r" for r
    by (cases r) (simp_all add: pt pe)
  then show "own (upd_pte t (n mod 1024) w s) d =
      (own s d)(RUser n := (if n < 2 ^ 19 \<and> odd w then Some (KERNBASE + PTE_ADDR w) else None))"
    by (simp add: fun_eq_iff)
qed

section \<open>Growing a directory\<close>

definition same_pages :: "nat set \<Rightarrow> 'z kmst_scheme \<Rightarrow> 'z kmst_scheme \<Rightarrow> bool" where
  "same_pages X s s' \<longleftrightarrow> kend s' = kend s \<and> (\<forall>q. q \<notin> X \<longrightarrow> pages s' q = pages s q)"

text \<open>Only tables and pages that were free have changed, and only free pages were used.\<close>

definition ext :: "nat \<Rightarrow> 'z kmst_scheme \<Rightarrow> nat list \<Rightarrow> 'z kmst_scheme \<Rightarrow> nat list \<Rightarrow> bool" where
  "ext d s ps s' ps' \<longleftrightarrow> vm_ok s' d ps' \<and> set ps' \<subseteq> set ps \<and> tabs s d \<subseteq> tabs s' d \<and> tabs s' d \<subseteq> tabs s d \<union> set ps \<and>
     same_pages (set ps \<union> tabs s d) s s'"

lemma ext_refl: "vm_ok s d ps \<Longrightarrow> ext d s ps s ps"
  by (auto simp: ext_def same_pages_def)

lemma same_pages_trans: "same_pages X s s1 \<Longrightarrow> same_pages Y s1 s2 \<Longrightarrow> Y \<subseteq> X \<Longrightarrow> same_pages X s s2"
  by (auto simp: same_pages_def subset_iff)

lemma ext_trans:
  assumes "ext d s ps s1 ps1" "ext d s1 ps1 s2 ps2"
  shows "ext d s ps s2 ps2"
proof -
  have "set ps1 \<union> tabs s1 d \<subseteq> set ps \<union> tabs s d" using assms(1) by (auto simp: ext_def)
  with assms have "same_pages (set ps \<union> tabs s d) s s2" by (auto simp: ext_def intro: same_pages_trans)
  moreover have "tabs s2 d \<subseteq> tabs s d \<union> set ps"
    using assms unfolding ext_def by (meson Un_least Un_upper2 order_trans)
  ultimately show ?thesis using assms by (auto simp: ext_def)
qed

lemma vm_ok_add:
  assumes "vm_ok s d ps" "own s' d = (own s d)(r \<mapsto> p)" "p \<notin> ran (own s d)" "p \<notin> set ps'" "page_at s' p"
    and "free_pages s' ps'" "set ps' \<subseteq> set ps" "\<And>q. q \<in> ran (own s d) \<Longrightarrow> page_at s' q" "kend s' = kend s"
  shows "vm_ok s' d ps'"
proof -
  have "dir_ok s' d" unfolding dir_ok_def
  proof (intro conjI allI impI)
    show "KERNBASE < kend s'" using dir_okD(3) [OF vm_okD(2) [OF assms(1)]] assms(9) by simp
  next
    fix x q assume "own s' d x = Some q"
    then have "x = r \<and> q = p \<or> own s d x = Some q" using assms(2) by (auto split: if_splits)
    then show "page_at s' q" using assms(5,8) by (auto simp: ran_def)
  next
    fix x y q assume "own s' d x = Some q" "own s' d y = Some q"
    moreover have "own s d z \<noteq> Some p" for z using assms(3) by (auto simp: ran_def)
    ultimately show "x = y"
      using assms(2) dir_okD(2) [OF vm_okD(2) [OF assms(1)], of x q y] by (auto split: if_splits)
  qed
  moreover have "ran (own s' d) \<subseteq> insert p (ran (own s d))" by (auto simp: assms(2) ran_def)
  ultimately show ?thesis using assms(1,4,6,7) by (auto simp: vm_ok_def)
qed

lemma own_tabs: "tabs s d \<subseteq> ran (own s d)"
proof -
  have "own s d RDir = Some d" "own s d (RTab i) = ptab s d i" for i by simp_all
  then show ?thesis unfolding tabs_def ran_def by (auto simp del: own.simps) metis+
qed

end
