(* ===== verification/Address_Space.thy ===== *)
theory Address_Space
  imports Page_Tables
begin

text \<open>
  The operations of \<open>vm.c\<close> on whole address spaces: what \<open>mappages\<close>, \<open>allocuvm\<close>, \<open>deallocuvm\<close>,
  \<open>setupkvm\<close>, \<open>copyuvm\<close>, \<open>freevm\<close> and \<open>copyout\<close> do to the entries and the user memory of a page
  directory, on every branch.
\<close>

lemma vm_ok_cong:
  assumes "vm_ok s d ps" "pages s' = pages s" "kend s' = kend s" "free_pages s' ps'" "set ps' \<subseteq> set ps"
  shows "vm_ok s' d ps'" "own s' d = own s d" "pte s' d = pte s d" "ptab s' d = ptab s d" "tabs s' d = tabs s d"
proof -
  show v: "own s' d = own s d" "pte s' d = pte s d" "ptab s' d = ptab s d"
    using view_cong [of s d s'] assms(2) by simp_all
  then show "tabs s' d = tabs s d" by (simp add: tabs_def)
  have "page_at s' = page_at s" using page_ok_cong [OF assms(3)] assms(2) by (simp add: page_at_def fun_eq_iff)
  then show "vm_ok s' d ps'" using assms(1,3-5) by (auto simp: vm_ok_def dir_ok_def v(1))
qed

lemma vm_ok_kalloc:
  assumes "vm_ok s d ps"
  shows "\<exists>s'. kalloc s = Inr (case ps of [] \<Rightarrow> 0 | p # _ \<Rightarrow> p, s') \<and> vm_ok s' d (tl ps) \<and> pages s' = pages s \<and>
     kend s' = kend s \<and> own s' d = own s d \<and> pte s' d = pte s d \<and> ptab s' d = ptab s d \<and> tabs s' d = tabs s d"
proof -
  obtain s' where s': "kalloc s = Inr (case ps of [] \<Rightarrow> 0 | p # _ \<Rightarrow> p, s')" "free_pages s' (tl ps)"
      "pages s' = pages s" "kend s' = kend s"
    using kalloc_spec [OF vm_okD(1) [OF assms]] by blast
  moreover have "set (tl ps) \<subseteq> set ps" by (cases ps) auto
  ultimately show ?thesis using vm_ok_cong [OF assms s'(3,4,2)] by blast
qed

lemma free_head:
  assumes "vm_ok s d (p # ps)"
  shows "page_ok s p" "p \<notin> set ps" "p \<notin> ran (own s d)" "p \<notin> tabs s d" "p \<noteq> 0"
proof -
  have "free_pages s (p # ps)" using vm_okD(1) [OF assms] .
  then show "page_ok s p" "p \<notin> set ps" by (simp_all add: free_pages_def)
  then show "p \<noteq> 0" by (simp add: phys_page)
  show "p \<notin> ran (own s d)" using vm_okD(3) [OF assms] by (auto simp: ran_def)
  then show "p \<notin> tabs s d" using own_tabs by blast
qed

lemma link_table_ok:
  assumes "vm_ok s d ps" "page_ok s t" "t \<notin> ran (own s d)" "t \<notin> set ps" "i < 1024" "ptab s d i = None"
  shows "vm_ok (link_table d i t s) d ps" "tabs (link_table d i t s) d = insert t (tabs s d)"
    "pool (link_table d i t s) d ps = insert t (pool s d ps)" "same_pages {d, t} s (link_table d i t s)"
proof -
  let ?s' = "link_table d i t s"
  note v = link_table_view [OF vm_okD(2) [OF assms(1)] assms(2,3,5,6)]
  have td: "t \<noteq> d" using assms(3) own_tabs [of s d] by (auto simp: tabs_def)
  note d = vm_ok_dir [OF assms(1)]
  show "same_pages {d, t} s ?s'" by (simp add: same_pages_def link_table_def upd_pte_def)
  have len: "length (pages ?s' q) = (if q = t then PGSIZE else length (pages s q))" for q
    using td d(1) assms(5) by (auto simp: link_table_def upd_pte_def page_at_def)
  have "page_ok ?s' = page_ok s" by (simp add: link_table_def)
  then have pa: "page_at ?s' q" if "q = t \<or> page_at s q" for q
    using that assms(2) by (auto simp: page_at_def len)
  have "free_pages ?s' ps" using assms(4) d(2) vm_okD(1) [OF assms(1)] by (simp add: link_table_def)
  then show "vm_ok ?s' d ps"
    using pa dir_okD(1) [OF vm_okD(2) [OF assms(1)]]
    by (intro vm_ok_add [OF assms(1) v(3) assms(3,4)]) (auto simp: ran_def link_table_def)
  show "tabs ?s' d = insert t (tabs s d)" using assms(6) by (auto simp: tabs_def v(1))
  have "own s d (RTab i) = None" using assms(6) by simp
  then show "pool ?s' d ps = insert t (pool s d ps)" by (simp add: pool_def v(3))
qed

lemma walk_alloc:
  assumes "vm_ok s d ps" "va < 2 ^ 32"
  shows "\<exists>r s' ps'. walkpgdir d va True s = Inr (r, s') \<and> ext d s ps s' ps' \<and> pte s' d = pte s d \<and>
     pool s' d ps' = pool s d ps \<and>
     (case r of None \<Rightarrow> ps = [] \<and> ps' = []
      | Some (t, i) \<Rightarrow> ptab s' d (va div 4096 div 1024) = Some t \<and> i = va div 4096 mod 1024 \<and> length ps \<le> Suc (length ps'))"
proof (cases "ptab s d (va div 4096 div 1024)")
  case (Some t)
  with walk_present [OF vm_okD(2) [OF assms(1)] assms(2)] ext_refl [OF assms(1)] show ?thesis by fastforce
next
  case None
  let ?i = "va div 4096 div 1024"
  have i: "?i < 1024" "PDX va = ?i" using page_index [OF assms(2)] PDX_page [OF assms(2)] .
  have ev: "even (pte_at d ?i s)" using None i(1) by (simp add: ptab_def split: if_splits)
  obtain s1 where s1: "kalloc s = Inr (case ps of [] \<Rightarrow> 0 | p # _ \<Rightarrow> p, s1)" "vm_ok s1 d (tl ps)" "pages s1 = pages s"
      "kend s1 = kend s" "own s1 d = own s d" "pte s1 d = pte s d" "ptab s1 d = ptab s d" "tabs s1 d = tabs s d"
    using vm_ok_kalloc [OF assms(1)] by blast
  show ?thesis
  proof (cases ps)
    case Nil
    then have "walkpgdir d va True s = Inr (None, s1)" using s1(1) ev by (simp add: walkpgdir_def bnd_def i(2))
    moreover have "ext d s ps s1 []" using s1 Nil by (auto simp: ext_def same_pages_def)
    ultimately show ?thesis using s1 Nil
      by (intro exI [of _ None] exI [of _ s1] exI [of _ "[]"]) (simp add: pool_def)
  next
    case (Cons p qs)
    note h = free_head [OF assms(1) [unfolded Cons]]
    let ?s2 = "link_table d ?i p s1"
    have ok: "page_ok s1 p" using h(1) page_ok_cong [OF s1(4)] by simp
    have p: "p \<notin> ran (own s1 d)" "ptab s1 d ?i = None" using h(3) s1 None by simp_all
    have vq: "vm_ok s1 d qs" using s1(2) Cons by simp
    note l = link_table_ok [OF vq ok p(1) h(2) i(1) p(2)] and v = link_table_view [OF vm_okD(2) [OF vq] ok p(1) i(1) p(2)]
    have "walkpgdir d va True s = Inr (Some (p, va div 4096 mod 1024), ?s2)"
      using s1(1) Cons h(5) ev
      by (simp add: V2P_page [OF ok] walkpgdir_def bnd_def i(2) PTX_page set_page_def link_table_def)
    moreover have "ext d s ps ?s2 qs"
      using l Cons s1 by (auto simp: ext_def same_pages_def tabs_def)
    moreover have "pool ?s2 d qs = pool s d ps" using l(3) s1(5) Cons by (auto simp: pool_def)
    ultimately show ?thesis using v s1(6)
      by (intro exI [of _ "Some (p, va div 4096 mod 1024)"] exI [of _ ?s2] exI [of _ qs])
        (simp add: Cons)
  qed
qed

section \<open>Mapping a page\<close>

lemma set_word:
  assumes "vm_ok s d ps" "ptab s d (n div 1024) = Some t" "even (pte s d n)" "odd w" "w < 2 ^ 32"
    and "n < 2 ^ 19 \<Longrightarrow> page_at s (KERNBASE + PTE_ADDR w) \<and> KERNBASE + PTE_ADDR w \<notin> pool s d ps"
  shows "ext d s ps (upd_pte t (n mod 1024) w s) ps" "pte (upd_pte t (n mod 1024) w s) d = (pte s d)(n := w)"
    "pool (upd_pte t (n mod 1024) w s) d ps =
       (if n < 2 ^ 19 then insert (KERNBASE + PTE_ADDR w) (pool s d ps) else pool s d ps)"
proof -
  note u = upd_view [OF vm_okD(2) [OF assms(1)] assms(2,5)] and t = vm_ok_tab [OF assms(1,2)]
  let ?s2 = "upd_pte t (n mod 1024) w s"
  show "pte ?s2 d = (pte s d)(n := w)" by (rule u(2))
  have pa2: "page_at ?s2 = page_at s" using t(1) by (intro page_at_upd) simp_all
  have f2: "free_pages ?s2 ps" using vm_okD(1) [OF assms(1)] t(2) by simp
  have n1: "own s d (RUser n) = None" using assms(3) by simp
  have o2: "own ?s2 d = (if n < 2 ^ 19 then (own s d)(RUser n \<mapsto> KERNBASE + PTE_ADDR w) else own s d)"
    using u(3) assms(4) n1 by (simp add: fun_eq_iff)
  have "vm_ok ?s2 d ps"
  proof (cases "n < 2 ^ 19")
    case True
    then have o: "own ?s2 d = (own s d)(RUser n \<mapsto> KERNBASE + PTE_ADDR w)" using o2 by simp
    show ?thesis
      using assms(6) [OF True] f2 dir_okD(1) [OF vm_okD(2) [OF assms(1)]]
      by (intro vm_ok_add [OF assms(1) o]) (auto simp: pool_def pa2 ran_def)
  qed (use o2 assms(1) f2 in \<open>simp add: vm_ok_def dir_ok_def pa2\<close>)
  moreover have "tabs ?s2 d = tabs s d" "t \<in> tabs s d" using assms(2) by (auto simp: tabs_def u(1) ran_def)
  ultimately show "ext d s ps ?s2 ps" by (auto simp: ext_def same_pages_def upd_pte_def)
  show "pool ?s2 d ps = (if n < 2 ^ 19 then insert (KERNBASE + PTE_ADDR w) (pool s d ps) else pool s d ps)"
    using ran_map_upd [of "own s d", OF n1] by (simp add: pool_def o2)
qed

text \<open>The body of the loop of \<open>mappages\<close> on one page: no memory for a page table, or the entry is set.\<close>

lemma map_page:
  assumes "vm_ok s d ps" "n < 2 ^ 20" "even (pte s d n)" "pa mod 4096 = 0" "pa < 2 ^ 32" "f < 4096"
    and "n < 2 ^ 19 \<Longrightarrow> page_at s (KERNBASE + pa) \<and> KERNBASE + pa \<notin> pool s d ps"
  shows "(\<exists>s'. mappages_loop (Suc k) d (n * 4096) lst pa f s = Inr (-1, s') \<and> ps = [] \<and> ext d s ps s' [] \<and> pte s' d = pte s d \<and>
      pool s' d [] = pool s d ps) \<or>
    (\<exists>s' ps'. mappages_loop (Suc k) d (n * 4096) lst pa f s =
      (if n * 4096 = lst then ret 0
       else mappages_loop k d ((n * 4096 + PGSIZE) mod 2 ^ 32) lst ((pa + PGSIZE) mod 2 ^ 32) f) s' \<and>
      ext d s ps s' ps' \<and> length ps \<le> Suc (length ps') \<and> pte s' d = (pte s d)(n := pa OR f OR PTE_P) \<and>
      pool s' d ps' = (if n < 2 ^ 19 then insert (KERNBASE + pa) (pool s d ps) else pool s d ps))"
proof -
  have va: "n * 4096 < 2 ^ 32" "n * 4096 div 4096 = n" using assms(2) by simp_all
  obtain r s1 ps1 where s1: "walkpgdir d (n * 4096) True s = Inr (r, s1)" "ext d s ps s1 ps1" "pte s1 d = pte s d"
      "pool s1 d ps1 = pool s d ps"
      "case r of None \<Rightarrow> ps = [] \<and> ps1 = []
       | Some (t, i) \<Rightarrow> ptab s1 d (n div 1024) = Some t \<and> i = n mod 1024 \<and> length ps \<le> Suc (length ps1)"
    using walk_alloc [OF assms(1) va(1), unfolded va(2)] by blast
  show ?thesis
  proof (cases r)
    case None
    then show ?thesis using s1 by (intro disjI1 exI [of _ s1]) (simp add: bnd_def)
  next
    case (Some ti)
    then obtain t where r: "r = Some (t, n mod 1024)" "ptab s1 d (n div 1024) = Some t" "length ps \<le> Suc (length ps1)"
      using s1(5) by (cases ti) auto
    have ok1: "vm_ok s1 d ps1" using s1(2) by (simp add: ext_def)
    have own1: "page_at s1 (KERNBASE + pa) \<and> KERNBASE + pa \<notin> pool s1 d ps1" if "n < 2 ^ 19"
      using assms(7) [OF that] s1(2,4) own_tabs [of s d] page_ok_cong [of s1 s]
      by (auto simp: ext_def same_pages_def pool_def page_at_def)
    have ev: "even (pte s1 d n)" using assms(3) s1(3) by simp
    define w where "w = pa OR f OR PTE_P"
    note w = entry [OF assms(4,6), folded w_def]
    note e = set_word [OF ok1 r(2) ev w(2) w(4) [OF assms(5)], unfolded w(1), OF own1]
    let ?s2 = "upd_pte t (n mod 1024) w s1"
    have "pte_at t (n mod 1024) s1 = pte s1 d n" using r(2) by (simp add: pte_def)
    then have run: "mappages_loop (Suc k) d (n * 4096) lst pa f s =
      (if n * 4096 = lst then ret 0
       else mappages_loop k d ((n * 4096 + PGSIZE) mod 2 ^ 32) lst ((pa + PGSIZE) mod 2 ^ 32) f) ?s2"
      using s1(1) r(1) ev by (simp add: bnd_def w_def)
    have "ext d s ps ?s2 ps1" using ext_trans [OF s1(2) e(1)] by simp
    then show ?thesis
      using run e(2,3) s1(3,4) r(3) unfolding w_def [symmetric] by (intro disjI2 exI [of _ ?s2] exI [of _ ps1]) simp
  qed
qed

lemma rounddown_page [simp]: "PGROUNDDOWN (n * 4096) = n * 4096" "k < 4096 \<Longrightarrow> PGROUNDDOWN (n * 4096 + k) = n * 4096"
  by (simp_all add: PGROUNDDOWN_def)

lemma mappages_last:
  assumes "n + m < 2 ^ 20"
  shows "mappages d (n * 4096) ((m + 1) * 4096) pa f = mappages_loop (Suc (2 ^ 20 - 1)) d (n * 4096) ((n + m) * 4096) pa f"
proof -
  define x where "x = (n + m) * 4096 + 4095"
  have "n * 4096 + (m + 1) * 4096 + 2 ^ 32 - 1 = x + 2 ^ 32" by (simp add: x_def)
  moreover have "x < 2 ^ 32" using assms by (simp add: x_def)
  ultimately have "(n * 4096 + (m + 1) * 4096 + 2 ^ 32 - 1) mod 2 ^ 32 = (n + m) * 4096 + 4095"
    using mod_add_self2 [of x "2 ^ 32"] x_def by (metis mod_less)
  then have "PGROUNDDOWN ((n * 4096 + (m + 1) * 4096 + 2 ^ 32 - 1) mod 2 ^ 32) = (n + m) * 4096"
    using rounddown_page(2) [of 4095 "n + m"] by (simp only:)
  moreover have "(2 ^ 20 :: nat) = Suc (2 ^ 20 - 1)" by simp
  ultimately show ?thesis unfolding mappages_def rounddown_page(1) by (simp only:)
qed

lemma mappages_user:
  assumes "vm_ok s d ps" "n < 2 ^ 19" "even (pte s d n)" "page_at s p" "p \<notin> pool s d ps" "f < 4096"
  shows "(\<exists>s'. mappages d (n * 4096) 4096 (p - KERNBASE) f s = Inr (-1, s') \<and> ps = [] \<and> ext d s ps s' [] \<and> pte s' d = pte s d \<and>
      pool s' d [] = pool s d ps) \<or>
    (\<exists>s' ps'. mappages d (n * 4096) 4096 (p - KERNBASE) f s = Inr (0, s') \<and> ext d s ps s' ps' \<and> length ps \<le> Suc (length ps') \<and>
      pte s' d = (pte s d)(n := (p - KERNBASE) OR f OR PTE_P) \<and> pool s' d ps' = insert p (pool s d ps))"
proof -
  note p = phys_page [of s p]
  have ok: "page_ok s p" using assms(4) by (simp add: page_at_def)
  have eq: "mappages d (n * 4096) 4096 pa f = mappages_loop (Suc (2 ^ 20 - 1)) d (n * 4096) (n * 4096) pa f" for pa
    using mappages_last [of n 0 d pa f] assms(2) by simp
  from map_page [OF assms(1) _ assms(3) p(1,2) [OF ok] assms(6), of "2 ^ 20 - 1" "n * 4096"] assms(2,4,5) p(3) [OF ok]
  show ?thesis unfolding eq by (simp del: mappages_loop.simps)
qed

lemma mappages_kernel_loop:
  assumes "vm_ok s d ps" "2 ^ 19 \<le> n" "n + m < 2 ^ 20" "\<forall>j. n \<le> j \<and> j \<le> n + m \<longrightarrow> even (pte s d j)"
    and "pa mod 4096 = 0" "pa < 2 ^ 32" "f < 4096" "m < fuel"
  shows "\<exists>r s' ps'. mappages_loop fuel d (n * 4096) ((n + m) * 4096) pa f s = Inr (r, s') \<and> ext d s ps s' ps' \<and>
     pool s' d ps' = pool s d ps \<and> (\<forall>j. j < n \<or> n + m < j \<longrightarrow> pte s' d j = pte s d j) \<and>
     (r = 0 \<and> (\<forall>k \<le> m. pte s' d (n + k) = (pa + k * 4096) mod 2 ^ 32 OR f OR PTE_P) \<or> r = -1 \<and> ps' = [])"
  using assms
proof (induction m arbitrary: fuel n pa s ps)
  case 0
  then obtain k where k: "fuel = Suc k" by (cases fuel) auto
  from map_page [OF "0.prems"(1) _ _ "0.prems"(5,6,7), of n k "n * 4096"] "0.prems"(2-4)
  show ?case using "0.prems"(6) unfolding k by (fastforce simp del: mappages_loop.simps)
next
  case (Suc m)
  then obtain k where k: "fuel = Suc k" "m < k" by (cases fuel) auto
  let ?L = "(n + Suc m) * 4096"
  have ne: "n * 4096 \<noteq> ?L" by simp
  consider s' where "mappages_loop (Suc k) d (n * 4096) ?L pa f s = Inr (-1, s')" "ps = []" "ext d s ps s' []"
      "pte s' d = pte s d" "pool s' d [] = pool s d ps"
    | s1 ps1 where "mappages_loop (Suc k) d (n * 4096) ?L pa f s =
        mappages_loop k d ((n * 4096 + PGSIZE) mod 2 ^ 32) ?L ((pa + PGSIZE) mod 2 ^ 32) f s1"
      "ext d s ps s1 ps1" "pte s1 d = (pte s d)(n := pa OR f OR PTE_P)" "pool s1 d ps1 = pool s d ps"
    using map_page [OF Suc.prems(1) _ _ Suc.prems(5,6,7), of n k ?L] Suc.prems(2-4) ne
    by (auto simp del: mappages_loop.simps)
  then show ?case
  proof cases
    case 1
    then show ?thesis unfolding k(1) by (intro exI [of _ "-1"] exI [of _ s'] exI [of _ "[]"]) simp
  next
    case 2
    have a: "(n * 4096 + PGSIZE) mod 2 ^ 32 = Suc n * 4096" using Suc.prems(3) by simp
    have "4096 dvd (pa + PGSIZE) mod 2 ^ 32" using Suc.prems(5) by (intro dvd_mod) auto
    then have pa: "(pa + PGSIZE) mod 2 ^ 32 mod 4096 = 0" by simp
    have L: "?L = (Suc n + m) * 4096" by simp
    have v: "vm_ok s1 d ps1" using 2(2) by (simp add: ext_def)
    have b: "2 ^ 19 \<le> Suc n" "Suc n + m < 2 ^ 20" "\<forall>j. Suc n \<le> j \<and> j \<le> Suc n + m \<longrightarrow> even (pte s1 d j)"
        "(pa + PGSIZE) mod 2 ^ 32 < 2 ^ 32"
      using Suc.prems(2-4) 2(3) by auto
    obtain r s' ps' where r: "mappages_loop k d (Suc n * 4096) ((Suc n + m) * 4096) ((pa + PGSIZE) mod 2 ^ 32) f s1 = Inr (r, s')"
        "ext d s1 ps1 s' ps'" "pool s' d ps' = pool s1 d ps1" "\<forall>j. j < Suc n \<or> Suc n + m < j \<longrightarrow> pte s' d j = pte s1 d j"
        "r = 0 \<and> (\<forall>i \<le> m. pte s' d (Suc n + i) = ((pa + PGSIZE) mod 2 ^ 32 + i * 4096) mod 2 ^ 32 OR f OR PTE_P) \<or>
         r = -1 \<and> ps' = []"
      using Suc.IH [OF v _ _ _ pa _ Suc.prems(7) k(2)] b by blast
    have "pte s' d (n + i) = (pa + i * 4096) mod 2 ^ 32 OR f OR PTE_P"
      if "\<forall>i \<le> m. pte s' d (Suc n + i) = ((pa + PGSIZE) mod 2 ^ 32 + i * 4096) mod 2 ^ 32 OR f OR PTE_P" "i \<le> Suc m" for i
    proof (cases i)
      case 0
      then show ?thesis using r(4) 2(3) Suc.prems(6) by simp
    next
      case (Suc i')
      then have "pte s' d (n + i) = ((pa + PGSIZE) mod 2 ^ 32 + i' * 4096) mod 2 ^ 32 OR f OR PTE_P" using that by auto
      moreover have "((pa + PGSIZE) mod 2 ^ 32 + i' * 4096) mod 2 ^ 32 = (pa + PGSIZE + i' * 4096) mod 2 ^ 32"
        by (rule mod_add_left_eq)
      ultimately show ?thesis using Suc by (simp only: mult_Suc add.assoc)
    qed
    moreover have "\<forall>j. j < n \<or> n + Suc m < j \<longrightarrow> pte s' d j = pte s d j" using r(4) 2(3) by auto
    ultimately show ?thesis
      using 2(1,4) r ext_trans [OF 2(2) r(2)] unfolding k(1) a L
      by (intro exI [of _ r] exI [of _ s'] exI [of _ ps']) (auto simp del: mappages_loop.simps)
  qed
qed

section \<open>Releasing pages\<close>

lemma ran_delete:
  assumes "m r = Some v" "\<And>r'. m r' = Some v \<Longrightarrow> r = r'"
  shows "ran m = insert v (ran (m(r := None)))" "v \<notin> ran (m(r := None))"
proof -
  have "(m(r := None))(r \<mapsto> v) = m" using assms(1) by (simp add: fun_eq_iff)
  then show "ran m = insert v (ran (m(r := None)))" using ran_map_upd [of "m(r := None)" r v] by simp
  show "v \<notin> ran (m(r := None))"
  proof
    assume "v \<in> ran (m(r := None))"
    then obtain a where "(m(r := None)) a = Some v" by (auto simp: ran_def)
    then show False using assms(2) [of a] by (simp split: if_splits)
  qed
qed

lemma drop_user:
  assumes "vm_ok s d ps" "n < 2 ^ 19" "odd (pte s d n)" "ptab s d (n div 1024) = Some t" "v = KERNBASE + PTE_ADDR (pte s d n)"
  shows "\<exists>s1. kfree v s = Inr ((), s1) \<and> vm_ok (upd_pte t (n mod 1024) 0 s1) d (v # ps) \<and>
     ptab (upd_pte t (n mod 1024) 0 s1) d = ptab s d \<and> pte (upd_pte t (n mod 1024) 0 s1) d = (pte s d)(n := 0) \<and>
     pool (upd_pte t (n mod 1024) 0 s1) d (v # ps) = pool s d ps \<and>
     same_pages (insert v (tabs s d)) s (upd_pte t (n mod 1024) 0 s1)"
proof -
  note D = vm_okD(2) [OF assms(1)]
  have o: "own s d (RUser n) = Some v" using assms(2,3,5) by simp
  note v = dir_okD(1) [OF D o] vm_okD(3) [OF assms(1) o]
  obtain s1 where s1: "kfree v s = Inr ((), s1)" "free_pages s1 (v # ps)" "kend s1 = kend s"
      "\<forall>q. q \<noteq> v \<longrightarrow> pages s1 q = pages s q" "length (pages s1 v) = PGSIZE"
    using kfree_spec [OF vm_okD(1) [OF assms(1)] _ v(2)] v(1) by (auto simp: page_at_def)
  have vt: "v \<notin> tabs s d"
    using dir_okD(2) [OF D o, of RDir] dir_okD(2) [OF D o, of "RTab _"] by (auto simp: tabs_def ran_def)
  then have view: "ptab s1 d = ptab s d" "pte s1 d = pte s d" "own s1 d = own s d"
    using view_cong [of s d s1] s1(4) by metis+
  have pa: "page_at s1 q" if "page_at s q" for q
    using that s1(4,5) page_ok_cong [OF s1(3)] by (cases "q = v") (auto simp: page_at_def)
  have D1: "dir_ok s1 d" using D pa s1(3) by (auto simp: dir_ok_def view)
  have t: "ptab s1 d (n div 1024) = Some t" "t \<in> tabs s d" using assms(4) by (auto simp: view tabs_def ran_def)
  let ?s2 = "upd_pte t (n mod 1024) 0 s1"
  note u = upd_view [OF D1 t(1), of 0] and t1 = dir_ok_tab [OF D1 t(1)]
  have o2: "own ?s2 d = (own s d)(RUser n := None)" using u(3) view(3) by simp
  have r: "ran (own s d) = insert v (ran (own ?s2 d))" "v \<notin> ran (own ?s2 d)"
    unfolding o2 using ran_delete [of "own s d", OF o dir_okD(2) [OF D o]] by blast+
  have "page_at ?s2 = page_at s1" using t1(1) by (intro page_at_upd) simp_all
  then have "dir_ok ?s2 d" using D1 by (auto simp: dir_ok_def o2 view split: if_splits)
  moreover have "t \<notin> set (v # ps)" using vt t(2) vm_ok_tab(2) [OF assms(1,4)] by auto
  ultimately have "vm_ok ?s2 d (v # ps)"
    using assms(1) s1(2) r by (auto simp: vm_ok_def)
  moreover have "same_pages (insert v (tabs s d)) s ?s2"
    using s1(3,4) t(2) by (auto simp: same_pages_def upd_pte_def)
  ultimately show ?thesis using s1(1) u(1,2) r by (intro exI [of _ s1]) (auto simp: view pool_def)
qed

lemma next_table:
  assumes "n < 2 ^ 19"
  shows "PGADDR (PDX (n * 4096) + 1) 0 0 = (n div 1024 + 1) * 1024 * 4096"
proof -
  have n: "n div 1024 < 512" using assms by (simp add: less_mult_imp_div_less)
  have "PDX (n * 4096) = n div 1024" using assms PDX_page [of "n * 4096"] by simp
  moreover have "(n div 1024 + 1) * 2 ^ 22 < (2 :: nat) ^ 32" using n by simp
  ultimately show ?thesis by (simp add: PGADDR_def push_bit_eq_mult)
qed

text \<open>The user pages with numbers in \<open>N\<close> have been given back, and nothing else has changed.\<close>

definition freed :: "nat \<Rightarrow> 'z kmst_scheme \<Rightarrow> nat list \<Rightarrow> nat set \<Rightarrow> 'z kmst_scheme \<Rightarrow> nat list \<Rightarrow> bool" where
  "freed d s ps N s' ps' \<longleftrightarrow> vm_ok s' d ps' \<and> ptab s' d = ptab s d \<and>
     (\<forall>j. pte s' d j = (if j \<in> N \<and> odd (pte s d j) then 0 else pte s d j)) \<and>
     pool s' d ps' = pool s d ps \<and> same_pages (tabs s d \<union> set ps') s s' \<and> set ps \<subseteq> set ps'"

lemma freed_refl: "vm_ok s d ps \<Longrightarrow> \<forall>j \<in> N. even (pte s d j) \<Longrightarrow> freed d s ps N s ps"
  by (auto simp: freed_def same_pages_def)

lemma freed_mono: "freed d s ps N s' ps' \<Longrightarrow> N \<subseteq> M \<Longrightarrow> \<forall>j \<in> M - N. even (pte s d j) \<Longrightarrow> freed d s ps M s' ps'"
  by (auto simp: freed_def)

lemma freed_trans:
  assumes "freed d s ps M s1 ps1" "freed d s1 ps1 N s' ps'"
  shows "freed d s ps (M \<union> N) s' ps'"
proof -
  have t: "tabs s1 d = tabs s d" using assms(1) by (simp add: freed_def tabs_def)
  have "same_pages (tabs s d \<union> set ps') s s'"
    using assms unfolding freed_def t by (auto simp: same_pages_def subset_iff)
  then show ?thesis using assms unfolding freed_def by auto
qed

lemma dealloc_step:
  assumes "vm_ok s d ps" "n < 2 ^ 19" "ptab s d (n div 1024) = Some t" "n * 4096 < oldsz"
  shows "\<exists>s1 ps1. deallocuvm_loop (Suc fuel) d (n * 4096) oldsz s = deallocuvm_loop fuel d (Suc n * 4096) oldsz s1 \<and>
     freed d s ps {n} s1 ps1"
proof -
  have n: "n * 4096 < 2 ^ 32" "n * 4096 div 4096 = n" "(n * 4096 + PGSIZE) mod 2 ^ 32 = Suc n * 4096"
    using assms(2) by simp_all
  have walk: "walkpgdir d (n * 4096) False s = Inr (Some (t, n mod 1024), s)"
    using walk_present [OF vm_okD(2) [OF assms(1)] n(1)] assms(3) unfolding n(2) by blast
  have w: "pte_at t (n mod 1024) s = pte s d n" using assms(3) by (simp add: pte_def)
  show ?thesis
  proof (cases "odd (pte s d n)")
    case False
    then have "deallocuvm_loop (Suc fuel) d (n * 4096) oldsz s = deallocuvm_loop fuel d (Suc n * 4096) oldsz s"
      using walk w assms(4) n(3) by (simp add: bnd_def)
    with False show ?thesis using freed_refl [OF assms(1), of "{n}"] by auto
  next
    case True
    let ?v = "KERNBASE + PTE_ADDR (pte s d n)"
    have o: "own s d (RUser n) = Some ?v" using True assms(2) by simp
    have p: "page_ok s ?v" "KERNBASE < kend s" "PTE_ADDR (pte s d n) \<noteq> 0"
      using dir_okD(1) [OF vm_okD(2) [OF assms(1)] o] dir_okD(3) [OF vm_okD(2) [OF assms(1)]]
      by (auto simp: page_at_def page_ok_def)
    obtain s1 where s1: "kfree ?v s = Inr ((), s1)" "vm_ok (upd_pte t (n mod 1024) 0 s1) d (?v # ps)"
        "ptab (upd_pte t (n mod 1024) 0 s1) d = ptab s d" "pte (upd_pte t (n mod 1024) 0 s1) d = (pte s d)(n := 0)"
        "pool (upd_pte t (n mod 1024) 0 s1) d (?v # ps) = pool s d ps"
        "same_pages (insert ?v (tabs s d)) s (upd_pte t (n mod 1024) 0 s1)"
      using drop_user [OF assms(1,2) True assms(3) refl] by blast
    have "deallocuvm_loop (Suc fuel) d (n * 4096) oldsz s =
        deallocuvm_loop fuel d (Suc n * 4096) oldsz (upd_pte t (n mod 1024) 0 s1)"
      using walk w assms(4) n(3) True p(3) s1(1) by (simp add: bnd_def P2V_page [OF p(1)])
    moreover have "freed d s ps {n} (upd_pte t (n mod 1024) 0 s1) (?v # ps)"
      using s1(2-6) True by (auto simp: freed_def same_pages_def)
    ultimately show ?thesis by blast
  qed
qed

lemma dealloc_loop:
  assumes "vm_ok s d ps" "oldsz \<le> KERNBASE" "n \<le> 2 ^ 19" "2 ^ 19 - n < fuel"
  shows "\<exists>s' ps'. deallocuvm_loop fuel d (n * 4096) oldsz s = Inr ((), s') \<and> freed d s ps {j. n \<le> j \<and> j * 4096 < oldsz} s' ps'"
  using assms
proof (induction fuel arbitrary: s ps n)
  case (Suc fuel)
  show ?case
  proof (cases "n * 4096 < oldsz")
    case False
    then have "freed d s ps {j. n \<le> j \<and> j * 4096 < oldsz} s ps" using Suc.prems(1) by (intro freed_refl) auto
    then show ?thesis using False by (intro exI [of _ s] exI [of _ ps]) simp
  next
    case True
    then have n: "n < 2 ^ 19" "n * 4096 < 2 ^ 32" "n * 4096 div 4096 = n" using Suc.prems(2) by auto
    show ?thesis
    proof (cases "ptab s d (n div 1024)")
      case None
      define m where "m = (n div 1024 + 1) * 1024"
      have run: "deallocuvm_loop (Suc fuel) d (n * 4096) oldsz s = deallocuvm_loop fuel d (m * 4096) oldsz s"
        using True walk_absent [OF n(2), of s d] None n(3) next_table [OF n(1)] by (simp add: bnd_def m_def)
      have nn: "n < m" "m \<le> 2 ^ 19"
        using div_mult_mod_eq [of n 1024] n(1) by (simp_all add: m_def less_mult_imp_div_less Suc_leI) 
      have f: "2 ^ 19 - m < fuel" using nn Suc.prems(4) by linarith
      have ev: "even (pte s d j)" if "n \<le> j" "j < m" for j
      proof -
        have "j div 1024 = n div 1024"
          using that div_le_mono [of n j 1024] less_mult_imp_div_less [of j "n div 1024 + 1" 1024] by (simp add: m_def)
        then show ?thesis using None by (simp add: pte_def)
      qed
      obtain s' ps' where "deallocuvm_loop fuel d (m * 4096) oldsz s = Inr ((), s')"
          "freed d s ps {j. m \<le> j \<and> j * 4096 < oldsz} s' ps'"
        using Suc.IH [OF Suc.prems(1,2) nn(2) f] by blast
      moreover from this(2) have "freed d s ps {j. n \<le> j \<and> j * 4096 < oldsz} s' ps'"
        by (rule freed_mono) (use ev nn(1) in \<open>auto simp flip: linorder_not_less\<close>)
      ultimately show ?thesis unfolding run by blast
    next
      case (Some t)
      obtain s1 ps1 where s1: "freed d s ps {n} s1 ps1"
          "deallocuvm_loop (Suc fuel) d (n * 4096) oldsz s = deallocuvm_loop fuel d (Suc n * 4096) oldsz s1"
        using dealloc_step [OF Suc.prems(1) n(1) Some True] by blast
      have m: "Suc n \<le> 2 ^ 19" "2 ^ 19 - Suc n < fuel" using n(1) Suc.prems(4) by linarith+
      have v: "vm_ok s1 d ps1" using s1(1) by (simp add: freed_def)
      obtain s' ps' where s': "deallocuvm_loop fuel d (Suc n * 4096) oldsz s1 = Inr ((), s')"
          "freed d s1 ps1 {j. Suc n \<le> j \<and> j * 4096 < oldsz} s' ps'"
        using Suc.IH [OF v Suc.prems(2) m] by blast
      have "{n} \<union> {j. Suc n \<le> j \<and> j * 4096 < oldsz} = {j. n \<le> j \<and> j * 4096 < oldsz}" using True by auto
      then show ?thesis using s1(2) s'(1) freed_trans [OF s1(1) s'(2)] by auto
    qed
  qed
qed simp

lemma roundup_page:
  assumes "x \<le> KERNBASE"
  shows "\<exists>m \<le> 2 ^ 19. PGROUNDUP x = m * 4096 \<and> (\<forall>j. m \<le> j \<longleftrightarrow> x \<le> j * 4096)"
proof -
  define m where "m = (x + 4095) div 4096"
  have "(x + 4095) mod 2 ^ 32 = x + 4095" using assms by simp
  then have "PGROUNDUP x = m * 4096" by (simp add: PGROUNDUP_def m_def)
  moreover have "m \<le> 2 ^ 19" using assms div_le_mono [of "x + 4095" "2 ^ 31 + 4095" 4096] by (simp add: m_def)
  moreover have "m \<le> j \<longleftrightarrow> x \<le> j * 4096" for j
    using div_mult_mod_eq [of "x + 4095" 4096] mod_less_divisor [of 4096 "x + 4095"] unfolding m_def by linarith
  ultimately show ?thesis by blast
qed

lemma deallocuvm_spec:
  assumes "vm_ok s d ps" "newsz < oldsz" "oldsz \<le> KERNBASE"
  shows "\<exists>s' ps'. deallocuvm d oldsz newsz s = Inr (newsz, s') \<and> freed d s ps {j. newsz \<le> j * 4096 \<and> j * 4096 < oldsz} s' ps'"
proof -
  obtain m where m: "m \<le> 2 ^ 19" "PGROUNDUP newsz = m * 4096" "\<forall>j. m \<le> j \<longleftrightarrow> newsz \<le> j * 4096"
    using roundup_page [of newsz] assms(2,3) by auto
  have "2 ^ 19 - m < 2 ^ 21" by simp
  then obtain s' ps' where "deallocuvm_loop (2 ^ 21) d (m * 4096) oldsz s = Inr ((), s')"
      "freed d s ps {j. m \<le> j \<and> j * 4096 < oldsz} s' ps'"
    using dealloc_loop [OF assms(1,3) m(1)] by blast
  then show ?thesis using assms(2) m(2,3) by (auto simp: deallocuvm_def bnd_def)
qed

end
