(* ===== verification/User_Memory.thy ===== *)
theory User_Memory
  imports Address_Space
begin

text \<open>
  User memory (\<open>vm.c\<close>): growing and shrinking it, copying it for \<open>fork\<close>, releasing it and writing to it
  from the kernel.  The properties are about the memory a process sees, \<open>umem_of\<close>, the byte behind a
  virtual address or nothing where no page is mapped.
\<close>

definition umem_of :: "'z kmst_scheme \<Rightarrow> nat \<Rightarrow> nat \<Rightarrow> byte option" where
  "umem_of s d va = map_option (\<lambda>p. pages s p ! (va mod 4096)) (own s d (RUser (va div 4096)))"

section \<open>Building blocks\<close>

lemma vm_ok_kfree:
  assumes "vm_ok s d ps" "page_ok s p" "p \<notin> pool s d ps"
  shows "\<exists>s'. kfree p s = Inr ((), s') \<and> vm_ok s' d (p # ps) \<and> same_pages {p} s s' \<and> own s' d = own s d \<and>
     pte s' d = pte s d \<and> ptab s' d = ptab s d \<and> tabs s' d = tabs s d"
proof -
  obtain s' where s': "kfree p s = Inr ((), s')" "free_pages s' (p # ps)" "kend s' = kend s"
      "\<forall>q. q \<noteq> p \<longrightarrow> pages s' q = pages s q"
    using kfree_spec [OF vm_okD(1) [OF assms(1)] assms(2)] assms(3) by (auto simp: pool_def)
  have "p \<notin> tabs s d" "p \<notin> ran (own s d)" using assms(3) own_tabs [of s d] by (auto simp: pool_def)
  then have v: "ptab s' d = ptab s d" "pte s' d = pte s d" "own s' d = own s d"
    using view_cong [of s d s'] s'(4) by metis+
  have "page_at s' q" if "page_at s q" "q \<noteq> p" for q
    using that s'(4) page_ok_cong [OF s'(3)] by (auto simp: page_at_def)
  then have "dir_ok s' d"
    using vm_okD(2) [OF assms(1)] s'(3) \<open>p \<notin> ran (own s d)\<close> by (auto simp: dir_ok_def v ran_def)
  then have "vm_ok s' d (p # ps)"
    using assms(1) s'(2) \<open>p \<notin> ran (own s d)\<close> by (auto simp: vm_ok_def v)
  then show ?thesis using s'(1,3,4) by (auto simp: same_pages_def v tabs_def)
qed

lemma vm_ok_set_page:
  assumes "vm_ok s d ps" "p \<notin> pool s d ps"
  shows "vm_ok (s\<lparr>pages := (pages s)(p := bs)\<rparr>) d ps" "own (s\<lparr>pages := (pages s)(p := bs)\<rparr>) d = own s d"
    "pte (s\<lparr>pages := (pages s)(p := bs)\<rparr>) d = pte s d" "ptab (s\<lparr>pages := (pages s)(p := bs)\<rparr>) d = ptab s d"
proof -
  let ?s = "s\<lparr>pages := (pages s)(p := bs)\<rparr>"
  have p: "p \<notin> tabs s d" "p \<notin> ran (own s d)" "p \<notin> set ps" using assms(2) own_tabs [of s d] by (auto simp: pool_def)
  then have q: "pages ?s q = pages s q" if "q \<in> tabs s d" for q using that by auto
  show v: "own ?s d = own s d" "pte ?s d = pte s d" "ptab ?s d = ptab s d"
    using view_cong [of s d ?s, OF q] by blast+
  have "page_at ?s q" if "page_at s q" "q \<noteq> p" for q using that by (auto simp: page_at_def)
  then have "dir_ok ?s d" using vm_okD(2) [OF assms(1)] p(2) by (auto simp: dir_ok_def v ran_def)
  then show "vm_ok ?s d ps" using assms(1) p(3) by (auto simp: vm_ok_def v)
qed

lemma vm_ok_cons [simp]:
  fixes s :: "'z consst_scheme"
  shows "vm_ok (s\<lparr>cons_out := x\<rparr>) d ps = vm_ok s d ps" "own (s\<lparr>cons_out := x\<rparr>) d = own s d"
    "pte (s\<lparr>cons_out := x\<rparr>) d = pte s d" "ptab (s\<lparr>cons_out := x\<rparr>) d = ptab s d" "tabs (s\<lparr>cons_out := x\<rparr>) d = tabs s d"
proof -
  let ?s = "s\<lparr>cons_out := x\<rparr>"
  show v: "own ?s d = own s d" "pte ?s d = pte s d" "ptab ?s d = ptab s d" using view_cong [of s d ?s] by simp_all
  then show "tabs ?s d = tabs s d" by (simp add: tabs_def)
  have "page_at ?s = page_at s" "free_pages ?s ps = free_pages s ps"
    by (simp_all add: page_at_def page_ok_def free_pages_def fun_eq_iff)
  then show "vm_ok ?s d ps = vm_ok s d ps" by (simp add: vm_ok_def dir_ok_def v)
qed

lemma cprint_plain:
  assumes "LCons \<notin> held s" "37 \<notin> set (codes fmt)"
  shows "cprint fmt [] s = Inr ((), s\<lparr>cons_out := cons_out s @ codes fmt\<rparr>)"
proof -
  have "37 \<notin> set cs \<Longrightarrow> cprintf cs [] = Inr cs" for cs by (induction cs) auto
  with assms show ?thesis by (cases s) (simp add: cprint_def bnd_def)
qed

lemma alloc_messages: "37 \<notin> set (codes (''allocuvm out of memory'' @ [CHR 0x0A]))" "37 \<notin> set (codes (''allocuvm out of memory (2)'' @ [CHR 0x0A]))"
  by (simp_all add: codes_def)

section \<open>Growing\<close>

text \<open>Pages \<open>n\<close> to \<open>N\<close> have been added, filled with zeros.\<close>

definition grown :: "nat \<Rightarrow> 'z kmst_scheme \<Rightarrow> nat list \<Rightarrow> nat \<Rightarrow> nat \<Rightarrow> 'z kmst_scheme \<Rightarrow> nat list \<Rightarrow> bool" where
  "grown d s ps n N s' ps' \<longleftrightarrow> ext d s ps s' ps' \<and> pool s' d ps' = pool s d ps \<and>
     (\<forall>j. j < n \<or> N \<le> j \<longrightarrow> pte s' d j = pte s d j) \<and>
     (\<forall>j. n \<le> j \<and> j < N \<longrightarrow> odd (pte s' d j) \<and> PTE_FLAGS (pte s' d j) = PTE_W OR PTE_U OR PTE_P \<and>
        pages s' (KERNBASE + PTE_ADDR (pte s' d j)) = replicate PGSIZE 0)"

text \<open>The attempt to add pages with numbers in \<open>N\<close> has been undone.\<close>

definition undone :: "nat \<Rightarrow> 'z kmst_scheme \<Rightarrow> nat list \<Rightarrow> nat set \<Rightarrow> 'z kmst_scheme \<Rightarrow> nat list \<Rightarrow> bool" where
  "undone d s ps N s' ps' \<longleftrightarrow> vm_ok s' d ps' \<and> pool s' d ps' = pool s d ps \<and>
     same_pages (tabs s d \<union> set ps \<union> set ps') s s' \<and>
     (\<forall>j. if j \<in> N then even (pte s' d j) else pte s' d j = pte s d j)"

lemma freed_undone: "freed d s ps N s' ps' \<Longrightarrow> undone d s ps N s' ps'"
  by (auto simp: freed_def undone_def same_pages_def)

lemma ext_undone:
  assumes "ext d s ps s1 ps1" "undone d s1 ps1 N s' ps'" "pool s1 d ps1 = pool s d ps" "\<forall>j. j \<notin> N \<longrightarrow> pte s1 d j = pte s d j"
  shows "undone d s ps N s' ps'"
proof -
  have "same_pages (tabs s d \<union> set ps \<union> set ps') s s1" using assms(1) by (simp add: ext_def same_pages_def)
  moreover have "same_pages (tabs s1 d \<union> set ps1 \<union> set ps') s1 s'" using assms(2) by (simp add: undone_def)
  moreover have "tabs s1 d \<union> set ps1 \<union> set ps' \<subseteq> tabs s d \<union> set ps \<union> set ps'" using assms(1) by (auto simp: ext_def)
  ultimately have "same_pages (tabs s d \<union> set ps \<union> set ps') s s'" by (rule same_pages_trans)
  then show ?thesis using assms(2-4) by (auto simp: undone_def)
qed

lemma dealloc_undo:
  fixes s :: "'z consst_scheme"
  assumes "vm_ok s d ps" "oldsz < newsz" "newsz < KERNBASE" "37 \<notin> set (codes fmt)"
  shows "\<exists>s' ps'. thn (cprint fmt []) (bnd (deallocuvm d newsz oldsz) (\<lambda>_. k)) s = k s' \<and>
     freed d s ps {j. oldsz \<le> j * 4096 \<and> j * 4096 < newsz} s' ps'"
proof -
  let ?s = "s\<lparr>cons_out := cons_out s @ codes fmt\<rparr>"
  have h: "LCons \<notin> held s" using vm_okD(1) [OF assms(1)] by (auto simp: free_pages_def)
  have "vm_ok ?s d ps" using assms(1) by simp
  then obtain s' ps' where s': "deallocuvm d newsz oldsz ?s = Inr (oldsz, s')"
      "freed d ?s ps {j. oldsz \<le> j * 4096 \<and> j * 4096 < newsz} s' ps'"
    using deallocuvm_spec [of ?s d ps oldsz newsz] assms(2,3) by auto
  have "thn (cprint fmt []) (bnd (deallocuvm d newsz oldsz) (\<lambda>_. k)) s = k s'"
    using cprint_plain [OF h assms(4)] s'(1) by (simp add: bnd_def)
  moreover have "freed d s ps {j. oldsz \<le> j * 4096 \<and> j * 4096 < newsz} s' ps'"
    using s'(2) by (simp add: freed_def same_pages_def pool_def)
  ultimately show ?thesis by blast
qed

text \<open>One round of the loop of \<open>allocuvm\<close>.\<close>

lemma take_page:
  assumes "vm_ok s d (p # qs)"
  shows "\<exists>s1. kalloc s = Inr (p, s1) \<and> p \<noteq> 0 \<and> page_ok s p \<and> pages s1 = pages s \<and>
     (\<forall>bs. length bs = PGSIZE \<longrightarrow> (let s2 = s1\<lparr>pages := (pages s1)(p := bs)\<rparr> in
       vm_ok s2 d qs \<and> pte s2 d = pte s d \<and> own s2 d = own s d \<and> tabs s2 d = tabs s d \<and> page_at s2 p \<and> p \<notin> pool s2 d qs \<and>
       pages s2 p = bs \<and> same_pages {p} s s2))"
proof -
  note h = free_head [OF assms]
  obtain s1 where s1: "kalloc s = Inr (p, s1)" "vm_ok s1 d qs" "pages s1 = pages s" "kend s1 = kend s" "own s1 d = own s d"
      "pte s1 d = pte s d" "ptab s1 d = ptab s d"
    using vm_ok_kalloc [OF assms] by auto
  have p: "p \<notin> pool s1 d qs" using h(2,3) s1(5) by (simp add: pool_def)
  have ok: "page_ok s1 p" using h(1) page_ok_cong [OF s1(4)] by simp
  show ?thesis
    using s1 h(1,5) vm_ok_set_page [OF s1(2) p] p ok
    by (intro exI [of _ s1]) (simp add: Let_def page_at_def same_pages_def pool_def tabs_def)
qed

lemma grow_page:
  assumes "vm_ok s d (p # qs)" "n < 2 ^ 19" "even (pte s d n)" "length bs = PGSIZE" "f < 4096"
  shows "\<exists>s1 s2. kalloc s = Inr (p, s1) \<and> p \<noteq> 0 \<and> page_ok s p \<and> pages s1 = pages s \<and> s2 = s1\<lparr>pages := (pages s1)(p := bs)\<rparr> \<and>
    ((\<exists>s'. mappages d (n * 4096) 4096 (p - KERNBASE) f s2 = Inr (-1, s') \<and> qs = [] \<and>
        ext d s [p] s' [] \<and> pte s' d = pte s d \<and> insert p (pool s' d []) = pool s d [p] \<and> p \<notin> pool s' d []) \<or>
     (\<exists>s' ps'. mappages d (n * 4096) 4096 (p - KERNBASE) f s2 = Inr (0, s') \<and>
        ext d s (p # qs) s' ps' \<and> length qs \<le> Suc (length ps') \<and> pool s' d ps' = pool s d (p # qs) \<and>
        pte s' d = (pte s d)(n := (p - KERNBASE) OR f OR PTE_P) \<and> pages s' p = bs))"
proof -
  obtain s1 where s1: "kalloc s = Inr (p, s1)" "p \<noteq> 0" "page_ok s p" "pages s1 = pages s"
    and s2: "let s2 = s1\<lparr>pages := (pages s1)(p := bs)\<rparr> in
       vm_ok s2 d qs \<and> pte s2 d = pte s d \<and> own s2 d = own s d \<and> tabs s2 d = tabs s d \<and> page_at s2 p \<and> p \<notin> pool s2 d qs \<and>
       pages s2 p = bs \<and> same_pages {p} s s2"
    using take_page [OF assms(1)] assms(4) by blast
  define s2 where "s2 = s1\<lparr>pages := (pages s1)(p := bs)\<rparr>"
  have s2: "vm_ok s2 d qs" "pte s2 d = pte s d" "own s2 d = own s d" "tabs s2 d = tabs s d" "page_at s2 p"
      "p \<notin> pool s2 d qs" "pages s2 p = bs" "same_pages {p} s s2"
    using s2 by (simp_all add: s2_def Let_def)
  have e0: "ext d s (p # qs) s' ps'" if "ext d s2 qs s' ps'" for s' ps'
    using that s2(4,8) by (auto simp: ext_def same_pages_def)
  have pool: "insert p (pool s2 d qs) = pool s d (p # qs)" by (simp add: pool_def s2(3))
  have ev: "even (pte s2 d n)" using assms(3) s2(2) by simp
  have pt: "p \<notin> set qs \<union> tabs s2 d" using s2(6) own_tabs [of s2 d] by (auto simp: pool_def)
  from mappages_user [OF s2(1) assms(2) ev s2(5,6) assms(5)]
  show ?thesis
  proof (elim disjE exE conjE)
    fix s' assume m: "mappages d (n * 4096) 4096 (p - KERNBASE) f s2 = Inr (-1, s')" "qs = []" "ext d s2 qs s' []"
      "pte s' d = pte s2 d" "pool s' d [] = pool s2 d qs"
    show ?thesis
      using s1 m e0 [OF m(3)] pool s2(2,6) s2_def by (intro exI [of _ s1] exI [of _ s2]) auto
  next
    fix s' ps' assume m: "mappages d (n * 4096) 4096 (p - KERNBASE) f s2 = Inr (0, s')" "ext d s2 qs s' ps'"
      "length qs \<le> Suc (length ps')" "pte s' d = (pte s2 d)(n := (p - KERNBASE) OR f OR PTE_P)"
      "pool s' d ps' = insert p (pool s2 d qs)"
    have "pages s' p = bs" using m(2) pt s2(7) by (simp add: ext_def same_pages_def)
    then show ?thesis
      using s1 m e0 [OF m(2)] pool s2(2) s2_def by (intro exI [of _ s1] exI [of _ s2]) auto
  qed
qed

lemma own_user: "n < 2 ^ 19 \<Longrightarrow> odd (pte s d n) \<Longrightarrow> own s d (RUser n) = Some (KERNBASE + PTE_ADDR (pte s d n))"
  by simp

lemma user_not_tab: "dir_ok s d \<Longrightarrow> own s d (RUser n) = Some p \<Longrightarrow> p \<notin> tabs s d"
  using dir_okD(2) [of s d "RUser n" p RDir] dir_okD(2) [of s d "RUser n" p "RTab _"]
  by (auto simp: tabs_def ran_def simp del: own.simps(3))

lemma grown_step:
  assumes "ext d s ps s1 ps1" "pool s1 d ps1 = pool s d ps" "pte s1 d = (pte s d)(n := (p - KERNBASE) OR 6 OR PTE_P)"
    and "pages s1 p = replicate PGSIZE 0" "page_ok s p" "grown d s1 ps1 (Suc n) N s' ps'" "n < N" "n < 2 ^ 19"
  shows "grown d s ps n N s' ps'"
proof -
  define w where "w = (p - KERNBASE) OR 6 OR PTE_P"
  note w = entry [of "p - KERNBASE" 6, folded w_def] and p = phys_page [OF assms(5)]
  have w': "PTE_ADDR w = p - KERNBASE" "odd w" "PTE_FLAGS w = 6 OR PTE_P" using w(1-3) p(1) by simp_all
  have n: "pte s1 d n = w" "pte s' d n = w" using assms(3,6) by (simp_all add: w_def grown_def)
  have "own s1 d (RUser n) = Some p" using own_user [OF assms(8), of s1 d] n(1) w'(1,2) p(3) by simp
  then have "p \<notin> set ps1 \<union> tabs s1 d"
    using assms(1) user_not_tab [OF vm_okD(2)] vm_okD(3) unfolding ext_def by blast
  then have "pages s' p = replicate PGSIZE 0" using assms(4,6) by (simp add: grown_def ext_def same_pages_def)
  then have "odd (pte s' d n) \<and> PTE_FLAGS (pte s' d n) = PTE_W OR PTE_U OR PTE_P \<and>
      pages s' (KERNBASE + PTE_ADDR (pte s' d n)) = replicate PGSIZE 0"
    using n(2) w' p(3) by simp
  moreover have "ext d s ps s' ps'" using ext_trans [OF assms(1)] assms(6) by (simp add: grown_def)
  ultimately show ?thesis
    using assms(2,3,6,7) unfolding grown_def by (metis fun_upd_other le_neq_implies_less less_Suc_eq linorder_not_le not_less_eq_eq)
qed

lemma alloc_nomem:
  fixes s :: "'z consst_scheme"
  assumes "vm_ok s d []" "newsz < KERNBASE" "oldsz \<le> n * 4096" "n * 4096 < newsz"
  shows "\<exists>s' ps'. allocuvm_loop d (n * 4096) oldsz newsz s = Inr (0, s') \<and>
     undone d s [] {j. oldsz \<le> j * 4096 \<and> j * 4096 < newsz} s' ps'"
proof -
  have l: "oldsz < newsz" using assms(3,4) by simp
  obtain s1 where s1: "kalloc s = Inr (0, s1)" "vm_ok s1 d []" "pages s1 = pages s" "kend s1 = kend s" "own s1 d = own s d"
      "pte s1 d = pte s d" "ptab s1 d = ptab s d" "tabs s1 d = tabs s d"
    using vm_ok_kalloc [OF assms(1)] by auto
  obtain s' ps' where s': "thn (cprint (''allocuvm out of memory'' @ [CHR 0x0A]) []) (bnd (deallocuvm d newsz oldsz) (\<lambda>_. ret (0 :: nat))) s1 = ret 0 s'"
      "freed d s1 [] {j. oldsz \<le> j * 4096 \<and> j * 4096 < newsz} s' ps'"
    using dealloc_undo [OF s1(2) l assms(2) alloc_messages(1)] by blast
  have "ext d s [] s1 []" "pool s1 d [] = pool s d []"
    using s1 by (auto simp: ext_def same_pages_def pool_def)
  then have "undone d s [] {j. oldsz \<le> j * 4096 \<and> j * 4096 < newsz} s' ps'"
    by (rule ext_undone [OF _ freed_undone [OF s'(2)]]) (simp add: s1(6))
  moreover have "allocuvm_loop d (n * 4096) oldsz newsz s = Inr (0, s')"
    using assms(4) s'(1) s1(1) by (subst allocuvm_loop.simps) (simp add: bnd_def [of kalloc])
  ultimately show ?thesis by blast
qed

lemma alloc_round:
  fixes s :: "'z consst_scheme"
  assumes "vm_ok s d (p # qs)" "n * 4096 < newsz" "newsz < KERNBASE" "even (pte s d n)"
  shows "\<exists>s2. page_ok s p \<and> allocuvm_loop d (n * 4096) oldsz newsz s =
       bnd (mappages d (n * 4096) 4096 (p - KERNBASE) 6) (\<lambda>r.
          if r < 0 then
            thn (cprint (''allocuvm out of memory (2)'' @ [CHR 0x0A]) [])
           (bnd (deallocuvm d newsz oldsz) (\<lambda>_. thn (kfree p) (ret 0)))
          else allocuvm_loop d (Suc n * 4096) oldsz newsz) s2 \<and>
     ((\<exists>s'. mappages d (n * 4096) 4096 (p - KERNBASE) 6 s2 = Inr (-1, s') \<and> qs = [] \<and>
         ext d s [p] s' [] \<and> pte s' d = pte s d \<and> insert p (pool s' d []) = pool s d [p] \<and> p \<notin> pool s' d []) \<or>
      (\<exists>s' ps'. mappages d (n * 4096) 4096 (p - KERNBASE) 6 s2 = Inr (0, s') \<and>
         ext d s (p # qs) s' ps' \<and> length qs \<le> Suc (length ps') \<and> pool s' d ps' = pool s d (p # qs) \<and>
         pte s' d = (pte s d)(n := (p - KERNBASE) OR 6 OR PTE_P) \<and> pages s' p = replicate PGSIZE 0))"
    (is "\<exists>s2. _ \<and> _ = ?R s2 \<and> ?D s2")
proof -
  have n: "n < 2 ^ 19" "(6 :: nat) < 4096" using assms(2,3) by simp_all
  have eq: "Suc n * 4096 = n * 4096 + 4096" by simp
  obtain s1 s2 where s1: "kalloc s = Inr (p, s1)" "p \<noteq> 0" "page_ok s p" "s2 = s1\<lparr>pages := (pages s1)(p := replicate PGSIZE 0)\<rparr>"
      "?D s2"
    using grow_page [OF assms(1) n(1) assms(4) length_replicate [of PGSIZE 0] n(2)] by blast
  have "allocuvm_loop d (n * 4096) oldsz newsz s = ?R s2"
    using s1(1,2,4) assms(2) unfolding eq
    by (subst allocuvm_loop.simps) (simp add: bnd_def [of kalloc] bnd_def [of "V2P _"] set_page_def V2P_page [OF s1(3)])
  with s1 show ?thesis by blast
qed

lemma alloc_unmapped:
  fixes s :: "'z consst_scheme"
  assumes "ext d s [p] s3 []" "pte s3 d = pte s d" "insert p (pool s3 d []) = pool s d [p]" "p \<notin> pool s3 d []"
    and "oldsz < newsz" "newsz < KERNBASE" "page_ok s p"
  shows "\<exists>s' ps'. thn (cprint (''allocuvm out of memory (2)'' @ [CHR 0x0A]) [])
       (bnd (deallocuvm d newsz oldsz) (\<lambda>_. thn (kfree p) (ret (0 :: nat)))) s3 = Inr (0, s') \<and>
     undone d s [p] {j. oldsz \<le> j * 4096 \<and> j * 4096 < newsz} s' ps'"
proof -
  let ?N = "{j. oldsz \<le> j * 4096 \<and> j * 4096 < newsz}"
  have v3: "vm_ok s3 d []" "kend s3 = kend s" using assms(1) by (simp_all add: ext_def same_pages_def)
  obtain s4 ps4 where s4: "thn (cprint (''allocuvm out of memory (2)'' @ [CHR 0x0A]) [])
       (bnd (deallocuvm d newsz oldsz) (\<lambda>_. thn (kfree p) (ret (0 :: nat)))) s3 = thn (kfree p) (ret 0) s4"
      "freed d s3 [] ?N s4 ps4"
    using dealloc_undo [OF v3(1) assms(5,6) alloc_messages(2)] by blast
  have f4: "vm_ok s4 d ps4" "pool s4 d ps4 = pool s3 d []" "kend s4 = kend s3" "same_pages (tabs s3 d \<union> set ps4) s3 s4"
    using s4(2) by (simp_all add: freed_def same_pages_def)
  have p4: "p \<notin> pool s4 d ps4" "page_ok s4 p" using assms(4,7) f4(2,3) v3(2) page_ok_cong [of s4 s] by auto
  obtain s5 where s5: "kfree p s4 = Inr ((), s5)" "vm_ok s5 d (p # ps4)" "same_pages {p} s4 s5" "own s5 d = own s4 d"
      "pte s5 d = pte s4 d"
    using vm_ok_kfree [OF f4(1) p4(2,1)] by blast
  have "same_pages (tabs s d \<union> set [p] \<union> set (p # ps4)) s s5"
    using assms(1) f4(4) s5(3) by (auto simp: ext_def same_pages_def)
  moreover have "pool s5 d (p # ps4) = pool s d [p]"
    using assms(3) f4(2) by (auto simp: pool_def s5(4))
  ultimately have "undone d s [p] ?N s5 (p # ps4)"
    using s4(2) s5(2) assms(2) by (simp add: undone_def freed_def s5(5))
  moreover have "thn (kfree p) (ret (0 :: nat)) s4 = Inr (0, s5)" using s5(1) by (simp add: bnd_def)
  ultimately show ?thesis using s4(1) by auto
qed

lemma allocuvm_loop_spec:
  fixes s :: "'z consst_scheme"
  assumes "vm_ok s d ps" "newsz < KERNBASE" "oldsz \<le> n * 4096" "\<forall>j. j * 4096 < newsz \<longleftrightarrow> j < N"
    and "\<forall>j. n \<le> j \<and> j < N \<longrightarrow> even (pte s d j)"
  shows "(\<exists>s' ps'. allocuvm_loop d (n * 4096) oldsz newsz s = Inr (newsz, s') \<and> grown d s ps n N s' ps') \<or>
    (\<exists>s' ps'. allocuvm_loop d (n * 4096) oldsz newsz s = Inr (0, s') \<and> length ps < 2 * (N - n) \<and>
       undone d s ps {j. oldsz \<le> j * 4096 \<and> j * 4096 < newsz} s' ps')"
  using assms(1,3,5)
proof (induction "N - n" arbitrary: n s ps)
  case 0
  then have "\<not> n * 4096 < newsz" using assms(4) by simp
  then have "allocuvm_loop d (n * 4096) oldsz newsz s = Inr (newsz, s)" by (subst allocuvm_loop.simps) simp
  moreover have "grown d s ps n N s ps" using ext_refl [OF "0.prems"(1)] "0.hyps" by (auto simp: grown_def)
  ultimately show ?case by blast
next
  case (Suc k)
  let ?R = "{j. oldsz \<le> j * 4096 \<and> j * 4096 < newsz}"
  have nN: "n < N" using Suc.hyps(2) by simp
  then have "n * 4096 < newsz" using assms(4) by blast
  with nN have n: "n * 4096 < newsz" "n < N" "n < 2 ^ 19" "oldsz < newsz" "even (pte s d n)" "n \<in> ?R"
    using Suc.prems(2,3) assms(2) by auto
  show ?case
  proof (cases ps)
    case Nil
    then show ?thesis using alloc_nomem [OF _ assms(2) Suc.prems(2) n(1)] Suc.prems(1) n(2) by fastforce
  next
    case (Cons p qs)
    show ?thesis
      using alloc_round [OF Suc.prems(1) [unfolded Cons] n(1) assms(2) n(5), of oldsz]
    proof (elim exE conjE disjE)
      fix s2 s3 ps3 assume r: "allocuvm_loop d (n * 4096) oldsz newsz s = bnd (mappages d (n * 4096) 4096 (p - KERNBASE) 6) (\<lambda>r.
          if r < 0 then thn (cprint (''allocuvm out of memory (2)'' @ [CHR 0x0A]) [])
           (bnd (deallocuvm d newsz oldsz) (\<lambda>_. thn (kfree p) (ret 0)))
          else allocuvm_loop d (Suc n * 4096) oldsz newsz) s2" "page_ok s p"
        and s3: "mappages d (n * 4096) 4096 (p - KERNBASE) 6 s2 = Inr (0, s3)" "ext d s (p # qs) s3 ps3"
        "length qs \<le> Suc (length ps3)" "pool s3 d ps3 = pool s d (p # qs)"
        "pte s3 d = (pte s d)(n := (p - KERNBASE) OR 6 OR PTE_P)" "pages s3 p = replicate PGSIZE 0"
      have r3: "allocuvm_loop d (n * 4096) oldsz newsz s = allocuvm_loop d (Suc n * 4096) oldsz newsz s3"
        using s3(1) unfolding r(1) by (simp add: bnd_def)
      have v: "vm_ok s3 d ps3" "oldsz \<le> Suc n * 4096" "\<forall>j. Suc n \<le> j \<and> j < N \<longrightarrow> even (pte s3 d j)" "k = N - Suc n"
        using s3(2,5) Suc.prems(2,3) Suc.hyps(2) by (auto simp: ext_def)
      from Suc.hyps(1) [OF v(4,1,2,3)] show ?thesis
      proof (elim disjE exE conjE)
        fix s' ps' assume "allocuvm_loop d (Suc n * 4096) oldsz newsz s3 = Inr (newsz, s')" "grown d s3 ps3 (Suc n) N s' ps'"
        then show ?thesis
          using grown_step [OF s3(2,4,5,6) r(2) _ n(2,3)] unfolding r3 Cons by blast
      next
        fix s' ps' assume u: "allocuvm_loop d (Suc n * 4096) oldsz newsz s3 = Inr (0, s')" "length ps3 < 2 * (N - Suc n)"
          "undone d s3 ps3 ?R s' ps'"
        have "undone d s (p # qs) ?R s' ps'"
          by (rule ext_undone [OF s3(2) u(3) s3(4)]) (use n(6) s3(5) in auto)
        moreover have "length (p # qs) < 2 * (N - n)" using u(2) s3(3) n(2) by simp
        ultimately show ?thesis using u(1) unfolding r3 Cons by blast
      qed
    next
      fix s2 s3 assume r: "allocuvm_loop d (n * 4096) oldsz newsz s = bnd (mappages d (n * 4096) 4096 (p - KERNBASE) 6) (\<lambda>r.
          if r < 0 then thn (cprint (''allocuvm out of memory (2)'' @ [CHR 0x0A]) [])
           (bnd (deallocuvm d newsz oldsz) (\<lambda>_. thn (kfree p) (ret 0)))
          else allocuvm_loop d (Suc n * 4096) oldsz newsz) s2" "page_ok s p"
        and s3: "mappages d (n * 4096) 4096 (p - KERNBASE) 6 s2 = Inr (-1, s3)" "qs = []" "ext d s [p] s3 []"
        "pte s3 d = pte s d" "insert p (pool s3 d []) = pool s d [p]" "p \<notin> pool s3 d []"
      obtain s' ps' where "thn (cprint (''allocuvm out of memory (2)'' @ [CHR 0x0A]) [])
           (bnd (deallocuvm d newsz oldsz) (\<lambda>_. thn (kfree p) (ret (0 :: nat)))) s3 = Inr (0, s')" "undone d s [p] ?R s' ps'"
        using alloc_unmapped [OF s3(3-6) n(4) assms(2) r(2)] by blast
      then show ?thesis using s3(1,2) n(2) unfolding r(1) Cons by (auto simp: bnd_def [of "mappages _ _ _ _ _"])
    qed
  qed
qed

section \<open>What the process sees\<close>

lemma umem_same:
  assumes "own s' d (RUser (va div 4096)) = own s d (RUser (va div 4096))"
    and "\<And>p. own s d (RUser (va div 4096)) = Some p \<Longrightarrow> pages s' p = pages s p"
  shows "umem_of s' d va = umem_of s d va"
  using assms by (cases "own s d (RUser (va div 4096))") (simp_all add: umem_of_def)

lemma umem_undone:
  assumes "undone d s ps N s' ps'" "vm_ok s d ps" "\<forall>j \<in> N. even (pte s d j)"
  shows "umem_of s' d = umem_of s d"
proof
  fix va :: nat
  let ?j = "va div 4096"
  have o: "own s' d (RUser ?j) = own s d (RUser ?j)" using assms(1,3) by (cases "?j \<in> N") (auto simp: undone_def)
  moreover have "pages s' p = pages s p" if "own s d (RUser ?j) = Some p" for p
    using assms(1) that user_not_tab [OF vm_okD(2) [OF assms(2)] that] vm_okD(3) [OF assms(2) that]
      vm_okD(3) [of s' d ps' "RUser ?j" p] o by (auto simp: undone_def same_pages_def)
  ultimately show "umem_of s' d va = umem_of s d va" by (rule umem_same)
qed

lemma umem_freed:
  assumes "freed d s ps N s' ps'" "vm_ok s d ps"
  shows "umem_of s' d = (\<lambda>va. if va div 4096 \<in> N then None else umem_of s d va)"
proof
  fix va :: nat
  let ?j = "va div 4096"
  show "umem_of s' d va = (if ?j \<in> N then None else umem_of s d va)"
  proof (cases "?j \<in> N")
    case True
    then show ?thesis using assms(1) by (simp add: umem_of_def freed_def)
  next
    case False
    then have o: "own s' d (RUser ?j) = own s d (RUser ?j)" using assms(1) by (simp add: freed_def)
    moreover have "pages s' p = pages s p" if "own s d (RUser ?j) = Some p" for p
      using assms(1) that user_not_tab [OF vm_okD(2) [OF assms(2)] that]
        vm_okD(3) [of s' d ps' "RUser ?j" p] o by (auto simp: freed_def same_pages_def)
    ultimately show ?thesis using False umem_same by metis
  qed
qed

lemma umem_grown:
  assumes "grown d s ps n N s' ps'" "vm_ok s d ps" "N \<le> 2 ^ 19"
  shows "umem_of s' d = (\<lambda>va. if n * 4096 \<le> va \<and> va < N * 4096 then Some 0 else umem_of s d va)"
proof
  fix va :: nat
  let ?j = "va div 4096"
  have j: "n * 4096 \<le> va \<longleftrightarrow> n \<le> ?j" "va < N * 4096 \<longleftrightarrow> ?j < N"
    by (simp_all add: less_eq_div_iff_mult_less_eq div_less_iff_less_mult)
  show "umem_of s' d va = (if n * 4096 \<le> va \<and> va < N * 4096 then Some 0 else umem_of s d va)"
  proof (cases "n \<le> ?j \<and> ?j < N")
    case True
    then have "odd (pte s' d ?j)" "pages s' (KERNBASE + PTE_ADDR (pte s' d ?j)) = replicate PGSIZE 0"
      using assms(1) by (auto simp: grown_def)
    with True show ?thesis using assms(3) by (simp add: j umem_of_def)
  next
    case False
    then have o: "own s' d (RUser ?j) = own s d (RUser ?j)" using assms(1) by (auto simp: grown_def)
    moreover have "pages s' p = pages s p" if "own s d (RUser ?j) = Some p" for p
      using assms(1) that user_not_tab [OF vm_okD(2) [OF assms(2)] that] vm_okD(3) [OF assms(2) that]
      by (auto simp: grown_def ext_def same_pages_def)
    ultimately show ?thesis using False j umem_same by metis
  qed
qed

section \<open>An empty directory\<close>

lemma fresh_view:
  assumes "pages s d = replicate PGSIZE 0"
  shows "ptab s d i = None" "pte s d n = 0" "own s d r = (if r = RDir then Some d else None)" "umem_of s d va = None"
proof -
  show t: "ptab s d i = None" for i by (simp add: ptab_def pte_at_zero [OF assms])
  then show p: "pte s d n = 0" for n by (simp add: pte_def)
  show o: "own s d r = (if r = RDir then Some d else None)" for r by (cases r) (simp_all add: t p)
  show "umem_of s d va = None" by (simp add: umem_of_def p)
qed

lemma fresh_vm_ok:
  assumes "pages s d = replicate PGSIZE 0" "free_pages s ps" "KERNBASE < kend s" "page_ok s d" "d \<notin> set ps"
  shows "vm_ok s d ps" "pool s d ps = insert d (set ps)"
proof -
  note o = fresh_view(3) [OF assms(1)]
  have r: "ran (own s d) = {d}" by (auto simp: o ran_def)
  have "dir_ok s d" using assms by (auto simp: dir_ok_def o page_at_def split: if_splits)
  then show "vm_ok s d ps" using assms(2,5) by (auto simp: vm_ok_def r)
  show "pool s d ps = insert d (set ps)" by (auto simp: pool_def r)
qed

section \<open>Properties\<close>

text \<open>C15: Growing a process.  \<open>allocuvm\<close> either gives the process zeroed memory from the old size, rounded up, to
  the new size, rounded up, and changes no other byte it sees, or it returns 0 and leaves its memory as it
  was; it can only fail if fewer than two free pages are left for each page it has to add.  In both cases
  no page is lost and none is used twice.\<close>

theorem allocuvm_grows:
  fixes s :: "'z consst_scheme"
  assumes "vm_ok s d ps" "oldsz \<le> newsz" "newsz < KERNBASE"
    and "\<forall>va. PGROUNDUP oldsz \<le> va \<and> va < PGROUNDUP newsz \<longrightarrow> umem_of s d va = None"
  shows "\<exists>r s' ps'. allocuvm d oldsz newsz s = Inr (r, s') \<and> vm_ok s' d ps' \<and> pool s' d ps' = pool s d ps \<and>
     (r = newsz \<and>
        umem_of s' d = (\<lambda>va. if PGROUNDUP oldsz \<le> va \<and> va < PGROUNDUP newsz then Some 0 else umem_of s d va) \<or>
      r = 0 \<and> umem_of s' d = umem_of s d \<and> length ps < 2 * ((PGROUNDUP newsz - PGROUNDUP oldsz) div PGSIZE))"
proof -
  obtain n where n: "PGROUNDUP oldsz = n * 4096" "\<And>j. n \<le> j \<longleftrightarrow> oldsz \<le> j * 4096"
    using roundup_page [of oldsz] assms(2,3) by auto
  obtain N where N: "N \<le> 2 ^ 19" "PGROUNDUP newsz = N * 4096" "\<And>j. N \<le> j \<longleftrightarrow> newsz \<le> j * 4096"
    using roundup_page [of newsz] assms(3) by auto
  have ev: "even (pte s d j)" if "n \<le> j" "j < N" for j
  proof (rule ccontr)
    assume "odd (pte s d j)"
    then have "umem_of s d (j * 4096) \<noteq> None" using that N(1) by (simp add: umem_of_def)
    then show False using assms(4) that n(1) N(2) by simp
  qed
  have run: "allocuvm d oldsz newsz s = allocuvm_loop d (n * 4096) oldsz newsz s"
    using assms(2,3) n(1) by (simp add: allocuvm_def)
  have N': "\<forall>j. j * 4096 < newsz \<longleftrightarrow> j < N" using N(3) by (metis linorder_not_less)
  have len: "(PGROUNDUP newsz - PGROUNDUP oldsz) div PGSIZE = N - n" unfolding n(1) N(2) by (simp flip: diff_mult_distrib)
  have n': "oldsz \<le> n * 4096" using n(2) [of n] by simp
  have ev': "\<forall>j. n \<le> j \<and> j < N \<longrightarrow> even (pte s d j)" using ev by blast
  from allocuvm_loop_spec [OF assms(1,3) n' N' ev'] show ?thesis
  proof (elim disjE exE conjE)
    fix s' ps' assume g: "allocuvm_loop d (n * 4096) oldsz newsz s = Inr (newsz, s')" "grown d s ps n N s' ps'"
    show ?thesis
      using g umem_grown [OF g(2) assms(1) N(1)] unfolding run n(1) N(2)
      by (intro exI [of _ newsz] exI [of _ s'] exI [of _ ps']) (simp add: grown_def ext_def)
  next
    fix s' ps' assume u: "allocuvm_loop d (n * 4096) oldsz newsz s = Inr (0, s')" "length ps < 2 * (N - n)"
      "undone d s ps {j. oldsz \<le> j * 4096 \<and> j * 4096 < newsz} s' ps'"
    have "umem_of s' d = umem_of s d" using ev N' n(2) by (intro umem_undone [OF u(3) assms(1)]) auto
    then show ?thesis
      using u unfolding run len by (intro exI [of _ 0] exI [of _ s'] exI [of _ ps']) (simp add: undone_def)
  qed
qed

definition sample_vm :: consst where
  "sample_vm = sample_console\<lparr>kend := 0x80100000, kfreelist := 0x80102000,
     pages := (\<lambda>_. [])(0x80101000 := replicate PGSIZE 0,
       0x80102000 := put32 0x80103000 @ replicate (PGSIZE - 4) 1, 0x80103000 := put32 0 @ replicate (PGSIZE - 4) 1)\<rparr>"

lemma sample_vm_ok: "vm_ok sample_vm 0x80101000 [0x80102000, 0x80103000]" "umem_of sample_vm 0x80101000 va = None"
proof -
  have z: "pages sample_vm 0x80101000 = replicate PGSIZE 0" by (simp add: sample_vm_def)
  have "free_pages sample_vm [0x80102000, 0x80103000]"
    by (simp add: sample_vm_def sample_console_def free_pages_def page_ok_def slice_def)
  then show "vm_ok sample_vm 0x80101000 [0x80102000, 0x80103000]"
    by (intro fresh_vm_ok z) (simp_all add: sample_vm_def page_ok_def)
  show "umem_of sample_vm 0x80101000 va = None" by (rule fresh_view(4) [OF z])
qed

theorem allocuvm_grows_witness:
  "\<exists>s'. allocuvm 0x80101000 0 5 sample_vm = Inr (5, s') \<and>
     umem_of s' 0x80101000 = (\<lambda>va. if va < 4096 then Some 0 else None)"
proof -
  have r: "PGROUNDUP 0 = 0" "PGROUNDUP 5 = 4096" by (simp_all add: PGROUNDUP_def)
  show ?thesis
    using allocuvm_grows [OF sample_vm_ok(1), of 0 5] by (auto simp: r sample_vm_ok(2) cong: if_cong)
qed

end
