(* ===== verification/Kernel_Map.thy ===== *)
theory Kernel_Map
  imports User_Memory
begin

text \<open>
  Creating and destroying page directories (\<open>vm.c\<close>): \<open>setupkvm\<close> maps the kernel into the upper half of an
  empty directory, \<open>freevm\<close> gives every page of a directory back to the allocator.
\<close>

section \<open>Releasing a directory\<close>

lemma freevm_loop_spec:
  assumes "free_pages s ps" "distinct is" "\<forall>i \<in> set is. \<forall>t. ptab s d i = Some t \<longrightarrow> page_ok s t \<and> t \<notin> set ps \<and> t \<noteq> d"
    and "\<forall>i j t. ptab s d i = Some t \<longrightarrow> ptab s d j = Some t \<longrightarrow> i = j" "\<forall>i \<in> set is. i < 1024"
  shows "\<exists>s' ps'. freevm_loop d is s = Inr ((), s') \<and> free_pages s' ps' \<and>
     set ps' = {t. \<exists>i \<in> set is. ptab s d i = Some t} \<union> set ps \<and> same_pages {t. \<exists>i \<in> set is. ptab s d i = Some t} s s'"
  using assms
proof (induction "is" arbitrary: s ps)
  case Nil
  then show ?case by (auto simp: same_pages_def)
next
  case (Cons i "is")
  have i: "i < 1024" using Cons.prems(5) by simp
  show ?case
  proof (cases "ptab s d i")
    case None
    then have "even (pte_at d i s)" using i by (simp add: ptab_def split: if_splits)
    then have "freevm_loop d (i # is) s = freevm_loop d is s" by (simp add: bnd_def)
    moreover have "{t. \<exists>j \<in> set (i # is). ptab s d j = Some t} = {t. \<exists>j \<in> set is. ptab s d j = Some t}" using None by auto
    ultimately show ?thesis using Cons.IH [of s ps] Cons.prems by simp
  next
    case (Some t)
    then have w: "odd (pte_at d i s)" "t = KERNBASE + PTE_ADDR (pte_at d i s)" by (simp_all add: ptab_def split: if_splits)
    have t: "page_ok s t" "t \<notin> set ps" "t \<noteq> d" using Cons.prems(3) Some by auto
    obtain s1 where s1: "kfree t s = Inr ((), s1)" "free_pages s1 (t # ps)" "kend s1 = kend s" "\<forall>q. q \<noteq> t \<longrightarrow> pages s1 q = pages s q"
      using kfree_spec [OF Cons.prems(1) t(1,2)] by blast
    have run: "freevm_loop d (i # is) s = freevm_loop d is s1"
      using w s1(1) t(1) by (simp add: bnd_def P2V_page [of s])
    have "pte_at d j s1 = pte_at d j s" for j using s1(4) t(3) by (intro pte_at_cong) auto
    then have pt: "ptab s1 d = ptab s d" by (simp add: ptab_def fun_eq_iff)
    have "t' \<noteq> t" if "j \<in> set is" "ptab s d j = Some t'" for j t'
      using that Some Cons.prems(2,4) by (metis distinct.simps(2))
    then have "\<forall>j \<in> set is. \<forall>t'. ptab s1 d j = Some t' \<longrightarrow> page_ok s1 t' \<and> t' \<notin> set (t # ps) \<and> t' \<noteq> d"
      using Cons.prems(3) page_ok_cong [OF s1(3)] by (auto simp: pt)
    then obtain s' ps' where "freevm_loop d is s1 = Inr ((), s')" "free_pages s' ps'"
        "set ps' = {t. \<exists>j \<in> set is. ptab s d j = Some t} \<union> set (t # ps)" "same_pages {t. \<exists>j \<in> set is. ptab s d j = Some t} s1 s'"
      using Cons.IH [OF s1(2)] Cons.prems(2,4,5) by (auto simp: pt)
    moreover have "{t. \<exists>j \<in> set (i # is). ptab s d j = Some t} = insert t {t. \<exists>j \<in> set is. ptab s d j = Some t}" using Some by auto
    ultimately show ?thesis using s1(3,4) unfolding run
      by (intro exI [of _ s'] exI [of _ ps']) (auto simp: same_pages_def)
  qed
qed

lemma freevm_spec:
  assumes "vm_ok s d ps"
  shows "\<exists>s' ps'. freevm d s = Inr ((), s') \<and> free_pages s' ps' \<and> set ps' = pool s d ps \<and> same_pages (pool s d ps) s s'"
proof -
  obtain s1 ps1 where s1: "deallocuvm d KERNBASE 0 s = Inr (0, s1)" "freed d s ps {j. 0 \<le> j * 4096 \<and> j * 4096 < KERNBASE} s1 ps1"
    using deallocuvm_spec [OF assms, of 0 KERNBASE] by auto
  have v1: "vm_ok s1 d ps1" "pool s1 d ps1 = pool s d ps" "ptab s1 d = ptab s d" "same_pages (tabs s d \<union> set ps1) s s1"
    using s1(2) by (simp_all add: freed_def)
  note D = vm_okD(2) [OF v1(1)]
  have nu: "own s1 d (RUser n) = None" for n using s1(2) by (simp add: freed_def)
  have r1: "ran (own s1 d) = tabs s1 d"
  proof
    show "ran (own s1 d) \<subseteq> tabs s1 d"
    proof
      fix p assume "p \<in> ran (own s1 d)"
      then obtain r where "own s1 d r = Some p" by (auto simp: ran_def)
      then show "p \<in> tabs s1 d" using nu by (cases r) (auto simp: tabs_def ran_def simp del: own.simps(3))
    qed
  qed (rule own_tabs)
  let ?T = "ran (ptab s1 d)"
  have "\<forall>i j t. ptab s1 d i = Some t \<longrightarrow> ptab s1 d j = Some t \<longrightarrow> i = j" using dir_ok_tab(3) [OF D] by metis
  moreover have "\<forall>i \<in> set [0..<1024]. \<forall>t. ptab s1 d i = Some t \<longrightarrow> page_ok s1 t \<and> t \<notin> set ps1 \<and> t \<noteq> d"
    using vm_ok_tab [OF v1(1)] dir_ok_tab(2) [OF D] by (auto simp: page_at_def simp del: upt_rec_numeral)
  moreover have "{t. \<exists>i \<in> set [0..<1024]. ptab s1 d i = Some t} = ?T"
    using ptab_range [of s1 d] by (auto simp: ran_def simp del: upt_rec_numeral)
  ultimately obtain s2 ps2 where s2: "freevm_loop d [0..<1024] s1 = Inr ((), s2)" "free_pages s2 ps2" "set ps2 = ?T \<union> set ps1"
      "same_pages ?T s1 s2"
    using freevm_loop_spec [OF vm_okD(1) [OF v1(1)], of "[0..<1024]" d] by (auto simp del: upt_rec_numeral)
  have d: "page_ok s d" "d \<notin> ?T" "d \<notin> set ps1" "d \<noteq> 0"
    using vm_ok_dir [OF v1(1)] vm_ok_dir [OF assms] dir_ok_tab(2) [OF D] phys_page(4) by (auto simp: page_at_def ran_def)
  have "page_ok s2 d" using d(1) page_ok_cong [of s2 s] v1(4) s2(4) by (simp add: same_pages_def)
  moreover have "d \<notin> set ps2" using d(2,3) s2(3) by simp
  ultimately obtain s3 where s3: "kfree d s2 = Inr ((), s3)" "free_pages s3 (d # ps2)" "kend s3 = kend s2" "\<forall>q. q \<noteq> d \<longrightarrow> pages s3 q = pages s2 q"
    using kfree_spec [OF s2(2)] by blast
  have P: "pool s d ps = set ps1 \<union> tabs s1 d" using v1(2) r1 by (simp add: pool_def)
  have "set (d # ps2) = pool s d ps" using s2(3) v1(2) r1 by (auto simp: pool_def tabs_def)
  moreover have "tabs s d \<union> set ps1 \<subseteq> pool s d ps" "?T \<subseteq> pool s d ps" "d \<in> pool s d ps"
    by (auto simp: P tabs_def v1(3))
  then have "same_pages (pool s d ps) s s3" using v1(4) s2(4) s3(3,4) unfolding same_pages_def by (metis subsetD)
  moreover have "freevm d s = Inr ((), s3)" using s1(1) s2(1) s3(1) d(4) by (simp add: freevm_def bnd_def del: upt_rec_numeral)
  ultimately show ?thesis using s3(2) by blast
qed

section \<open>Mapping the kernel\<close>

abbreviation ksize :: "kmap \<Rightarrow> nat" where
  "ksize k \<equiv> (k_phys_end k + 2 ^ 32 - k_phys_start k) mod 2 ^ 32"

definition kpages :: "kmap \<Rightarrow> nat set" where
  "kpages k = {k_virt k div 4096 ..< k_virt k div 4096 + ksize k div 4096}"

definition kentry :: "kmap \<Rightarrow> nat \<Rightarrow> nat" where
  "kentry k j = (k_phys_start k + (j - k_virt k div 4096) * 4096) mod 2 ^ 32 OR k_perm k OR PTE_P"

definition kmap_ok :: "kmap \<Rightarrow> bool" where
  "kmap_ok k \<longleftrightarrow> k_virt k mod 4096 = 0 \<and> k_phys_start k mod 4096 = 0 \<and> k_phys_start k < 2 ^ 32 \<and> ksize k mod 4096 = 0 \<and>
     0 < ksize k \<and> k_perm k < 4096 \<and> 2 ^ 19 \<le> k_virt k div 4096 \<and> k_virt k div 4096 + ksize k div 4096 \<le> 2 ^ 20"

lemma mappages_kernel:
  assumes "vm_ok s d ps" "kmap_ok k" "\<forall>j \<in> kpages k. even (pte s d j)"
  shows "\<exists>r s' ps'. mappages d (k_virt k) (ksize k) (k_phys_start k) (k_perm k) s = Inr (r, s') \<and> ext d s ps s' ps' \<and>
     pool s' d ps' = pool s d ps \<and> (\<forall>j. j \<notin> kpages k \<longrightarrow> pte s' d j = pte s d j) \<and>
     (r = 0 \<and> (\<forall>j \<in> kpages k. pte s' d j = kentry k j) \<or> r = -1 \<and> ps' = [])"
proof -
  define n m where "n = k_virt k div 4096" and "m = ksize k div 4096 - 1"
  have v: "k_virt k = n * 4096" using assms(2) by (auto simp: kmap_ok_def n_def)
  have pos: "0 < ksize k div 4096" using assms(2) by (auto simp: kmap_ok_def div_greater_zero_iff dvd_imp_le)
  then have z: "ksize k = (m + 1) * 4096" "ksize k div 4096 = m + 1" using assms(2) by (auto simp: kmap_ok_def m_def)
  have b: "n + m < 2 ^ 20" "2 ^ 19 \<le> n" using assms(2) z(2) by (auto simp: kmap_ok_def n_def)
  have P: "kpages k = {n..n + m}" using z(2) by (auto simp: kpages_def n_def)
  have fu: "m < Suc (2 ^ 20 - 1)" using b by simp
  have ev: "\<forall>j. n \<le> j \<and> j \<le> n + m \<longrightarrow> even (pte s d j)" using assms(3) P by auto
  have ph: "k_phys_start k mod 4096 = 0" "k_phys_start k < 2 ^ 32" "k_perm k < 4096" using assms(2) by (simp_all add: kmap_ok_def)
  obtain r s' ps' where r:
      "mappages_loop (Suc (2 ^ 20 - 1)) d (n * 4096) ((n + m) * 4096) (k_phys_start k) (k_perm k) s = Inr (r, s')" "ext d s ps s' ps'"
      "pool s' d ps' = pool s d ps" "\<forall>j. j < n \<or> n + m < j \<longrightarrow> pte s' d j = pte s d j"
      "r = 0 \<and> (\<forall>i \<le> m. pte s' d (n + i) = (k_phys_start k + i * 4096) mod 2 ^ 32 OR k_perm k OR PTE_P) \<or> r = -1 \<and> ps' = []"
    using mappages_kernel_loop [OF assms(1) b(2,1) ev ph fu] by blast
  have "pte s' d j = kentry k j" if "r = 0" "j \<in> kpages k" for j
  proof -
    have "j = n + (j - n)" "j - n \<le> m" using that(2) by (auto simp: P)
    moreover have "pte s' d (n + (j - n)) = (k_phys_start k + (j - n) * 4096) mod 2 ^ 32 OR k_perm k OR PTE_P"
      using r(5) that(1) calculation(2) by auto
    ultimately show ?thesis unfolding kentry_def n_def [symmetric] by metis
  qed
  moreover have "mappages d (k_virt k) (ksize k) (k_phys_start k) (k_perm k) s = Inr (r, s')"
    using r(1) unfolding v z(1) mappages_last [OF b(1)] .
  ultimately show ?thesis using r(2-5) P by (intro exI [of _ r] exI [of _ s'] exI [of _ ps']) auto
qed

lemma user_card:
  assumes "\<forall>j. N \<le> j \<and> j < 2 ^ 19 \<longrightarrow> even (pte s d j)"
  shows "card (ran (own s d)) \<le> 1025 + N"
proof -
  let ?f = "the \<circ> own s d"
  have "ran (own s d) \<subseteq> insert d (?f ` (RTab ` {..<1024} \<union> RUser ` {..<N}))"
  proof
    fix p assume "p \<in> ran (own s d)"
    then obtain r where r: "own s d r = Some p" by (auto simp: ran_def)
    show "p \<in> insert d (?f ` (RTab ` {..<1024} \<union> RUser ` {..<N}))"
    proof (cases r)
      case (RTab i)
      then have "r \<in> RTab ` {..<1024}" using r by (auto dest: ptab_range)
      moreover have "p = ?f r" using r by simp
      ultimately show ?thesis by blast
    next
      case (RUser j)
      then have "odd (pte s d j)" "j < 2 ^ 19" using r by (auto split: if_splits)
      then have "j < N" using assms by (meson linorder_not_le)
      then have "r \<in> RUser ` {..<N}" using RUser by simp
      moreover have "p = ?f r" using r by simp
      ultimately show ?thesis by blast
    qed (use r in simp)
  qed
  then have "card (ran (own s d)) \<le> card (insert d (?f ` (RTab ` {..<1024} \<union> RUser ` {..<N})))" by (intro card_mono) auto
  also have "\<dots> \<le> Suc (card (?f ` (RTab ` {..<1024} \<union> RUser ` {..<N})))" by (simp add: card_insert_if)
  also have "\<dots> \<le> Suc (card (RTab ` {..<1024} \<union> RUser ` {..<N}))" by (simp add: card_image_le)
  also have "\<dots> \<le> Suc (card (RTab ` {..<1024::nat}) + card (RUser ` {..<N}))" using card_Un_le by simp
  also have "\<dots> \<le> Suc (1024 + N)"
    using card_image_le [of "{..<1024::nat}" RTab] card_image_le [of "{..<N}" RUser] by simp
  finally show ?thesis by simp
qed

lemma setupkvm_loop_spec:
  assumes "vm_ok s d ps" "\<forall>k \<in> set ks. kmap_ok k \<and> (\<forall>j \<in> kpages k. even (pte s d j))"
    and "sorted_wrt (\<lambda>k k'. kpages k \<inter> kpages k' = {}) ks" "\<forall>j < 2 ^ 19. even (pte s d j)" "d \<noteq> 0"
  shows "(\<exists>s' ps'. setupkvm_loop d ks s = Inr (d, s') \<and> ext d s ps s' ps' \<and> pool s' d ps' = pool s d ps \<and>
        (\<forall>j. (\<forall>k \<in> set ks. j \<notin> kpages k) \<longrightarrow> pte s' d j = pte s d j) \<and>
        (\<forall>k \<in> set ks. \<forall>j \<in> kpages k. pte s' d j = kentry k j)) \<or>
     (\<exists>s' ps'. setupkvm_loop d ks s = Inr (0, s') \<and> free_pages s' ps' \<and> set ps' = pool s d ps \<and>
        same_pages (pool s d ps) s s' \<and> card (pool s d ps) \<le> 1025)"
  using assms(1-4)
proof (induction ks arbitrary: s ps)
  case Nil
  then show ?case using ext_refl [OF Nil.prems(1)] by (intro disjI1 exI [of _ s] exI [of _ ps]) simp
next
  case (Cons k ks)
  have k: "kmap_ok k" "\<forall>j \<in> kpages k. even (pte s d j)" using Cons.prems(2) by simp_all
  obtain r s1 ps1 where r: "mappages d (k_virt k) (ksize k) (k_phys_start k) (k_perm k) s = Inr (r, s1)" "ext d s ps s1 ps1"
      "pool s1 d ps1 = pool s d ps" "\<forall>j. j \<notin> kpages k \<longrightarrow> pte s1 d j = pte s d j"
      "r = 0 \<and> (\<forall>j \<in> kpages k. pte s1 d j = kentry k j) \<or> r = -1 \<and> ps1 = []"
    using mappages_kernel [OF Cons.prems(1) k] by blast
  have v1: "vm_ok s1 d ps1" using r(2) by (simp add: ext_def)
  have u1: "\<forall>j < 2 ^ 19. even (pte s1 d j)" using Cons.prems(4) r(4) k(1) by (auto simp: kpages_def kmap_ok_def)
  from r(5) show ?case
  proof (elim disjE conjE)
    assume r0: "r = 0" "\<forall>j \<in> kpages k. pte s1 d j = kentry k j"
    have nd: "j \<notin> kpages k" if "k' \<in> set ks" "j \<in> kpages k'" for j k'
      using Cons.prems(3) that by (auto simp: disjoint_iff)
    then have "pte s1 d j = pte s d j" if "k' \<in> set ks" "j \<in> kpages k'" for j k' using r(4) that by blast
    then have e: "\<forall>k' \<in> set ks. kmap_ok k' \<and> (\<forall>j \<in> kpages k'. even (pte s1 d j))"
      using Cons.prems(2) by simp
    have run: "setupkvm_loop d (k # ks) s = setupkvm_loop d ks s1" using r(1) r0(1) by (simp add: bnd_def)
    have w: "sorted_wrt (\<lambda>k k'. kpages k \<inter> kpages k' = {}) ks" using Cons.prems(3) by simp
    from Cons.IH [OF v1 e w u1] show ?thesis
    proof (elim disjE exE conjE)
      fix s' ps' assume g: "setupkvm_loop d ks s1 = Inr (d, s')" "ext d s1 ps1 s' ps'" "pool s' d ps' = pool s1 d ps1"
        "\<forall>j. (\<forall>k \<in> set ks. j \<notin> kpages k) \<longrightarrow> pte s' d j = pte s1 d j" "\<forall>k \<in> set ks. \<forall>j \<in> kpages k. pte s' d j = kentry k j"
      have "\<forall>j \<in> kpages k. pte s' d j = kentry k j" using g(4) r0(2) nd by metis
      then show ?thesis using g r(3,4) ext_trans [OF r(2) g(2)] unfolding run
        by (intro disjI1 exI [of _ s'] exI [of _ ps']) auto
    next
      fix s' ps' assume g: "setupkvm_loop d ks s1 = Inr (0, s')" "free_pages s' ps'" "set ps' = pool s1 d ps1"
        "same_pages (pool s1 d ps1) s1 s'" "card (pool s1 d ps1) \<le> 1025"
      have "same_pages (pool s d ps) s s1" using r(2) own_tabs [of s d] by (auto simp: ext_def same_pages_def pool_def)
      then have "same_pages (pool s d ps) s s'" using g(4) r(3) same_pages_trans by blast
      then show ?thesis using g r(3) unfolding run by (intro disjI2 exI [of _ s'] exI [of _ ps']) auto
    qed
  next
    assume r1: "r = -1" "ps1 = []"
    obtain s' ps' where f: "freevm d s1 = Inr ((), s')" "free_pages s' ps'" "set ps' = pool s1 d ps1" "same_pages (pool s1 d ps1) s1 s'"
      using freevm_spec [OF v1] by blast
    have "same_pages (pool s d ps) s s1" using r(2) own_tabs [of s d] by (auto simp: ext_def same_pages_def pool_def)
    then have sp: "same_pages (pool s d ps) s s'" using f(4) r(3) same_pages_trans by blast
    have "card (pool s d ps) \<le> 1025"
      using r(3) r1(2) user_card [of 0 s1 d] u1 by (simp add: pool_def)
    moreover have "setupkvm_loop d (k # ks) s = Inr (0, s')" using r(1) r1(1) f(1) by (simp add: bnd_def)
    ultimately show ?thesis using f r(3) sp by (intro disjI2 exI [of _ s'] exI [of _ ps']) auto
  qed
qed

text \<open>What the linker script promises of \<open>data\<close>: it starts a page behind the kernel's text.\<close>

definition data_ok :: "nat \<Rightarrow> bool" where
  "data_ok kdata \<longleftrightarrow> kdata mod PGSIZE = 0 \<and> KERNLINK < kdata \<and> kdata < KERNBASE + PHYSTOP"

lemma kmaps_pages:
  assumes "0x80100 < q" "q < 0x8E000"
  shows "map kpages (kmaps (q * 4096)) = [{0x80000..<0x80100}, {0x80100..<q}, {q..<0x8E000}, {0xFE000..<0x100000}]"
    "\<forall>k \<in> set (kmaps (q * 4096)). kmap_ok k"
    "\<forall>k \<in> set (kmaps (q * 4096)). (k_perm k = 0 \<or> k_perm k = 2) \<and> k_phys_start k + ksize k \<le> 2 ^ 32"
proof -
  have m: "a mod 2 ^ 32 = x" if "a = x + 2 ^ 32" "x < 2 ^ 32" for a x :: nat
    using that by (simp only: mod_add_self2 mod_less)
  have z: "(q * 4096 - KERNBASE + 2 ^ 32 - (KERNLINK - KERNBASE)) mod 2 ^ 32 = (q - 0x80100) * 4096"
    "(PHYSTOP + 2 ^ 32 - (q * 4096 - KERNBASE)) mod 2 ^ 32 = (0x8E000 - q) * 4096"
    by (rule m; use assms in \<open>simp add: algebra_simps\<close>)+
  show "map kpages (kmaps (q * 4096)) = [{0x80000..<0x80100}, {0x80100..<q}, {q..<0x8E000}, {0xFE000..<0x100000}]"
    using assms unfolding kmaps_def kpages_def list.map kmap.simps z by simp
  show "\<forall>k \<in> set (kmaps (q * 4096)). kmap_ok k"
    using assms unfolding kmaps_def kmap_ok_def list.set ball_simps kmap.simps z by simp
  show "\<forall>k \<in> set (kmaps (q * 4096)). (k_perm k = 0 \<or> k_perm k = 2) \<and> k_phys_start k + ksize k \<le> 2 ^ 32"
    using assms unfolding kmaps_def list.set ball_simps kmap.simps z by (simp; linarith)
qed

lemma setupkvm_spec:
  assumes "free_pages s ps" "KERNBASE < kend s" "data_ok kdata"
  shows "(\<exists>d s' ps'. setupkvm kdata s = Inr (d, s') \<and> d \<noteq> 0 \<and> d \<in> set ps \<and> vm_ok s' d ps' \<and> pool s' d ps' = set ps \<and>
        same_pages (set ps) s s' \<and> (\<forall>j. (\<forall>k \<in> set (kmaps kdata). j \<notin> kpages k) \<longrightarrow> pte s' d j = 0) \<and>
        (\<forall>k \<in> set (kmaps kdata). \<forall>j \<in> kpages k. pte s' d j = kentry k j)) \<or>
     (\<exists>s' ps'. setupkvm kdata s = Inr (0, s') \<and> free_pages s' ps' \<and> set ps' = set ps \<and> same_pages (set ps) s s' \<and>
        length ps \<le> 1025)"
proof -
  obtain q where q: "kdata = q * 4096" "0x80100 < q" "q < 0x8E000" using assms(3) by (auto simp: data_ok_def)
  obtain s1 where s1: "kalloc s = Inr (case ps of [] \<Rightarrow> 0 | p # _ \<Rightarrow> p, s1)" "free_pages s1 (tl ps)" "pages s1 = pages s" "kend s1 = kend s"
    using kalloc_spec [OF assms(1)] by blast
  show ?thesis
  proof (cases ps)
    case Nil
    then have "setupkvm kdata s = Inr (0, s1)" using s1(1) by (simp add: setupkvm_def bnd_def)
    then show ?thesis using s1 Nil by (auto simp: same_pages_def)
  next
    case (Cons d qs)
    define s2 where "s2 = s1\<lparr>pages := (pages s1)(d := replicate PGSIZE 0)\<rparr>"
    have d: "page_ok s d" "d \<notin> set qs" "d \<noteq> 0"
      using assms(1) Cons phys_page(4) [of s d] by (auto simp: free_pages_def)
    have z: "pages s2 d = replicate PGSIZE 0" by (simp add: s2_def)
    have f1: "free_pages s2 qs" using s1(2) Cons d(2) by (simp add: s2_def)
    have f2: "KERNBASE < kend s2" "page_ok s2 d"
      using d assms(2) page_ok_cong [OF s1(4)] by (simp_all add: s2_def s1(4))
    note v2 = fresh_vm_ok [OF z f1 f2 d(2)] and e2 = fresh_view(2) [OF z]
    have sp: "same_pages (set ps) s s2" using s1 Cons by (simp add: s2_def same_pages_def)
    have run: "setupkvm kdata s = setupkvm_loop d (kmaps kdata) s2"
      using s1(1) Cons d(3) by (simp add: setupkvm_def bnd_def [of kalloc] bnd_def [of "P2V _"] P2V_def set_page_def s2_def)
    have disj: "sorted_wrt (\<lambda>k k'. kpages k \<inter> kpages k' = {}) (kmaps kdata)"
      unfolding sorted_wrt_map [of "\<lambda>A B. A \<inter> B = {}" kpages, symmetric] q(1) kmaps_pages(1) [OF q(2,3)] using q(2,3) by auto
    have ks: "\<forall>k \<in> set (kmaps kdata). kmap_ok k \<and> (\<forall>j \<in> kpages k. even (pte s2 d j))"
      using kmaps_pages(2) [OF q(2,3)] q(1) e2 by simp
    have u2: "\<forall>j < 2 ^ 19. even (pte s2 d j)" using e2 by simp
    have pool2: "pool s2 d qs = set ps" using v2(2) Cons by simp
    have c: "card (set ps) = length ps" using assms(1) by (auto simp: free_pages_def distinct_card)
    from setupkvm_loop_spec [OF v2(1) ks disj u2 d(3), unfolded pool2 e2] show ?thesis
    proof (elim disjE exE conjE)
      fix s' ps' assume g: "setupkvm_loop d (kmaps kdata) s2 = Inr (d, s')" "ext d s2 qs s' ps'" "pool s' d ps' = set ps"
        "\<forall>j. (\<forall>k \<in> set (kmaps kdata). j \<notin> kpages k) \<longrightarrow> pte s' d j = 0" "\<forall>k \<in> set (kmaps kdata). \<forall>j \<in> kpages k. pte s' d j = kentry k j"
      have "set qs \<union> tabs s2 d \<subseteq> set ps" using pool2 own_tabs [of s2 d] by (auto simp: pool_def)
      then have "same_pages (set ps) s s'" using g(2) sp same_pages_trans unfolding ext_def by blast
      then show ?thesis using g d(3) Cons unfolding run
        by (intro disjI1 exI [of _ d] exI [of _ s'] exI [of _ ps']) (simp add: ext_def)
    next
      fix s' ps' assume g: "setupkvm_loop d (kmaps kdata) s2 = Inr (0, s')" "free_pages s' ps'" "set ps' = set ps"
        "same_pages (set ps) s2 s'" "card (set ps) \<le> 1025"
      have "same_pages (set ps) s s'" using sp g(4) same_pages_trans by blast
      then show ?thesis using g c unfolding run by (intro disjI2 exI [of _ s'] exI [of _ ps']) simp
    qed
  qed
qed

section \<open>Address translation\<close>

text \<open>What the hardware makes of a virtual address: the physical address and whether it may be written and be
  used by a user program.\<close>

definition translate :: "'z kmst_scheme \<Rightarrow> nat \<Rightarrow> nat \<Rightarrow> (nat \<times> bool \<times> bool) option" where
  "translate s d va = (let w = pte s d (va div PGSIZE) in
     if odd w then Some (PTE_ADDR w + va mod PGSIZE, w AND PTE_W \<noteq> 0, w AND PTE_U \<noteq> 0) else None)"

text \<open>The comment above \<open>kmap\<close> as a function.\<close>

definition kernel_space :: "nat \<Rightarrow> nat \<Rightarrow> (nat \<times> bool \<times> bool) option" where
  "kernel_space kdata va =
     (if KERNBASE \<le> va \<and> va < KERNBASE + PHYSTOP then Some (va - KERNBASE, \<not> (KERNLINK \<le> va \<and> va < kdata), False)
      else if DEVSPACE \<le> va then Some (va, True, False)
      else None)"

lemma low_flags: "w AND PTE_W = PTE_FLAGS w AND PTE_W" "w AND PTE_U = PTE_FLAGS w AND PTE_U"
  by (simp_all add: PTE_FLAGS_def and.assoc)

lemma perm_bits:
  "(0 OR PTE_P) AND PTE_W = (0 :: nat)" "(2 OR PTE_P) AND PTE_W = (2 :: nat)" "(2 :: nat) \<noteq> 0"
  "(0 OR PTE_P) AND PTE_U = (0 :: nat)" "(2 OR PTE_P) AND PTE_U = (0 :: nat)"
  by simp_all

lemma perm_flags:
  assumes "f = 0 \<or> f = 2"
  shows "(f OR PTE_P) AND PTE_W \<noteq> 0 \<longleftrightarrow> f = 2" "(f OR PTE_P) AND PTE_U = 0"
proof -
  show "(f OR PTE_P) AND PTE_W \<noteq> 0 \<longleftrightarrow> f = 2" using assms by (elim disjE) (simp_all only: perm_bits, simp_all)
  show "(f OR PTE_P) AND PTE_U = 0" using assms by (elim disjE) (simp_all only: perm_bits)
qed

lemma translate_kentry:
  assumes "pte s d (va div 4096) = kentry k (va div 4096)" "kmap_ok k" "va div 4096 \<in> kpages k" "k_perm k = 0 \<or> k_perm k = 2"
    and "k_phys_start k + ksize k \<le> 2 ^ 32"
  shows "translate s d va = Some (k_phys_start k + (va - k_virt k), k_perm k = 2, False)"
proof -
  define n j where "n = k_virt k div 4096" and "j = va div 4096 - n"
  have n: "k_virt k = n * 4096" using assms(2) by (auto simp: kmap_ok_def n_def)
  have "n \<le> va div 4096" "va div 4096 < n + ksize k div 4096"
    using assms(3) unfolding kpages_def atLeastLessThan_iff n_def by blast+
  then have j: "va div 4096 = n + j" "j < ksize k div 4096" unfolding j_def by linarith+
  then have va: "va = (n + j) * 4096 + va mod 4096" by (metis div_mult_mod_eq)
  have "Suc j * 4096 \<le> ksize k div 4096 * 4096" using j(2) by (intro mult_le_mono1) (rule Suc_leI)
  also have "\<dots> \<le> ksize k" by (rule div_times_less_eq_dividend)
  finally have "j * 4096 < ksize k" unfolding mult_Suc by linarith
  then have lt: "k_phys_start k + j * 4096 < 2 ^ 32" using assms(5) by linarith
  define a where "a = k_phys_start k + j * 4096"
  have a: "a mod 4096 = 0" using assms(2) by (simp add: a_def kmap_ok_def)
  have f: "k_perm k < 4096" using assms(4) by auto
  have w: "pte s d (va div 4096) = a OR k_perm k OR PTE_P"
    using assms(1) unfolding kentry_def n_def [symmetric] j(1) a_def add_diff_cancel_left' mod_less [OF lt] .
  note e = entry [OF a f, folded w]
  have "va - k_virt k = j * 4096 + va mod 4096" 
    unfolding n using arg_cong [OF va, of "\<lambda>x. x - n * 4096"] by (simp add: add_mult_distrib)
  moreover have "pte s d (va div 4096) AND PTE_W \<noteq> 0 \<longleftrightarrow> k_perm k = 2"
    unfolding low_flags(1) [of "pte s d (va div 4096)"] e(3) by (rule perm_flags(1) [OF assms(4)])
  moreover have "pte s d (va div 4096) AND PTE_U = 0"
    unfolding low_flags(2) [of "pte s d (va div 4096)"] e(3) by (rule perm_flags(2) [OF assms(4)])
  ultimately show ?thesis unfolding translate_def Let_def using e(1,2) by (simp add: a_def)
qed

lemma kernel_view:
  assumes "data_ok kdata" "\<forall>j. (\<forall>k \<in> set (kmaps kdata). j \<notin> kpages k) \<longrightarrow> pte s d j = 0"
    and "\<forall>k \<in> set (kmaps kdata). \<forall>j \<in> kpages k. pte s d j = kentry k j" "va < 2 ^ 32"
  shows "translate s d va = kernel_space kdata va"
proof -
  obtain q where q: "kdata = q * 4096" "0x80100 < q" "q < 0x8E000" using assms(1) by (auto simp: data_ok_def)
  note kp = kmaps_pages [OF q(2,3), folded q(1)]
  define j where "j = va div 4096"
  have j: "j < 0x100000" using assms(4) by (simp add: j_def)
  have cmp: "a * 4096 \<le> va \<longleftrightarrow> a \<le> j" "va < a * 4096 \<longleftrightarrow> j < a" for a
    by (simp_all add: j_def less_eq_div_iff_mult_less_eq div_less_iff_less_mult)
  have ks: "kernel_space kdata va =
     (if 0x80000 \<le> j \<and> j < 0x8E000 then Some (va - KERNBASE, \<not> (0x80100 \<le> j \<and> j < q), False)
      else if 0xFE000 \<le> j then Some (va, True, False) else None)"
    using cmp [of "0x80000"] cmp [of "0x8E000"] cmp [of "0x80100"] cmp [of q] cmp [of "0xFE000"]
    unfolding kernel_space_def q(1) by simp
  have tr: "translate s d va = Some (p + (va - v), f = 2, False)"
    if "\<lparr>k_virt = v, k_phys_start = p, k_phys_end = e, k_perm = f\<rparr> \<in> set (kmaps kdata)"
      "j \<in> kpages \<lparr>k_virt = v, k_phys_start = p, k_phys_end = e, k_perm = f\<rparr>" for v p e f
    using that assms(3) kp(2,3) translate_kentry [of s d va "\<lparr>k_virt = v, k_phys_start = p, k_phys_end = e, k_perm = f\<rparr>"]
    by (auto simp: j_def)
  note K = kmaps_def and P = kp(1) [unfolded kmaps_def list.map list.inject]
  consider "j < 0x80000 \<or> 0x8E000 \<le> j \<and> j < 0xFE000" | "0x80000 \<le> j" "j < 0x80100" | "0x80100 \<le> j" "j < q"
    | "q \<le> j" "j < 0x8E000" | "0xFE000 \<le> j" using q(2,3) by linarith
  then show ?thesis
  proof cases
    case 1
    then have "\<forall>k \<in> set (kmaps kdata). j \<notin> kpages k" using P q(2,3) by (auto simp: K)
    then show ?thesis using 1 assms(2) unfolding ks translate_def j_def [symmetric] by auto
  next
    case 2
    then show ?thesis using tr [of KERNBASE 0 EXTMEM PTE_W] P unfolding ks by (simp add: K)
  next
    case 3
    have "KERNLINK \<le> va" using 3 cmp [of "0x80100"] by simp
    then show ?thesis using tr [of KERNLINK "KERNLINK - KERNBASE" "kdata - KERNBASE" 0] P 3 q unfolding ks by (simp add: K)
  next
    case 4
    have "kdata \<le> va" "KERNBASE \<le> kdata" using 4 cmp [of q] q by simp_all
    then show ?thesis using tr [of kdata "kdata - KERNBASE" PHYSTOP PTE_W] P 4 q unfolding ks by (simp add: K)
  next
    case 5
    have "DEVSPACE \<le> va" using 5 cmp [of "0xFE000"] by simp
    then show ?thesis using tr [of DEVSPACE DEVSPACE 0 PTE_W] P 5 j unfolding ks by (simp add: K)
  qed
qed

text \<open>C16: \<open>setupkvm\<close> builds the address space its comment describes: the physical memory appears above \<open>KERNBASE\<close>, the
  kernel's text and read-only data not writable, the devices at their own addresses, nothing below \<open>KERNBASE\<close>,
  and no page of all that is accessible to a user program.  It fails only when the free pages do not suffice for
  a directory and its page tables, and then returns all of them.\<close>

theorem setupkvm_maps:
  assumes "free_pages s ps" "KERNBASE < kend s" "data_ok kdata"
  shows "(\<exists>d s' ps'. setupkvm kdata s = Inr (d, s') \<and> d \<noteq> 0 \<and> vm_ok s' d ps' \<and> pool s' d ps' = set ps \<and>
       (\<forall>va < 2 ^ 32. translate s' d va = kernel_space kdata va)) \<or>
    (\<exists>s' ps'. setupkvm kdata s = Inr (0, s') \<and> free_pages s' ps' \<and> set ps' = set ps \<and> length ps \<le> 1025)"
  using setupkvm_spec [OF assms]
proof (elim disjE exE conjE)
  fix d s' ps' assume g: "setupkvm kdata s = Inr (d, s')" "d \<noteq> 0" "vm_ok s' d ps'" "pool s' d ps' = set ps"
    "\<forall>j. (\<forall>k \<in> set (kmaps kdata). j \<notin> kpages k) \<longrightarrow> pte s' d j = 0" "\<forall>k \<in> set (kmaps kdata). \<forall>j \<in> kpages k. pte s' d j = kentry k j"
  have "translate s' d va = kernel_space kdata va" if "va < 2 ^ 32" for va
    by (rule kernel_view [OF assms(3) g(5,6) that])
  then show ?thesis using g(1-4) by blast
qed blast

text \<open>A machine whose allocator has 1100 pages.\<close>

definition sample_start :: consst where
  "sample_start = sample_console\<lparr>kend := 0x80100000\<rparr>"

lemma sample_memory:
  assumes "m \<le> 4000"
  shows "\<exists>s ps. freerange 0x80101000 (0x80101000 + m * 4096) sample_start = Inr ((), s) \<and> free_pages s ps \<and> length ps = m \<and>
     KERNBASE < kend s"
proof -
  let ?P = "pages_between 0x80101000 (0x80101000 + m * 4096)"
  have r: "PGROUNDUP 0x80101000 = 0x80101000" by (simp add: PGROUNDUP_def)
  have f: "free_pages sample_start []" by (simp add: free_pages_def sample_start_def sample_console_def)
  have "\<forall>q \<in> set ?P. page_ok sample_start q \<and> q \<notin> set []"
    using assms by (auto simp: pages_between_def page_ok_def sample_start_def)
  from freerange_loop_spec [OF f this] obtain s where s: "freerange_loop 0x80101000 (0x80101000 + m * 4096) sample_start = Inr ((), s)"
      "free_pages s (rev ?P @ [])" "page_ok s = page_ok sample_start" by blast
  have "\<not> page_ok sample_start KERNBASE" by (simp add: page_ok_def sample_start_def)
  then have "KERNBASE < kend s" unfolding s(3) [symmetric] by (simp add: page_ok_def)
  moreover have "length (rev ?P @ []) = m" by (simp add: pages_between_def)
  ultimately show ?thesis using s(1,2) by (auto simp: freerange_def r)
qed

theorem setupkvm_maps_witness:
  "\<exists>s d s'. freerange 0x80101000 0x8054D000 sample_start = Inr ((), s) \<and> setupkvm 0x80108000 s = Inr (d, s') \<and> d \<noteq> 0 \<and>
     translate s' d 0x80100123 = Some (0x100123, False, False) \<and> translate s' d 0x80109456 = Some (0x109456, True, False) \<and>
     translate s' d 0xFEC00000 = Some (0xFEC00000, True, False) \<and> translate s' d 0 = None"
proof -
  obtain s ps where s: "freerange 0x80101000 0x8054D000 sample_start = Inr ((), s)" "free_pages s ps" "length ps = 1100" "KERNBASE < kend s"
    using sample_memory [of 1100] by auto
  have "data_ok 0x80108000" by (simp add: data_ok_def)
  from setupkvm_maps [OF s(2,4) this] s(3) obtain d s' where "setupkvm 0x80108000 s = Inr (d, s')" "d \<noteq> 0"
      "\<forall>va < 2 ^ 32. translate s' d va = kernel_space 0x80108000 va" by auto
  with s(1) show ?thesis by (intro exI [of _ s] exI [of _ d] exI [of _ s']) (simp add: kernel_space_def)
qed

text \<open>C17: \<open>freevm\<close> gives a directory back completely: afterwards the free pages are exactly the pages that were
  free before together with the directory, its page tables and its user pages.  No other page changes.\<close>

theorem freevm_returns:
  assumes "vm_ok s d ps"
  shows "\<exists>s' ps'. freevm d s = Inr ((), s') \<and> free_pages s' ps' \<and>
     set ps' = set ps \<union> ran (own s d) \<and> (\<forall>q. q \<notin> set ps \<union> ran (own s d) \<longrightarrow> pages s' q = pages s q)"
  using freevm_spec [OF assms] by (auto simp: pool_def same_pages_def)

theorem freevm_returns_witness:
  "\<exists>s' ps'. freevm 0x80101000 sample_vm = Inr ((), s') \<and> free_pages s' ps' \<and> set ps' = {0x80101000, 0x80102000, 0x80103000}"
proof -
  have "pages sample_vm 0x80101000 = replicate PGSIZE 0" by (simp add: sample_vm_def)
  then have "ran (own sample_vm 0x80101000) = {0x80101000}" by (auto simp: fresh_view(3) ran_def)
  then show ?thesis using freevm_returns [OF sample_vm_ok(1)] by (auto simp: insert_commute)
qed

text \<open>C21: \<open>deallocuvm\<close> takes exactly the pages between the new and the old size, both rounded up, from the process
  and gives them back to the allocator; every other byte the process sees stays.\<close>

theorem deallocuvm_shrinks:
  assumes "vm_ok s d ps" "newsz < oldsz" "oldsz \<le> KERNBASE"
  shows "\<exists>s' ps'. deallocuvm d oldsz newsz s = Inr (newsz, s') \<and> vm_ok s' d ps' \<and> pool s' d ps' = pool s d ps \<and> set ps \<subseteq> set ps' \<and>
     umem_of s' d = (\<lambda>va. if PGROUNDUP newsz \<le> va \<and> va < PGROUNDUP oldsz then None else umem_of s d va)"
proof -
  obtain n where n: "PGROUNDUP newsz = n * 4096" "\<And>j. n \<le> j \<longleftrightarrow> newsz \<le> j * 4096"
    using roundup_page [of newsz] assms(2,3) by auto
  obtain N where N: "PGROUNDUP oldsz = N * 4096" "\<And>j. N \<le> j \<longleftrightarrow> oldsz \<le> j * 4096"
    using roundup_page [of oldsz] assms(3) by auto
  obtain s' ps' where s': "deallocuvm d oldsz newsz s = Inr (newsz, s')" "freed d s ps {j. newsz \<le> j * 4096 \<and> j * 4096 < oldsz} s' ps'"
    using deallocuvm_spec [OF assms] by blast
  have "va div 4096 \<in> {j. newsz \<le> j * 4096 \<and> j * 4096 < oldsz} \<longleftrightarrow> n * 4096 \<le> va \<and> va < N * 4096" for va
    using n(2) [of "va div 4096"] N(2) [of "va div 4096"]
    by (auto simp: less_eq_div_iff_mult_less_eq div_less_iff_less_mult linorder_not_le [symmetric])
  then show ?thesis
    using s' umem_freed [OF s'(2) assms(1)] unfolding n(1) N(1) by (intro exI [of _ s'] exI [of _ ps']) (simp add: freed_def)
qed

theorem deallocuvm_shrinks_witness:
  "\<exists>s'. deallocuvm 0x80101000 5000 100 sample_vm = Inr (100, s') \<and> umem_of s' 0x80101000 = (\<lambda>_. None)"
  using deallocuvm_shrinks [OF sample_vm_ok(1), of 100 5000] by (auto simp: sample_vm_ok(2) cong: if_cong)

end
