(* ===== verification/Fork_Memory.thy ===== *)
theory Fork_Memory
  imports Kernel_Map
begin

text \<open>
  Copying an address space for \<open>fork\<close> (\<open>copyuvm\<close>) and writing to the memory of a process that need not be the
  current one (\<open>copyout\<close>).
\<close>

section \<open>Two directories\<close>

lemma other_dir:
  assumes "dir_ok s d0" "same_pages X s s'" "X \<inter> ran (own s d0) = {}"
  shows "dir_ok s' d0" "own s' d0 = own s d0" "pte s' d0 = pte s d0" "ptab s' d0 = ptab s d0" "umem_of s' d0 = umem_of s d0"
proof -
  have p: "pages s' q = pages s q" if "q \<in> ran (own s d0)" for q using that assms(2,3) by (auto simp: same_pages_def)
  then have t: "\<And>q. q \<in> tabs s d0 \<Longrightarrow> pages s' q = pages s q" using own_tabs [of s d0] by blast
  show v: "own s' d0 = own s d0" "pte s' d0 = pte s d0" "ptab s' d0 = ptab s d0" using view_cong [OF t] by blast+
  have k: "kend s' = kend s" using assms(2) by (simp add: same_pages_def)
  have "page_at s' q" if "own s d0 r = Some q" for r q
    using dir_okD(1) [OF assms(1) that] p [OF ranI [of "own s d0", OF that]] page_ok_cong [OF k] by (simp add: page_at_def)
  then show "dir_ok s' d0" using assms(1) k by (auto simp: dir_ok_def v)
  show "umem_of s' d0 = umem_of s d0"
  proof
    fix va
    show "umem_of s' d0 va = umem_of s d0 va" using p [OF ranI [of "own s d0"]] by (intro umem_same) (simp_all only: v)
  qed
qed

lemma or_one_odd: "odd f \<Longrightarrow> f OR PTE_P = f" for f :: nat
  unfolding or_one_eq by simp

lemma PTE_FLAGS_less: "PTE_FLAGS w < 4096"
  by (simp add: PTE_FLAGS_mod)

lemma PTE_FLAGS_odd: "odd (PTE_FLAGS w) \<longleftrightarrow> odd w"
  by (simp add: PTE_FLAGS_mod dvd_mod_iff)

section \<open>Copying\<close>

text \<open>Pages \<open>n\<close> to \<open>N\<close> of the directory \<open>d\<close> are copies of those of \<open>d0\<close>.\<close>

definition copied :: "nat \<Rightarrow> nat \<Rightarrow> 'z kmst_scheme \<Rightarrow> nat list \<Rightarrow> nat \<Rightarrow> nat \<Rightarrow> 'z kmst_scheme \<Rightarrow> nat list \<Rightarrow> bool" where
  "copied d0 d s ps n N s' ps' \<longleftrightarrow> ext d s ps s' ps' \<and> pool s' d ps' = pool s d ps \<and>
     (\<forall>j. j < n \<or> N \<le> j \<longrightarrow> pte s' d j = pte s d j) \<and>
     (\<forall>j. n \<le> j \<and> j < N \<longrightarrow> odd (pte s' d j) \<and> PTE_FLAGS (pte s' d j) = PTE_FLAGS (pte s d0 j) \<and>
        pages s' (KERNBASE + PTE_ADDR (pte s' d j)) = pages s (KERNBASE + PTE_ADDR (pte s d0 j)))"

lemma copied_step:
  assumes "ext d s ps s1 ps1" "pool s1 d ps1 = pool s d ps"
    and "pte s1 d = (pte s d)(n := (p - KERNBASE) OR PTE_FLAGS (pte s d0 n) OR PTE_P)"
    and "pages s1 p = pages s (KERNBASE + PTE_ADDR (pte s d0 n))" "page_ok s p" "odd (pte s d0 n)"
    and "copied d0 d s1 ps1 (Suc n) N s' ps'" "n < N" "N \<le> 2 ^ 19" "dir_ok s d0" "pool s d ps \<inter> ran (own s d0) = {}"
    and "\<forall>j < N. odd (pte s d0 j)"
  shows "copied d0 d s ps n N s' ps'"
proof -
  define w where "w = (p - KERNBASE) OR PTE_FLAGS (pte s d0 n) OR PTE_P"
  note w = entry [of "p - KERNBASE" "PTE_FLAGS (pte s d0 n)", OF _ PTE_FLAGS_less, folded w_def] and p = phys_page [OF assms(5)]
  have "odd (PTE_FLAGS (pte s d0 n))" using assms(6) PTE_FLAGS_odd by blast
  then have w': "PTE_ADDR w = p - KERNBASE" "odd w" "PTE_FLAGS w = PTE_FLAGS (pte s d0 n)"
    using w(1-3) [OF p(1)] or_one_odd by metis+
  have sp: "same_pages (pool s d ps) s s1" using assms(1) own_tabs [of s d] by (auto simp: ext_def same_pages_def pool_def)
  note o = other_dir [OF assms(10) sp assms(11)]
  have n: "pte s1 d n = w" "pte s' d n = w" using assms(3,7) by (simp_all add: w_def copied_def)
  have "own s1 d (RUser n) = Some p" using own_user [of n s1 d] n(1) w'(1,2) p(3) assms(8,9) by simp
  then have "p \<notin> set ps1 \<union> tabs s1 d"
    using assms(1) user_not_tab [OF vm_okD(2)] vm_okD(3) unfolding ext_def by blast
  then have "pages s' p = pages s1 p" using assms(7) by (simp add: copied_def ext_def same_pages_def)
  then have c: "odd (pte s' d n) \<and> PTE_FLAGS (pte s' d n) = PTE_FLAGS (pte s d0 n) \<and>
      pages s' (KERNBASE + PTE_ADDR (pte s' d n)) = pages s (KERNBASE + PTE_ADDR (pte s d0 n))"
    using n(2) w' p(3) assms(4) by simp
  have q: "pages s1 (KERNBASE + PTE_ADDR (pte s d0 j)) = pages s (KERNBASE + PTE_ADDR (pte s d0 j))" if "j < N" for j
  proof -
    have "own s d0 (RUser j) = Some (KERNBASE + PTE_ADDR (pte s d0 j))" using that assms(9,12) by simp
    then have "KERNBASE + PTE_ADDR (pte s d0 j) \<in> ran (own s d0)" unfolding ran_def by blast
    then show ?thesis using sp assms(11) by (auto simp: same_pages_def)
  qed
  have "odd (pte s' d j) \<and> PTE_FLAGS (pte s' d j) = PTE_FLAGS (pte s d0 j) \<and>
      pages s' (KERNBASE + PTE_ADDR (pte s' d j)) = pages s (KERNBASE + PTE_ADDR (pte s d0 j))" if "n \<le> j" "j < N" for j
    using c q [of j] that assms(7) by (cases "j = n") (auto simp: copied_def o(3))
  moreover have "ext d s ps s' ps'" using ext_trans [OF assms(1)] assms(7) by (simp add: copied_def)
  moreover have "pte s' d j = pte s d j" if "j < n \<or> N \<le> j" for j using that assms(3,7,8) by (auto simp: copied_def)
  ultimately show ?thesis using assms(2,7) unfolding copied_def by auto
qed

lemma rd_run: "rd f s = Inr (f s, s)" and md_run: "md g s = Inr ((), g s)"
  by simp_all

lemma walk_user:
  assumes "dir_ok s d" "n < 2 ^ 19" "odd (pte s d n)"
  shows "\<exists>t. walkpgdir d (n * 4096) False s = Inr (Some (t, n mod 1024), s) \<and> pte_at t (n mod 1024) s = pte s d n"
proof -
  obtain t where t: "ptab s d (n div 1024) = Some t" "pte_at t (n mod 1024) s = pte s d n"
    using assms(3) by (cases "ptab s d (n div 1024)") (simp_all add: pte_def)
  have n: "n * 4096 < 2 ^ 32" "n * 4096 div 4096 = n" using assms(2) by simp_all
  show ?thesis using walk_present [OF assms(1) n(1)] t unfolding n(2) by blast
qed

lemma copy_round:
  assumes "vm_ok s d (p # qs)" "n * 4096 < sz" "n < 2 ^ 19" "even (pte s d n)" "dir_ok s d0" "odd (pte s d0 n)"
  shows "\<exists>s2. page_ok s p \<and> copyuvm_loop d0 d (n * 4096) sz s =
       bnd (mappages d (n * 4096) 4096 (p - KERNBASE) (PTE_FLAGS (pte s d0 n))) (\<lambda>r.
          if r < 0 then thn (kfree p) (thn (freevm d) (ret 0)) else copyuvm_loop d0 d (Suc n * 4096) sz) s2 \<and>
     ((\<exists>s'. mappages d (n * 4096) 4096 (p - KERNBASE) (PTE_FLAGS (pte s d0 n)) s2 = Inr (-1, s') \<and> qs = [] \<and>
         ext d s [p] s' [] \<and> pte s' d = pte s d \<and> insert p (pool s' d []) = pool s d [p] \<and> p \<notin> pool s' d []) \<or>
      (\<exists>s' ps'. mappages d (n * 4096) 4096 (p - KERNBASE) (PTE_FLAGS (pte s d0 n)) s2 = Inr (0, s') \<and>
         ext d s (p # qs) s' ps' \<and> length qs \<le> Suc (length ps') \<and> pool s' d ps' = pool s d (p # qs) \<and>
         pte s' d = (pte s d)(n := (p - KERNBASE) OR PTE_FLAGS (pte s d0 n) OR PTE_P) \<and>
         pages s' p = pages s (KERNBASE + PTE_ADDR (pte s d0 n))))"
    (is "\<exists>s2. _ \<and> _ = ?R s2 \<and> ?D s2")
proof -
  let ?v = "KERNBASE + PTE_ADDR (pte s d0 n)"
  have eq: "Suc n * 4096 = n * 4096 + 4096" by simp
  have v: "page_ok s ?v" "length (pages s ?v) = PGSIZE"
    using dir_okD(1) [OF assms(5), of "RUser n" ?v] assms(3,6) by (simp_all add: page_at_def)
  obtain t where t: "walkpgdir d0 (n * 4096) False s = Inr (Some (t, n mod 1024), s)" "pte_at t (n mod 1024) s = pte s d0 n"
    using walk_user [OF assms(5,3,6)] by blast
  obtain s1 s2 where s1: "kalloc s = Inr (p, s1)" "p \<noteq> 0" "page_ok s p" "pages s1 = pages s"
      and s2: "s2 = s1\<lparr>pages := (pages s1)(p := pages s ?v)\<rparr>" and D: "?D s2"
    using grow_page [OF assms(1,3,4) v(2) PTE_FLAGS_less [of "pte s d0 n"]] by (elim exE conjE) (rule that)
  have V: "V2P p s' = Inr (p - KERNBASE, s')" "P2V (PTE_ADDR (pte s d0 n)) s' = Inr (?v, s')" for s'
    by (rule V2P_page [OF s1(3)], rule P2V_page [OF v(1)])
  have odd: "pte s d0 n AND PTE_P \<noteq> 0" using assms(6) by simp
  have "copyuvm_loop d0 d (n * 4096) sz s = ?R s2"
    unfolding copyuvm_loop.simps [of d0 d "n * 4096"] eq if_P [OF assms(2)] s2
    by (simp only: bnd_Inr t s1(1) V option.case prod.case rd_run md_run set_page_def odd s1(2,4) if_False)
  with s1(3) D show ?thesis by (intro exI [of _ s2] conjI)
qed

lemma freevm_undo:
  assumes "vm_ok s d ps" "same_pages X s0 s" "pool s d ps \<subseteq> X"
  shows "\<exists>s' ps'. thn (freevm d) (ret (0 :: nat)) s = Inr (0, s') \<and> free_pages s' ps' \<and> set ps' = pool s d ps \<and> same_pages X s0 s'"
proof -
  obtain s' ps' where s': "freevm d s = Inr ((), s')" "free_pages s' ps'" "set ps' = pool s d ps" "same_pages (pool s d ps) s s'"
    using freevm_spec [OF assms(1)] by blast
  have "same_pages X s0 s'" using same_pages_trans [OF assms(2) s'(4) assms(3)] .
  with s' show ?thesis by (auto simp: bnd_def)
qed

lemma copy_unmapped:
  assumes "ext d s [p] s3 []" "insert p (pool s3 d []) = pool s d [p]" "p \<notin> pool s3 d []" "page_ok s p"
  shows "\<exists>s' ps'. thn (kfree p) (thn (freevm d) (ret (0 :: nat))) s3 = Inr (0, s') \<and> free_pages s' ps' \<and>
     set ps' = pool s d [p] \<and> same_pages (pool s d [p]) s s'"
proof -
  have v3: "vm_ok s3 d []" "page_ok s3 p" using assms(1,4) page_ok_cong [of s3 s] by (simp_all add: ext_def same_pages_def)
  obtain s4 where s4: "kfree p s3 = Inr ((), s4)" "vm_ok s4 d [p]" "same_pages {p} s3 s4" "own s4 d = own s3 d"
    using vm_ok_kfree [OF v3 assms(3)] by blast
  have pl: "pool s4 d [p] = pool s d [p]" using assms(2) by (auto simp: pool_def s4(4))
  have "same_pages (pool s d [p]) s s4"
    using assms(1) s4(3) own_tabs [of s d] by (auto simp: ext_def same_pages_def pool_def)
  from freevm_undo [OF s4(2) this] obtain s' ps' where "thn (freevm d) (ret (0 :: nat)) s4 = Inr (0, s')" "free_pages s' ps'"
      "set ps' = pool s d [p]" "same_pages (pool s d [p]) s s'"
    unfolding pl by blast
  then show ?thesis using s4(1) by (auto simp: bnd_def [of "kfree p"])
qed

lemma copy_nomem:
  assumes "vm_ok s d []" "n * 4096 < sz" "n < 2 ^ 19" "dir_ok s d0" "odd (pte s d0 n)"
  shows "\<exists>s' ps'. copyuvm_loop d0 d (n * 4096) sz s = Inr (0, s') \<and> free_pages s' ps' \<and> set ps' = pool s d [] \<and>
     same_pages (pool s d []) s s'"
proof -
  obtain t where t: "walkpgdir d0 (n * 4096) False s = Inr (Some (t, n mod 1024), s)" "pte_at t (n mod 1024) s = pte s d0 n"
    using walk_user [OF assms(4,3,5)] by blast
  obtain s1 where s1: "kalloc s = Inr (0, s1)" "vm_ok s1 d []" "pages s1 = pages s" "kend s1 = kend s" "own s1 d = own s d"
    using vm_ok_kalloc [OF assms(1)] by auto
  have sp: "same_pages (pool s d []) s s1" "pool s1 d [] = pool s d []" using s1 by (simp_all add: same_pages_def pool_def)
  obtain s' ps' where s': "thn (freevm d) (ret (0 :: nat)) s1 = Inr (0, s')" "free_pages s' ps'" "set ps' = pool s d []"
      "same_pages (pool s d []) s s'"
    using freevm_undo [OF s1(2) sp(1)] sp(2) by auto
  have odd: "pte s d0 n AND PTE_P \<noteq> 0" using assms(5) by simp
  have "copyuvm_loop d0 d (n * 4096) sz s = Inr (0, s')"
    unfolding copyuvm_loop.simps [of d0 d "n * 4096"] if_P [OF assms(2)] s'(1) [symmetric]
    by (simp only: bnd_Inr t s1(1) option.case prod.case rd_run odd if_False if_True simp_thms)
  with s'(2-4) show ?thesis by blast
qed

lemma copyuvm_loop_spec:
  assumes "vm_ok s d ps" "dir_ok s d0" "pool s d ps \<inter> ran (own s d0) = {}" "\<forall>j < N. odd (pte s d0 j)"
    and "\<forall>j. n \<le> j \<and> j < N \<longrightarrow> even (pte s d j)" "\<forall>j. j * 4096 < sz \<longleftrightarrow> j < N" "N \<le> 2 ^ 19"
  shows "(\<exists>s' ps'. copyuvm_loop d0 d (n * 4096) sz s = Inr (d, s') \<and> copied d0 d s ps n N s' ps') \<or>
    (\<exists>s' ps'. copyuvm_loop d0 d (n * 4096) sz s = Inr (0, s') \<and> free_pages s' ps' \<and> set ps' = pool s d ps \<and>
       same_pages (pool s d ps) s s' \<and> length ps < 2 * (N - n))"
  using assms(1-5)
proof (induction "N - n" arbitrary: n s ps)
  case 0
  then have "\<not> n * 4096 < sz" using assms(6) by simp
  then have "copyuvm_loop d0 d (n * 4096) sz s = Inr (d, s)" by (subst copyuvm_loop.simps) simp
  moreover have "copied d0 d s ps n N s ps" using ext_refl [OF "0.prems"(1)] "0.hyps" by (auto simp: copied_def)
  ultimately show ?case by blast
next
  case (Suc k)
  have nN: "n < N" "n < 2 ^ 19" using Suc.hyps(2) assms(7) by simp_all
  then have n: "n * 4096 < sz" "even (pte s d n)" "odd (pte s d0 n)" using assms(6) Suc.prems(4,5) by auto
  show ?case
  proof (cases ps)
    case Nil
    then show ?thesis using copy_nomem [OF _ n(1) nN(2) Suc.prems(2) n(3)] Suc.prems(1) nN(1) by fastforce
  next
    case (Cons p qs)
    let ?f = "PTE_FLAGS (pte s d0 n)"
    show ?thesis
      using copy_round [OF Suc.prems(1) [unfolded Cons] n(1) nN(2) n(2) Suc.prems(2) n(3)]
    proof (elim exE conjE disjE)
      fix s2 s3 ps3 assume r: "copyuvm_loop d0 d (n * 4096) sz s = bnd (mappages d (n * 4096) 4096 (p - KERNBASE) ?f) (\<lambda>r.
          if r < 0 then thn (kfree p) (thn (freevm d) (ret 0)) else copyuvm_loop d0 d (Suc n * 4096) sz) s2" "page_ok s p"
        and s3: "mappages d (n * 4096) 4096 (p - KERNBASE) ?f s2 = Inr (0, s3)" "ext d s (p # qs) s3 ps3"
        "length qs \<le> Suc (length ps3)" "pool s3 d ps3 = pool s d (p # qs)"
        "pte s3 d = (pte s d)(n := (p - KERNBASE) OR ?f OR PTE_P)" "pages s3 p = pages s (KERNBASE + PTE_ADDR (pte s d0 n))"
      have r3: "copyuvm_loop d0 d (n * 4096) sz s = copyuvm_loop d0 d (Suc n * 4096) sz s3"
        using s3(1) unfolding r(1) by (simp add: bnd_def)
      have sp: "same_pages (pool s d (p # qs)) s s3" using s3(2) own_tabs [of s d] by (auto simp: ext_def same_pages_def pool_def)
      note o = other_dir [OF Suc.prems(2) sp Suc.prems(3) [unfolded Cons]]
      have v: "vm_ok s3 d ps3" "pool s3 d ps3 \<inter> ran (own s3 d0) = {}" "\<forall>j < N. odd (pte s3 d0 j)"
          "\<forall>j. Suc n \<le> j \<and> j < N \<longrightarrow> even (pte s3 d j)" "k = N - Suc n"
        using s3(2,4,5) Suc.prems(3-5) Suc.hyps(2) Cons by (auto simp: ext_def o(2,3))
      from Suc.hyps(1) [OF v(5,1) o(1) v(2-4)] show ?thesis
      proof (elim disjE exE conjE)
        fix s' ps' assume "copyuvm_loop d0 d (Suc n * 4096) sz s3 = Inr (d, s')" "copied d0 d s3 ps3 (Suc n) N s' ps'"
        then show ?thesis
          using copied_step [OF s3(2,4,5,6) r(2) n(3) _ nN(1) assms(7) Suc.prems(2) Suc.prems(3) [unfolded Cons] Suc.prems(4)]
          unfolding r3 Cons by blast
      next
        fix s' ps' assume u: "copyuvm_loop d0 d (Suc n * 4096) sz s3 = Inr (0, s')" "free_pages s' ps'" "set ps' = pool s3 d ps3"
          "same_pages (pool s3 d ps3) s3 s'" "length ps3 < 2 * (N - Suc n)"
        have "same_pages (pool s d (p # qs)) s s'" using same_pages_trans [OF sp u(4)] s3(4) by simp
        moreover have "length (p # qs) < 2 * (N - n)" using u(5) s3(3) nN(1) by simp
        ultimately show ?thesis using u(1-3) s3(4) unfolding r3 Cons by auto
      qed
    next
      fix s2 s3 assume r: "copyuvm_loop d0 d (n * 4096) sz s = bnd (mappages d (n * 4096) 4096 (p - KERNBASE) ?f) (\<lambda>r.
          if r < 0 then thn (kfree p) (thn (freevm d) (ret 0)) else copyuvm_loop d0 d (Suc n * 4096) sz) s2" "page_ok s p"
        and s3: "mappages d (n * 4096) 4096 (p - KERNBASE) ?f s2 = Inr (-1, s3)" "qs = []" "ext d s [p] s3 []"
        "pte s3 d = pte s d" "insert p (pool s3 d []) = pool s d [p]" "p \<notin> pool s3 d []"
      obtain s' ps' where "thn (kfree p) (thn (freevm d) (ret (0 :: nat))) s3 = Inr (0, s')" "free_pages s' ps'"
          "set ps' = pool s d [p]" "same_pages (pool s d [p]) s s'"
        using copy_unmapped [OF s3(3,5,6) r(2)] by blast
      then show ?thesis using s3(1,2) nN(1) unfolding r(1) Cons by (auto simp: bnd_def [of "mappages _ _ _ _ _"])
    qed
  qed
qed

section \<open>Writing user memory\<close>

lemma nth_patch:
  assumes "off + length ds \<le> length bs" "i < length bs"
  shows "patch bs off ds ! i = (if off \<le> i \<and> i < off + length ds then ds ! (i - off) else bs ! i)"
  using assms by (auto simp: patch_def nth_append min_def)

lemma write_user:
  fixes s :: "'z kmst_scheme"
  assumes "dir_ok s d" "own s d (RUser n) = Some p" "off + length bs \<le> 4096"
    and "s1 = s\<lparr>pages := (pages s)(p := patch (pages s p) off bs)\<rparr>"
  shows "dir_ok s1 d" "pte s1 d = pte s d"
    "umem_of s1 d = (\<lambda>a. if n * 4096 + off \<le> a \<and> a < n * 4096 + off + length bs then Some (bs ! (a - (n * 4096 + off))) else umem_of s d a)"
proof -
  have l: "length (pages s p) = 4096" using dir_okD(1) [OF assms(1,2)] by (simp add: page_at_def)
  have t: "\<And>q. q \<in> tabs s d \<Longrightarrow> pages s1 q = pages s q" using user_not_tab [OF assms(1,2)] assms(4) by auto
  have v: "pte s1 d = pte s d" "own s1 d = own s d" using view_cong [OF t] by blast+
  show "pte s1 d = pte s d" by (rule v(1))
  have "page_at s1 q" if "page_at s q" for q using that l assms(3,4) by (auto simp: page_at_def)
  moreover have "kend s1 = kend s" by (simp add: assms(4))
  moreover have pg: "pages s1 q = (if q = p then patch (pages s p) off bs else pages s q)" for q by (simp add: assms(4))
  ultimately show "dir_ok s1 d" using assms(1) by (auto simp: dir_ok_def v(2))
  show "umem_of s1 d = (\<lambda>a. if n * 4096 + off \<le> a \<and> a < n * 4096 + off + length bs then Some (bs ! (a - (n * 4096 + off))) else umem_of s d a)"
  proof
    fix a :: nat
    let ?j = "a div 4096" and ?i = "a mod 4096"
    have a: "a = ?j * 4096 + ?i" "?i < 4096" by simp_all
    show "umem_of s1 d a = (if n * 4096 + off \<le> a \<and> a < n * 4096 + off + length bs then Some (bs ! (a - (n * 4096 + off))) else umem_of s d a)"
    proof (cases "?j = n")
      case True
      then have "n * 4096 + off \<le> a \<longleftrightarrow> off \<le> ?i" "a < n * 4096 + off + length bs \<longleftrightarrow> ?i < off + length bs"
          "a - (n * 4096 + off) = ?i - off" using a(1) by linarith+
      then show ?thesis using True assms(2,3) nth_patch [of off bs "pages s p" ?i] l
        unfolding umem_of_def v(2) by (simp add: pg del: own.simps)
    next
      case False
      have "own s d (RUser ?j) \<noteq> Some p" using dir_okD(2) [OF assms(1,2), of "RUser ?j"] False by auto
      moreover have "\<not> (n * 4096 + off \<le> a \<and> a < n * 4096 + off + length bs)" using False assms(3) a by linarith
      ultimately show ?thesis unfolding umem_of_def v(2)
        by (cases "own s d (RUser ?j)") (auto simp: pg simp del: own.simps)
    qed
  qed
qed

text \<open>A user program may use the page with number \<open>n\<close>.\<close>

definition user_page :: "'z kmst_scheme \<Rightarrow> nat \<Rightarrow> nat \<Rightarrow> bool" where
  "user_page s d n \<longleftrightarrow> n < 2 ^ 19 \<and> odd (pte s d n) \<and> pte s d n AND PTE_U \<noteq> 0"

lemma uva2ka_user:
  assumes "dir_ok s d" "user_page s d n"
  shows "\<exists>p. uva2ka d (n * 4096) s = Inr (p, s) \<and> p \<noteq> 0 \<and> own s d (RUser n) = Some p"
proof -
  have u: "n < 2 ^ 19" "odd (pte s d n)" "pte s d n AND PTE_U \<noteq> 0" using assms(2) by (simp_all add: user_page_def)
  obtain t where t: "walkpgdir d (n * 4096) False s = Inr (Some (t, n mod 1024), s)" "pte_at t (n mod 1024) s = pte s d n"
    using walk_user [OF assms(1) u(1,2)] by blast
  have o: "own s d (RUser n) = Some (KERNBASE + PTE_ADDR (pte s d n))" using own_user [OF u(1,2)] .
  have "page_ok s (KERNBASE + PTE_ADDR (pte s d n))" using dir_okD(1) [OF assms(1) o] by (simp add: page_at_def)
  note P = P2V_page [OF this] and z = phys_page(4) [OF this]
  have odd: "\<not> pte s d n AND PTE_P = 0" using u(2) by simp
  have "uva2ka d (n * 4096) s = Inr (KERNBASE + PTE_ADDR (pte s d n), s)"
    unfolding uva2ka_def by (simp only: bnd_Inr t option.case prod.case rd_run odd u(3) if_False P)
  with o z show ?thesis by blast
qed

lemma copyout_nil: "copyout d va [] s = Inr (0, s)"
  by (simp add: copyout.simps [of d va "[]"])

lemma copyout_spec:
  assumes "dir_ok s d" "va + length buf \<le> KERNBASE" "\<forall>a. va \<le> a \<and> a < va + length buf \<longrightarrow> user_page s d (a div 4096)"
  shows "\<exists>s'. copyout d va buf s = Inr (0, s') \<and> dir_ok s' d \<and> pte s' d = pte s d \<and>
     umem_of s' d = (\<lambda>a. if va \<le> a \<and> a < va + length buf then Some (buf ! (a - va)) else umem_of s d a)"
  using assms
proof (induction "length buf" arbitrary: va buf s rule: less_induct)
  case less
  show ?case
  proof (cases "buf = []")
    case True
    then show ?thesis using less.prems(1) by (subst copyout.simps) (auto simp: fun_eq_iff)
  next
    case False
    define n off where "n = va div 4096" and "off = va mod 4096"
    define k where "k = min (4096 - off) (length buf)"
    have va: "va = n * 4096 + off" "off < 4096" by (simp_all add: n_def off_def)
    have rd: "PGROUNDDOWN va = n * 4096" "va - n * 4096 = off" by (simp_all add: PGROUNDDOWN_def n_def off_def minus_div_mult_eq_mod)
    have k: "0 < k" "k \<le> length buf" "off + k \<le> 4096" using False va(2) by (auto simp: k_def)
    have "user_page s d n" using less.prems(3) False by (auto simp: n_def)
    then obtain p where p: "uva2ka d (n * 4096) s = Inr (p, s)" "p \<noteq> 0" "own s d (RUser n) = Some p"
      using uva2ka_user [OF less.prems(1)] by blast
    define s1 where "s1 = s\<lparr>pages := (pages s)(p := patch (pages s p) off (take k buf))\<rparr>"
    have lk: "length (take k buf) = k" using k(2) by simp
    note w = write_user [OF less.prems(1) p(3) _ s1_def, unfolded lk, OF k(3), folded va(1)]
    have nxt: "(n * 4096 + PGSIZE) mod 2 ^ 32 = va + k" if "k < length buf"
    proof -
      have "k = 4096 - off" using that by (simp add: k_def)
      then have e: "n * 4096 + PGSIZE = va + k" using va by simp
      then show ?thesis using less.prems(2) that unfolding e by simp
    qed
    have run: "copyout d va buf s = copyout d ((n * 4096 + PGSIZE) mod 2 ^ 32) (drop k buf) s1"
      using False p(1,2) unfolding copyout.simps [of d va] rd Let_def k_def [symmetric] s1_def by simp
    show ?thesis
    proof (cases "k < length buf")
      case False
      then have kl: "k = length buf" "take k buf = buf" "drop k buf = []" using k(2) by simp_all
      have "copyout d va buf s = Inr (0, s1)" unfolding run kl(3) by (simp only: copyout_nil)
      then show ?thesis using w(1,2) w(3) [unfolded kl(2), unfolded kl(1)] by (intro exI [of _ s1] conjI)
    next
      case True
      have l: "length (drop k buf) < length buf" using k(1) True by simp
      have b: "va + k + length (drop k buf) \<le> KERNBASE"
          "\<forall>a. va + k \<le> a \<and> a < va + k + length (drop k buf) \<longrightarrow> user_page s1 d (a div 4096)"
        using less.prems(2,3) True w(2) by (auto simp: user_page_def)
      from less.hyps [OF l w(1) b] obtain s' where s': "copyout d (va + k) (drop k buf) s1 = Inr (0, s')" "dir_ok s' d" "pte s' d = pte s1 d"
          "umem_of s' d = (\<lambda>a. if va + k \<le> a \<and> a < va + k + length (drop k buf) then Some (drop k buf ! (a - (va + k))) else umem_of s1 d a)"
        by blast
      have "umem_of s' d = (\<lambda>a. if va \<le> a \<and> a < va + length buf then Some (buf ! (a - va)) else umem_of s d a)"
        using True by (auto simp: s'(4) w(3) fun_eq_iff)
      then show ?thesis using s'(1-3) w(2) run nxt [OF True] by auto
    qed
  qed
qed

section \<open>Properties\<close>

lemma umem_copied:
  assumes "copied d0 d s ps 0 N s' ps'" "\<forall>j < N. odd (pte s d0 j)" "\<forall>j. N \<le> j \<and> j < 2 ^ 19 \<longrightarrow> even (pte s d j)" "N \<le> 2 ^ 19"
  shows "umem_of s' d = (\<lambda>va. if va < N * 4096 then umem_of s d0 va else None)"
proof
  fix va :: nat
  let ?j = "va div 4096"
  have j: "va < N * 4096 \<longleftrightarrow> ?j < N" by (simp add: div_less_iff_less_mult)
  show "umem_of s' d va = (if va < N * 4096 then umem_of s d0 va else None)"
  proof (cases "?j < N")
    case True
    then have "own s' d (RUser ?j) = Some (KERNBASE + PTE_ADDR (pte s' d ?j))"
        "own s d0 (RUser ?j) = Some (KERNBASE + PTE_ADDR (pte s d0 ?j))"
        "pages s' (KERNBASE + PTE_ADDR (pte s' d ?j)) = pages s (KERNBASE + PTE_ADDR (pte s d0 ?j))"
      using assms(1,2,4) by (auto simp: copied_def)
    then show ?thesis using True unfolding j umem_of_def by simp
  next
    case False
    then have "own s' d (RUser ?j) = None" using assms(1,3) by (auto simp: copied_def)
    then show ?thesis using False unfolding j umem_of_def by simp
  qed
qed

lemma kernel_upper: "data_ok kdata \<Longrightarrow> k \<in> set (kmaps kdata) \<Longrightarrow> j \<in> kpages k \<Longrightarrow> 2 ^ 19 \<le> j"
proof -
  assume a: "data_ok kdata" "k \<in> set (kmaps kdata)" "j \<in> kpages k"
  then obtain q where q: "kdata = q * 4096" "0x80100 < q" "q < 0x8E000" by (auto simp: data_ok_def)
  have "kmap_ok k" using kmaps_pages(2) [OF q(2,3)] a(2) q(1) by blast
  with a(3) show "2 ^ 19 \<le> j" by (auto simp: kmap_ok_def kpages_def)
qed

lemma room:
  assumes "vm_ok s d ps" "set qs = pool s d ps" "distinct qs" "\<forall>j. N \<le> j \<and> j < 2 ^ 19 \<longrightarrow> even (pte s d j)"
  shows "length qs \<le> length ps + (1025 + N)"
proof -
  have "length qs = card (set ps \<union> ran (own s d))" using assms(2,3) by (simp add: pool_def flip: distinct_card)
  also have "\<dots> \<le> card (set ps) + card (ran (own s d))" by (rule card_Un_le)
  also have "\<dots> \<le> length ps + (1025 + N)" using card_length [of ps] user_card [OF assms(4)] by (rule add_mono)
  finally show ?thesis .
qed

text \<open>C18: \<open>fork\<close>'s copy of an address space.  For a process whose pages below \<open>sz\<close> are all present, \<open>copyuvm\<close> returns
  a directory that shows the same bytes with the same permissions below \<open>sz\<close>, rounded up, and no user memory
  above; it shares no page with the original, whose memory is unchanged.  Otherwise it returns 0 with every page
  given back; it can only do so when there are at most 1025 free pages and two for each page to copy.\<close>

theorem copyuvm_copies:
  assumes "vm_ok s d0 ps" "data_ok kdata" "sz \<le> KERNBASE" "\<forall>va < sz. umem_of s d0 va \<noteq> None"
  shows "(\<exists>d s' ps'. copyuvm kdata d0 sz s = Inr (d, s') \<and> d \<noteq> 0 \<and> vm_ok s' d ps' \<and> dir_ok s' d0 \<and>
       pool s' d ps' = set ps \<and> ran (own s' d) \<inter> ran (own s' d0) = {} \<and> umem_of s' d0 = umem_of s d0 \<and>
       umem_of s' d = (\<lambda>va. if va < PGROUNDUP sz then umem_of s d0 va else None) \<and>
       (\<forall>va < sz. PTE_FLAGS (pte s' d (va div PGSIZE)) = PTE_FLAGS (pte s' d0 (va div PGSIZE)))) \<or>
    (\<exists>s' ps'. copyuvm kdata d0 sz s = Inr (0, s') \<and> free_pages s' ps' \<and> set ps' = set ps \<and> dir_ok s' d0 \<and>
       umem_of s' d0 = umem_of s d0 \<and> length ps \<le> 1025 + 2 * (PGROUNDUP sz div PGSIZE))"
proof -
  note D = vm_okD(2) [OF assms(1)] and F = vm_okD(1) [OF assms(1)]
  obtain N where N: "N \<le> 2 ^ 19" "PGROUNDUP sz = N * 4096" "\<And>j. N \<le> j \<longleftrightarrow> sz \<le> j * 4096"
    using roundup_page [OF assms(3)] by auto
  have N': "\<forall>j. j * 4096 < sz \<longleftrightarrow> j < N" using N(3) by (metis linorder_not_less)
  have pr: "odd (pte s d0 j)" if "j < N" for j
  proof -
    have "j * 4096 < sz" using N' that by blast
    then have "umem_of s d0 (j * 4096) \<noteq> None" using assms(4) by blast
    then show ?thesis by (simp add: umem_of_def split: if_splits)
  qed
  have disj: "set ps \<inter> ran (own s d0) = {}" using assms(1) by (simp add: vm_ok_def)
  have old: "dir_ok s' d0 \<and> umem_of s' d0 = umem_of s d0 \<and> pte s' d0 = pte s d0 \<and> own s' d0 = own s d0" if "same_pages (set ps) s s'" for s'
    using other_dir [OF D that disj] by blast
  from setupkvm_spec [OF F dir_okD(3) [OF D] assms(2)] show ?thesis
  proof (elim disjE exE conjE)
    fix s' ps' assume g: "setupkvm kdata s = Inr (0, s')" "free_pages s' ps'" "set ps' = set ps" "same_pages (set ps) s s'" "length ps \<le> 1025"
    then have "copyuvm kdata d0 sz s = Inr (0, s')" by (simp add: copyuvm_def)
    then show ?thesis using g old [OF g(4)] by (intro disjI2 exI [of _ s'] exI [of _ ps']) simp
  next
    fix d s1 ps1 assume g: "setupkvm kdata s = Inr (d, s1)" "d \<noteq> 0" "vm_ok s1 d ps1" "pool s1 d ps1 = set ps" "same_pages (set ps) s s1"
      "\<forall>j. (\<forall>k \<in> set (kmaps kdata). j \<notin> kpages k) \<longrightarrow> pte s1 d j = 0"
    have run: "copyuvm kdata d0 sz s = copyuvm_loop d0 d (0 * 4096) sz s1" using g(1,2) by (simp add: copyuvm_def)
    note b1 = old [OF g(5)]
    have u: "pte s1 d j = 0" if "j < 2 ^ 19" for j
      using that g(6) kernel_upper [OF assms(2)] by (meson linorder_not_less)
    have c: "dir_ok s1 d0" "pool s1 d ps1 \<inter> ran (own s1 d0) = {}" "\<forall>j < N. odd (pte s1 d0 j)" "\<forall>j. 0 \<le> j \<and> j < N \<longrightarrow> even (pte s1 d j)"
      using b1 g(4) disj pr u N(1) by auto
    from copyuvm_loop_spec [OF g(3) c N' N(1)] show ?thesis
    proof (elim disjE exE conjE)
      fix s' ps' assume k: "copyuvm_loop d0 d (0 * 4096) sz s1 = Inr (d, s')" "copied d0 d s1 ps1 0 N s' ps'"
      have e: "ext d s1 ps1 s' ps'" "pool s' d ps' = set ps" using k(2) g(4) by (simp_all add: copied_def)
      have "set ps1 \<union> tabs s1 d \<subseteq> set ps" using g(4) own_tabs [of s1 d] by (auto simp: pool_def)
      then have "same_pages (set ps) s s'" using same_pages_trans [OF g(5)] e(1) unfolding ext_def by blast
      note b2 = old [OF this]
      have "umem_of s' d = (\<lambda>va. if va < PGROUNDUP sz then umem_of s d0 va else None)"
        using umem_copied [OF k(2) c(3) _ N(1)] u b1 unfolding N(2) by (simp cong: if_cong)
      moreover have "PTE_FLAGS (pte s' d (va div PGSIZE)) = PTE_FLAGS (pte s' d0 (va div PGSIZE))" if "va < sz" for va
      proof -
        have "va div 4096 < N" using N' that by (meson div_times_less_eq_dividend le_less_trans)
        then show ?thesis using k(2) b1 b2 by (simp add: copied_def)
      qed
      moreover have "ran (own s' d) \<inter> ran (own s' d0) = {}" using e(2) b2 disj by (auto simp: pool_def)
      ultimately show ?thesis using k(1) g(2) e b2 unfolding run
        by (intro disjI1 exI [of _ d] exI [of _ s'] exI [of _ ps']) (simp add: ext_def)
    next
      fix s' ps' assume k: "copyuvm_loop d0 d (0 * 4096) sz s1 = Inr (0, s')" "free_pages s' ps'" "set ps' = pool s1 d ps1"
        "same_pages (pool s1 d ps1) s1 s'" "length ps1 < 2 * (N - 0)"
      have "same_pages (set ps) s s'" using same_pages_trans [OF g(5) k(4)] g(4) by simp
      note b2 = old [OF this]
      have "length ps \<le> length ps1 + 1025"
        using room [OF g(3), of ps 0] g(4) F u by (simp add: free_pages_def)
      then have "length ps \<le> 1025 + 2 * (PGROUNDUP sz div PGSIZE)" using k(5) unfolding N(2) by simp
      then show ?thesis using k(1-3) g(4) b2 unfolding run by (intro disjI2 exI [of _ s'] exI [of _ ps']) simp
    qed
  qed
qed

text \<open>A process with one page of memory, and at least 1900 pages still free.\<close>

lemma sample_process:
  "\<exists>(s :: consst) d ps. vm_ok s d ps \<and> 1900 \<le> length ps \<and> (\<forall>va < 5. umem_of s d va = Some 0)"
proof -
  obtain s0 ps0 where s0: "free_pages (s0 :: consst) ps0" "length ps0 = 3000" "KERNBASE < kend s0"
    using sample_memory [of 3000] by auto
  then obtain d qs where ps0: "ps0 = d # qs" "length qs = 2999" by (cases ps0) auto
  obtain s1 :: consst where s1: "free_pages s1 qs" "kend s1 = kend s0" using kalloc_spec [OF s0(1)] ps0(1) by auto
  define s2 where "s2 = s1\<lparr>pages := (pages s1)(d := replicate PGSIZE 0)\<rparr>"
  have d: "page_ok s0 d" "d \<notin> set qs" using s0(1) ps0(1) by (simp_all add: free_pages_def)
  have z: "pages s2 d = replicate PGSIZE 0" by (simp add: s2_def)
  have f: "free_pages s2 qs" "KERNBASE < kend s2" "page_ok s2 d"
    using s1 d s0(3) page_ok_cong [OF s1(2)] by (simp_all add: s2_def)
  note v = fresh_vm_ok [OF z f d(2)] and e = fresh_view(2) [OF z]
  have h: "(5 :: nat) < KERNBASE" "(0 :: nat) \<le> 0 * 4096" "\<forall>j. j * 4096 < (5 :: nat) \<longleftrightarrow> j < 1" "\<forall>j. 0 \<le> j \<and> j < 1 \<longrightarrow> even (pte s2 d j)"
    using e by auto
  obtain s' ps' where g: "grown d s2 qs 0 1 s' ps'" using allocuvm_loop_spec [OF v(1) h] ps0(2) by auto
  have "set ps0 = pool s' d ps'" using g v(2) ps0(1) by (simp add: grown_def)
  moreover have "distinct ps0" using s0(1) by (simp add: free_pages_def)
  moreover have "\<forall>j. 1 \<le> j \<and> j < 2 ^ 19 \<longrightarrow> even (pte s' d j)" using g e by (simp add: grown_def)
  moreover have ok: "vm_ok s' d ps'" using g by (simp add: grown_def ext_def)
  ultimately have "length ps0 \<le> length ps' + (1025 + 1)" using room [of s' d ps' ps0 1] by blast
  then have l: "1900 \<le> length ps'" using s0(2) by linarith
  have u: "umem_of s' d = (\<lambda>va. if 0 * 4096 \<le> va \<and> va < 1 * 4096 then Some 0 else umem_of s2 d va)"
    by (rule umem_grown [OF g v(1)]) simp
  have "\<forall>va < 5. umem_of s' d va = Some 0" unfolding u by simp
  with ok l show ?thesis by blast
qed

theorem copyuvm_copies_witness:
  "\<exists>(s :: consst) d0 d s'. copyuvm 0x80108000 d0 5 s = Inr (d, s') \<and> d \<noteq> 0 \<and> umem_of s' d 3 = Some 0 \<and> umem_of s' d 4096 = None \<and>
     ran (own s' d) \<inter> ran (own s' d0) = {}"
proof -
  obtain s :: consst and d0 ps where s: "vm_ok s d0 ps" "1900 \<le> length ps" "\<forall>va < 5. umem_of s d0 va = Some 0"
    using sample_process by blast
  have r: "PGROUNDUP 5 = 4096" by (simp add: PGROUNDUP_def)
  have "data_ok 0x80108000" by (simp add: data_ok_def)
  moreover have "\<forall>va < 5. umem_of s d0 va \<noteq> None" using s(3) by simp
  ultimately obtain d s' where "copyuvm 0x80108000 d0 5 s = Inr (d, s')" "d \<noteq> 0" "ran (own s' d) \<inter> ran (own s' d0) = {}"
      "umem_of s' d = (\<lambda>va. if va < 4096 then umem_of s d0 va else None)"
    using copyuvm_copies [OF s(1), of "0x80108000" 5] s(2) unfolding r by auto
  moreover have "umem_of s d0 3 = Some 0" using s(3) by simp
  ultimately show ?thesis by (intro exI [of _ s] exI [of _ d0] exI [of _ d] exI [of _ s']) simp
qed

text \<open>C19: \<open>copyout\<close> stores the bytes at the virtual addresses it is given, across page borders, when user programs may
  use all the pages concerned; no other byte the process sees changes.\<close>

theorem copyout_writes:
  assumes "dir_ok s d" "va + length buf \<le> KERNBASE" "\<forall>a. va \<le> a \<and> a < va + length buf \<longrightarrow> user_page s d (a div PGSIZE)"
  shows "\<exists>s'. copyout d va buf s = Inr (0, s') \<and> dir_ok s' d \<and>
     umem_of s' d = (\<lambda>a. if va \<le> a \<and> a < va + length buf then Some (buf ! (a - va)) else umem_of s d a)"
  using copyout_spec [OF assms] by blast

text \<open>A directory with one page table and the user pages 0 and 1.\<close>

definition sample_dir :: consst where
  "sample_dir = sample_console\<lparr>kend := 0x80100000,
     pages := (\<lambda>_. [])(0x80101000 := put32 0x102007 @ replicate 4092 0,
       0x80102000 := put32 0x103007 @ put32 0x104007 @ replicate 4088 0,
       0x80103000 := replicate 4096 0, 0x80104000 := replicate 4096 0)\<rparr>"

lemma sample_dir_entries:
  "i < 1024 \<Longrightarrow> pte_at 0x80101000 i sample_dir = (if i = 0 then 0x102007 else 0)"
  "i < 1024 \<Longrightarrow> pte_at 0x80102000 i sample_dir = (if i = 0 then 0x103007 else if i = 1 then 0x104007 else 0)"
proof -
  have z: "slice (4 * i) 4 (xs @ replicate m 0) = replicate 4 (0 :: byte)" if "length xs \<le> 4 * i" "4 * i + 4 \<le> length xs + m" for xs i m
    using that by (simp add: slice_def min_def)
  have g: "unat (get32 (replicate 4 0)) = 0" by (simp add: get32_def numeral_eq_Suc)
  have p: "pages sample_dir 0x80101000 = put32 0x102007 @ replicate 4092 0"
      "pages sample_dir 0x80102000 = (put32 0x103007 @ put32 0x104007) @ replicate 4088 0" by (simp_all add: sample_dir_def)
  show "pte_at 0x80101000 i sample_dir = (if i = 0 then 0x102007 else 0)" if "i < 1024"
  proof (cases "i = 0")
    case False
    then show ?thesis using z [of "put32 0x102007" i 4092] that g unfolding pte_at_def p by simp
  qed (simp add: pte_at_def p slice_def)
  consider "i = 0" | "i = 1" | "2 \<le> i" by linarith
  then show "pte_at 0x80102000 i sample_dir = (if i = 0 then 0x103007 else if i = 1 then 0x104007 else 0)" if "i < 1024"
  proof cases
    case 3
    then show ?thesis using z [of "put32 0x103007 @ put32 0x104007" i 4088] that g unfolding pte_at_def p by simp
  qed (simp_all add: pte_at_def p slice_def)
qed

lemma sample_dir_view:
  "ptab sample_dir 0x80101000 i = (if i = 0 then Some 0x80102000 else None)"
  "pte sample_dir 0x80101000 n = (if n = 0 then 0x103007 else if n = 1 then 0x104007 else 0)"
proof -
  show t: "ptab sample_dir 0x80101000 i = (if i = 0 then Some 0x80102000 else None)" for i
    by (cases "i < 1024") (auto simp: ptab_def sample_dir_entries PTE_ADDR_def split: if_splits)
  have "n div 1024 = 0 \<longleftrightarrow> n < 1024" by auto
  then show "pte sample_dir 0x80101000 n = (if n = 0 then 0x103007 else if n = 1 then 0x104007 else 0)"
    by (simp add: pte_def t sample_dir_entries)
qed

lemma sample_dir_ok: "dir_ok sample_dir 0x80101000"
proof -
  have "own sample_dir 0x80101000 r = (case r of RDir \<Rightarrow> Some 0x80101000 | RTab i \<Rightarrow> (if i = 0 then Some 0x80102000 else None)
      | RUser n \<Rightarrow> (if n = 0 then Some 0x80103000 else if n = 1 then Some 0x80104000 else None))" for r
    by (cases r) (simp_all add: sample_dir_view PTE_ADDR_def)
  then show ?thesis
    by (auto simp: dir_ok_def page_at_def page_ok_def sample_dir_def split: role.splits if_splits)
qed

theorem copyout_writes_witness:
  "\<exists>s'. copyout 0x80101000 4095 [7, 8] sample_dir = Inr (0, s') \<and> umem_of s' 0x80101000 4095 = Some 7 \<and>
     umem_of s' 0x80101000 4096 = Some 8"
proof -
  have "user_page sample_dir 0x80101000 (a div 4096)" if "4095 \<le> a" "a < 4095 + 2" for a
  proof -
    have "a = 4095 \<or> a = 4096" using that by linarith
    then show ?thesis by (auto simp: user_page_def sample_dir_view)
  qed
  then show ?thesis using copyout_writes [OF sample_dir_ok, of 4095 "[7, 8]"] by auto
qed

text \<open>C20: What \<open>copyout\<close> does when it must not write.  A page that is absent or not accessible to user programs makes it
  return -1, but only when the directory has a page table for the address: otherwise it reads through a null
  pointer, because \<open>uva2ka\<close> does not test what \<open>walkpgdir\<close> returns.\<close>

theorem copyout_refuses:
  assumes "dir_ok s d" "va < 2 ^ 32" "buf \<noteq> []" "even (pte s d (va div PGSIZE)) \<or> pte s d (va div PGSIZE) AND PTE_U = 0"
  shows "copyout d va buf s = (case ptab s d (va div PGSIZE div 1024) of None \<Rightarrow> Inl (UB ''pte'') | Some _ \<Rightarrow> Inr (-1, s))"
proof -
  define n where "n = va div 4096"
  have n: "PGROUNDDOWN va = n * 4096" "n * 4096 < 2 ^ 32" "n * 4096 div 4096 = n"
    using assms(2) div_times_less_eq_dividend [of va 4096] by (simp_all add: n_def PGROUNDDOWN_def)
  have u: "uva2ka d (n * 4096) s = (case ptab s d (n div 1024) of None \<Rightarrow> Inl (UB ''pte'') | Some _ \<Rightarrow> Inr (0, s))"
  proof (cases "ptab s d (n div 1024)")
    case None
    then have "walkpgdir d (n * 4096) False s = Inr (None, s)" using walk_absent [OF n(2)] n(3) by simp
    with None show ?thesis by (simp add: uva2ka_def)
  next
    case (Some t)
    then have "walkpgdir d (n * 4096) False s = Inr (Some (t, n mod 1024), s)"
      using walk_present [OF assms(1) n(2), of t] unfolding n(3) by blast
    moreover have "pte_at t (n mod 1024) s = pte s d n" using Some by (simp add: pte_def)
    ultimately show ?thesis using assms(4) Some by (auto simp: uva2ka_def n_def [symmetric])
  qed
  show ?thesis
    using assms(3) u unfolding copyout.simps [of d va] n(1) Let_def n_def [symmetric] by (cases "ptab s d (n div 1024)") simp_all
qed

theorem copyout_refuses_witness:
  "copyout 0x80101000 0x400000 [1] sample_dir = Inl (UB ''pte'') \<and> copyout 0x80101000 0x5000 [1] sample_dir = Inr (-1, sample_dir)"
  using copyout_refuses [OF sample_dir_ok, of "0x400000" "[1]"] copyout_refuses [OF sample_dir_ok, of "0x5000" "[1]"]
  by (simp add: sample_dir_view)

end
