(* ===== verification/Spec2Isabelle.thy ===== *)
theory Spec2Isabelle
  imports CString Recovery Readcall Grep Shell_Print Arguments Typing File_Refs Names Fork_Memory
begin

text \<open>
  \<^bold>\<open>Verification of xv6-recorder\<close>

  The program is xv6, a small Unix kernel for the x86, extended with a recorder of system calls
  (\<open>src/v3\<close>; \<open>src/v1\<close> and \<open>src/v2\<close> are earlier versions).  A process may start a recording session.  Each of
  its system calls then stores a record of its inputs and outputs; at the end the records are packed
  into a file.  A replay session reads the file back and answers the calls of the process from it.

  \<^bold>\<open>State and effects.\<close>  Kernel code is modelled as functions \<open>state \<Rightarrow> fault + result \<times> state\<close> (theory
  Kernel_Monad): \<open>Panic\<close> is a call of \<open>panic\<close>, \<open>UB\<close> an access outside an object or through an
  uninitialised or null pointer, \<open>Sleep\<close> a call that has to wait for another process, \<open>Spin\<close> a loop that does
  not end.  The state is a chain of extensible records, one per layer, in the order of the kernel's layers:
  locks, page allocator, pipes, console, buffer cache and disk, log, inodes, open files, process and
  recorder.  An operation works on every extension of the record of its own layer.  Memory objects are byte
  lists, integers have their width, and C strings are the bytes before their zero.

  \<^bold>\<open>Parts and theories.\<close>

  \<^item> \<open>Prelude\<close>, \<open>Kernel_Monad\<close>: little-endian integers, slices and patches of byte arrays; the monad with its
    rules (\<open>keeps\<close>, \<open>gives\<close>, \<open>leads\<close>).
  \<^item> Recorder (\<open>rr.h\<close>, \<open>sysproc.c\<close>, \<open>sysfile.c\<close>): \<open>SCR\<close> (records and their comparison), \<open>Codec\<close>
    (\<open>bidirectionalTransform\<close>), \<open>Session\<close> (the loops over all records), \<open>Replay\<close> (what a replay returns),
    \<open>Handlers\<close> (the system calls with the recorder around them), \<open>Determinism\<close>, \<open>Recorder\<close>, \<open>Readcall\<close>
    (the guarantees), \<open>Typing\<close> (the shape of the tables).
  \<^item> Memory and strings (\<open>string.c\<close>): \<open>CString\<close>.  Locks (\<open>spinlock.c\<close>, \<open>sleeplock.c\<close>): \<open>Locks\<close>.
  \<^item> Page allocator (\<open>kalloc.c\<close>): \<open>Kalloc\<close>.  Virtual memory (\<open>vm.c\<close>): \<open>Vm\<close> has the definitions,
    \<open>Page_Tables\<close> the meaning of the tables and their invariant, \<open>Address_Space\<close>, \<open>User_Memory\<close>,
    \<open>Kernel_Map\<close> and \<open>Fork_Memory\<close> what the operations do.
  \<^item> Pipes (\<open>pipe.c\<close>): \<open>Ring\<close> (ring buffers refine queues), \<open>Pipe\<close>.  Console (\<open>console.c\<close>): \<open>Console\<close>.
  \<^item> Disk and buffer cache (\<open>ide.c\<close>, \<open>bio.c\<close>): \<open>Bio\<close>, \<open>Block_Cache\<close> (the interface its clients use).
    Log (\<open>log.c\<close>): \<open>Log\<close>, \<open>Recovery\<close>.
  \<^item> File system (\<open>fs.c\<close>): \<open>Inode\<close>, \<open>Dir\<close>, \<open>Names\<close>.  Open files (\<open>file.c\<close>): \<open>File\<close>, \<open>File_Refs\<close>.
    System calls (\<open>syscall.c\<close>, \<open>sysfile.c\<close>): \<open>Sysargs\<close>, \<open>Arguments\<close>, \<open>Sysfile\<close>, \<open>Frames\<close> (what the
    file system leaves alone).
  \<^item> User programs: \<open>Grep\<close> (\<open>grep.c\<close>), \<open>Shell\<close> and \<open>Shell_Print\<close> (the parser of \<open>sh.c\<close>).

  \<^bold>\<open>What is shown.\<close>

  \<^item> Recorder: a program replayed from a recording gets the results of the recorded run; recording does not
    change results; packing and unpacking are inverse; a replayed call is accepted exactly when it is the
    recorded one; the copies of the system calls in the recording branches do the original work; the
    recorder's tables keep their shape whatever a file contains; and the two ways in which recording
    leaves its objects.
  \<^item> File system: a crash during a commit leaves a transaction done or not done; the reservation of log space is
    one block short; reference counts of open files are exact on every path; path components and directory
    entries.
  \<^item> Memory: every page is handed out once; an address space can be built, grown, shrunk and released without
    losing a page or using it twice, on the failing paths too; the kernel's half is mapped as its comment says.
  \<^item> Pipes and console: first in first out under every interleaving, and progress; the line editor;
    printed numbers.
  \<^item> System call arguments stay inside the process; spin locks exclude each other and nest.
  \<^item> The shell's parser ends on every line, reads every command it can print and cuts its words correctly in
    place; grep decides the language of its patterns.

  \<^bold>\<open>Interfaces.\<close>  Locales state what one component relies on in another and are interpreted on the
  definitions of this development: \<open>page_alloc\<close> (\<open>Kalloc\<close>), the ring buffer of \<open>Ring\<close>, \<open>block_cache\<close>
  (\<open>Block_Cache\<close>, used by the log), \<open>fs_frame\<close> (\<open>Frames\<close>, \<open>File_Refs\<close>) and \<open>recorded_calls\<close>
  (\<open>Determinism\<close>).

  \<^bold>\<open>Bounds and fuel.\<close>  Loops are structural or have a termination proof, with these exceptions.  The shell's
  parser gets fuel \<open>4 * length + 4\<close>, which \<open>parsecmd_terminates\<close> shows to be enough.  \<open>mappages\<close> gets \<open>2^20\<close>
  rounds, the number of pages of the address space, and \<open>deallocuvm\<close> twice that; the lemmas about them show
  that they end before.  Table sizes and constants are those of \<open>param.h\<close> and \<open>rr.h\<close>.

  \<^bold>\<open>Parameters.\<close>  The addresses the linker chooses (\<open>end\<close>, \<open>data\<close>) are a field of the state and an argument;
  \<open>data_ok\<close> is what the linker script promises of the second.

  \<^bold>\<open>Not modelled.\<close>  Processes and the scheduler (\<open>proc.c\<close>), so that a call that has to wait ends in \<open>Sleep\<close>
  here, and with them \<open>exec.c\<close> and the trap entry; assembly and boot code; the drivers of devices whose
  registers only the hardware defines (interrupt controllers, serial line, screen memory); the user library
  and the user programs that only call system calls; tests; the image builder \<open>mkfs.c\<close>, a host program; and the
  first two versions of the recorder, which the third replaces.
\<close>

end
